(* ===== verification/Prelude.thy ===== *)
theory Prelude
  imports Main "HOL-Library.Word"
begin

unbundle bit_operations_syntax

text \<open>
  The vocabulary shared by all components: machine words, the outcome of a C call that
  may abort, exit or run into undefined behaviour, the result codes of
  \<^verbatim>\<open>result.h\<close>, memory blocks as lists of bytes, and the functions of the
  C library on strings that the sources call (\<^verbatim>\<open>strcspn\<close>, \<^verbatim>\<open>strchr\<close>,
  \<^verbatim>\<open>isspace\<close>, \<^verbatim>\<open>tolower\<close>, \<^verbatim>\<open>strncmp\<close>, \<^verbatim>\<open>strncasecmp\<close>,
  \<^verbatim>\<open>strtoul\<close>, \<^verbatim>\<open>strtol\<close>), with the generic lemmas the component
  theories share.
\<close>

named_theorems wf_intros \<open>introduction rules for the well-formedness invariants\<close>
named_theorems put_simps \<open>rules that execute a sequence of buffer writes\<close>

declare add_2_eq_Suc [simp del] add_2_eq_Suc' [simp del]

section \<open>Machine integers\<close>

type_synonym u8 = "8 word"
type_synonym u16 = "16 word"
type_synonym u32 = "32 word"
type_synonym u64 = "64 word"
type_synonym bytes = "u8 list"

lemma and_0xF: "(x :: nat) AND 0xF = x mod 16"
  using take_bit_eq_mask [of 4 x] by (simp add: take_bit_eq_mod mask_eq_exp_minus_1)

text \<open>
  \<^verbatim>\<open>size_t\<close> values are natural numbers below \<open>2 ^ 64\<close>; a subtraction of
  \<^verbatim>\<open>size_t\<close> values wraps.
\<close>

definition size_sub :: "nat \<Rightarrow> nat \<Rightarrow> nat" where
  "size_sub a b = (if b \<le> a then a - b else (2 ^ 64 + a) - b)"

lemma size_sub_le [simp]: "b \<le> a \<Longrightarrow> size_sub a b = a - b"
  by (simp add: size_sub_def)

section \<open>Outcomes of a C call\<close>

text \<open>
  A call returns (\<open>Ret\<close>), fails an \<^verbatim>\<open>assert\<close> (\<open>Abort\<close>), ends the process
  through \<^verbatim>\<open>exit\<close> or \<^verbatim>\<open>perf_log_fatal\<close> (\<open>Exit\<close>) or performs an
  access outside its object (\<open>UB\<close>).
\<close>

datatype 'a outcome = Ret 'a | Abort | Exit nat | UB

fun obind :: "'a outcome \<Rightarrow> ('a \<Rightarrow> 'b outcome) \<Rightarrow> 'b outcome" where
  "obind (Ret x) f = f x"
| "obind Abort f = Abort"
| "obind (Exit n) f = Exit n"
| "obind UB f = UB"

fun returns :: "'a outcome \<Rightarrow> bool" where
  "returns (Ret x) = True"
| "returns _ = False"

lemma returns_iff: "returns m \<longleftrightarrow> (\<exists>x. m = Ret x)"
  by (cases m) auto

lemma obind_cong [fundef_cong]:
  "m = m' \<Longrightarrow> (\<And>x. m' = Ret x \<Longrightarrow> f x = g x) \<Longrightarrow> obind m f = obind m' g"
  by (cases m') auto

lemma obind_assoc: "obind (obind m f) g = obind m (\<lambda>x. obind (f x) g)"
  by (cases m) auto

lemma obind_Ret_right [simp]: "obind m Ret = m"
  by (cases m) auto

lemma obind_eq_Ret [simp]: "obind m f = Ret y \<longleftrightarrow> (\<exists>x. m = Ret x \<and> f x = Ret y)"
  by (cases m) auto

lemma obind_if_distrib: "obind (if c then m else n) f = (if c then obind m f else obind n f)"
  by simp

section \<open>Result codes\<close>

datatype perf_result =
    PERF_R_SUCCESS | PERF_R_FAILURE | PERF_R_CANCELED | PERF_R_EOF | PERF_R_INVALIDFILE
  | PERF_R_NOMORE | PERF_R_NOSPACE | PERF_R_TIMEDOUT | PERF_R_INVALIDUPDATE

section \<open>Memory blocks\<close>

text \<open>\<open>mem_write m off bs\<close> is \<^verbatim>\<open>memcpy(m + off, bs, length)\<close>.\<close>

definition mem_write :: "'a list \<Rightarrow> nat \<Rightarrow> 'a list \<Rightarrow> 'a list" where
  "mem_write m off bs = take off m @ bs @ drop (off + length bs) m"

lemma mem_write_Nil [simp]: "mem_write m off [] = m"
  by (simp add: mem_write_def)

lemma length_mem_write [simp]:
  "off + length bs \<le> length m \<Longrightarrow> length (mem_write m off bs) = length m"
  by (simp add: mem_write_def)

lemma mem_write_mem_write [simp]:
  "off + length xs + length ys \<le> length m \<Longrightarrow>
   mem_write (mem_write m off xs) (off + length xs) ys = mem_write m off (xs @ ys)"
  by (simp add: mem_write_def ac_simps)

lemma take_mem_write [simp]:
  "off + length bs \<le> length m \<Longrightarrow> take (off + length bs) (mem_write m off bs) = take off m @ bs"
  by (simp add: mem_write_def)

lemma take_mem_write_le:
  "n \<le> off \<Longrightarrow> off \<le> length m \<Longrightarrow> take n (mem_write m off bs) = take n m"
  by (simp add: mem_write_def min_def)

lemma nth_mem_write_lt:
  "i < off \<Longrightarrow> off \<le> length m \<Longrightarrow> mem_write m off bs ! i = m ! i"
  by (simp add: mem_write_def nth_append)

section \<open>Big-endian encodings\<close>

definition be16 :: "u16 \<Rightarrow> bytes" where
  "be16 v = [ucast (drop_bit 8 v), ucast v]"

definition be32 :: "u32 \<Rightarrow> bytes" where
  "be32 v = [ucast (drop_bit 24 v), ucast (drop_bit 16 v), ucast (drop_bit 8 v), ucast v]"

text \<open>The value \<^verbatim>\<open>ntohs\<close> reads from two bytes of the network.\<close>

definition ntohs16 :: "u8 \<Rightarrow> u8 \<Rightarrow> nat" where
  "ntohs16 hi lo = unat hi * 256 + unat lo"

lemma length_be16 [simp]: "length (be16 v) = 2"
  by (simp add: be16_def)

lemma length_be32 [simp]: "length (be32 v) = 4"
  by (simp add: be32_def)

lemma ntohs16_less [simp]: "ntohs16 hi lo < 65536"
proof -
  have "unat hi < 256" "unat lo < 256"
    using unsigned_less [of hi] unsigned_less [of lo] by simp_all
  then show ?thesis by (simp add: ntohs16_def)
qed

lemma unat_be16_hi: "unat (ucast (drop_bit 8 (of_nat n :: u16)) :: u8) = n div 256 mod 256"
proof -
  have "unat (ucast (drop_bit 8 (of_nat n :: u16)) :: u8) = (n mod 65536 div 256) mod 256"
    by (simp add: drop_bit_eq_div unsigned_ucast_eq take_bit_eq_mod unat_div unat_of_nat)
  also have "\<dots> = n div 256 mod 256"
    using div_mult2_eq [of n 256 256] mod_mult2_eq [of n 256 256] by simp
  finally show ?thesis .
qed

lemma unat_be16_lo: "unat (ucast (of_nat n :: u16) :: u8) = n mod 256"
  by (simp add: unsigned_ucast_eq take_bit_eq_mod unat_of_nat mod_mod_cancel)

text \<open>Writing a length in network order and reading it back.\<close>

lemma ntohs16_be16: "ntohs16 (be16 (of_nat n) ! 0) (be16 (of_nat n) ! 1) = n mod 65536"
proof -
  have "n mod 65536 = (n div 256 mod 256) * 256 + n mod 256"
    using mod_mult2_eq [of n 256 256] by (simp add: ac_simps)
  then show ?thesis
    by (simp add: be16_def ntohs16_def unat_be16_hi unat_be16_lo)
qed

section \<open>Characters and strings\<close>

text \<open>
  A C string is the list of its bytes before the terminating NUL. Literals are written
  as HOL strings and converted.
\<close>

definition ch :: "char \<Rightarrow> u8" where
  "ch c = of_char c"

definition cstr :: "string \<Rightarrow> bytes" where
  "cstr s = map ch s"

lemma length_cstr [simp]: "length (cstr s) = length s"
  by (simp add: cstr_def)

definition cstring_of :: "bytes \<Rightarrow> bytes" where
  "cstring_of m = takeWhile (\<lambda>b. b \<noteq> 0) m"

definition isdigit :: "u8 \<Rightarrow> bool" where
  "isdigit c \<longleftrightarrow> 48 \<le> c \<and> c \<le> 57"

definition isspace :: "u8 \<Rightarrow> bool" where
  "isspace c \<longleftrightarrow> c = 32 \<or> (9 \<le> c \<and> c \<le> 13)"

definition tolower :: "u8 \<Rightarrow> u8" where
  "tolower c = (if 65 \<le> c \<and> c \<le> 90 then c + 32 else c)"

text \<open>\<^verbatim>\<open>strcspn(s, reject)\<close>.\<close>

definition strcspn :: "bytes \<Rightarrow> bytes \<Rightarrow> nat" where
  "strcspn s reject = length (takeWhile (\<lambda>b. b \<noteq> 0 \<and> b \<notin> set reject) s)"

lemma strcspn_le [simp]: "strcspn s r \<le> length s"
  by (simp add: strcspn_def length_takeWhile_le)

text \<open>\<^verbatim>\<open>strchr(s, c)\<close>: the bytes before the first \<open>c\<close> and those after it.\<close>

definition strchr :: "bytes \<Rightarrow> u8 \<Rightarrow> (bytes \<times> bytes) option" where
  "strchr s c = (if c \<in> set s then Some (takeWhile (\<lambda>b. b \<noteq> c) s, tl (dropWhile (\<lambda>b. b \<noteq> c) s))
                 else None)"

text \<open>
  \<^verbatim>\<open>strncmp(a, b, n) == 0\<close> and \<^verbatim>\<open>strncasecmp(a, b, n) == 0\<close>, the end of a list
  being its NUL.
\<close>

fun strn_eq :: "(u8 \<Rightarrow> u8) \<Rightarrow> bytes \<Rightarrow> bytes \<Rightarrow> nat \<Rightarrow> bool" where
  "strn_eq f a b 0 = True"
| "strn_eq f [] [] (Suc n) = True"
| "strn_eq f (x # xs) (y # ys) (Suc n) = (f x = f y \<and> strn_eq f xs ys n)"
| "strn_eq f _ _ (Suc n) = False"

definition strncmp_eq :: "bytes \<Rightarrow> bytes \<Rightarrow> nat \<Rightarrow> bool" where
  "strncmp_eq a b n = strn_eq id a b n"

definition strncasecmp_eq :: "bytes \<Rightarrow> bytes \<Rightarrow> nat \<Rightarrow> bool" where
  "strncasecmp_eq a b n = strn_eq tolower a b n"

lemma strn_eq_iff: "strn_eq f a b n \<longleftrightarrow> map f (take n a) = map f (take n b)"
  by (induction f a b n rule: strn_eq.induct) auto

lemma unat_ch: "unat (ch c) = of_char c"
proof -
  have "ch c = of_nat (of_char c)" by (simp add: ch_def of_nat_of_char)
  then have "unat (ch c) = of_char c mod 256" by (simp add: unat_of_nat)
  then show ?thesis by simp
qed

lemma ch_eq_iff [simp]: "ch c = ch d \<longleftrightarrow> c = d"
  by (metis of_char_eq_iff unat_ch)

lemma cstr_eq_iff: "cstr s = cstr t \<longleftrightarrow> s = t"
  by (simp add: cstr_def inj_map_eq_map inj_def)

lemma tolower_inj:
  assumes "unat x < 97" and "unat y < 97" and "tolower x = tolower y"
  shows "x = y"
proof -
  have "unat (tolower z) = (if 65 \<le> unat z \<and> unat z \<le> 90 then unat z + 32 else unat z)"
    if "unat z < 97" for z
    using that by (auto simp: tolower_def word_le_nat_alt unat_word_ariths)
  from this [OF assms(1)] this [OF assms(2)] assms have "unat x = unat y"
    by (simp split: if_splits)
  then show ?thesis by (simp add: word_unat_eq_iff)
qed

text \<open>Strings without lower-case letters, on which \<^verbatim>\<open>tolower\<close> is injective.\<close>

definition capital :: "string \<Rightarrow> bool" where
  "capital s \<longleftrightarrow> (\<forall>c \<in> set s. (of_char c :: int) < 97)"

lemma tolower_cstr_inj:
  "capital s \<Longrightarrow> capital t \<Longrightarrow> map tolower (cstr s) = map tolower (cstr t) \<longleftrightarrow> s = t"
proof (induction s arbitrary: t)
  case Nil
  then show ?case by (auto simp: cstr_def)
next
  case (Cons c s)
  have "tolower (ch c) = tolower (ch d) \<longleftrightarrow> c = d" if "(of_char d :: int) < 97" for d
  proof
    have *: "unat (ch c) < 97" "unat (ch d) < 97"
      using Cons.prems(1) that unfolding capital_def unat_ch
      by (simp_all add: of_nat_of_char [where 'a = int, symmetric])
    assume "tolower (ch c) = tolower (ch d)"
    with * have "ch c = ch d" by (rule tolower_inj)
    then have "(of_char c :: nat) = of_char d" by (metis unat_ch)
    then show "c = d" by simp
  qed simp
  with Cons show ?case by (cases t) (auto simp: cstr_def capital_def)
qed

section \<open>Number parsing\<close>

definition digit_val :: "u8 \<Rightarrow> nat" where
  "digit_val c = (if isdigit c then unat c - 48
                  else if 97 \<le> tolower c \<and> tolower c \<le> 122 then unat (tolower c) - 87
                  else 255)"

definition is_base_digit :: "nat \<Rightarrow> u8 \<Rightarrow> bool" where
  "is_base_digit base c \<longleftrightarrow> digit_val c < base"

definition digits_val :: "nat \<Rightarrow> bytes \<Rightarrow> nat" where
  "digits_val base ds = foldl (\<lambda>acc d. acc * base + digit_val d) 0 ds"

definition ULONG_MAX :: nat where
  "ULONG_MAX = 2 ^ 64 - 1"

text \<open>
  The common front of \<^verbatim>\<open>strtoul\<close> and \<^verbatim>\<open>strtol\<close>: white space, a sign, the
  \<^verbatim>\<open>0x\<close> prefix of base 16, then the longest run of digits. The result is the sign,
  the digits and the bytes from \<^verbatim>\<open>endptr\<close> on; with no digit \<^verbatim>\<open>endptr\<close> is the
  start of the string.
\<close>

definition strto_sign :: "bytes \<Rightarrow> bool \<times> bytes" where
  "strto_sign s = (case s of [] \<Rightarrow> (False, [])
     | c # cs \<Rightarrow> if c = 45 then (True, cs) else if c = 43 then (False, cs) else (False, s))"

definition strto_prefix :: "nat \<Rightarrow> bytes \<Rightarrow> bytes" where
  "strto_prefix base s = (case s of
       z # x # d # ds \<Rightarrow> if base = 16 \<and> z = 48 \<and> tolower x = 120 \<and> is_base_digit 16 d then d # ds else s
     | _ \<Rightarrow> s)"

definition strto_scan :: "nat \<Rightarrow> bytes \<Rightarrow> bool \<times> bytes \<times> bytes" where
  "strto_scan base s =
     (let (neg, s1) = strto_sign (dropWhile isspace s);
          s2 = strto_prefix base s1;
          ds = takeWhile (is_base_digit base) s2
      in if ds = [] then (False, [], s) else (neg, ds, dropWhile (is_base_digit base) s2))"

text \<open>\<^verbatim>\<open>strtoul\<close>: the value, the bytes from \<^verbatim>\<open>endptr\<close> on, and whether
  \<^verbatim>\<open>errno\<close> is \<^verbatim>\<open>ERANGE\<close>.\<close>

definition strtoul :: "nat \<Rightarrow> bytes \<Rightarrow> nat \<times> bytes \<times> bool" where
  "strtoul base s =
     (let (neg, ds, rest) = strto_scan base s; v = digits_val base ds
      in if v > ULONG_MAX then (ULONG_MAX, rest, True)
         else (if neg then (2 ^ 64 - v) mod 2 ^ 64 else v, rest, False))"

text \<open>\<^verbatim>\<open>strtol\<close> on a string whose value is in the range of \<^verbatim>\<open>long\<close>.\<close>

definition strtol :: "nat \<Rightarrow> bytes \<Rightarrow> int" where
  "strtol base s = (let (neg, ds, rest) = strto_scan base s; v = int (digits_val base ds)
                    in if neg then - v else v)"

lemma digits_val_snoc [simp]: "digits_val base (ds @ [d]) = digits_val base ds * base + digit_val d"
  by (simp add: digits_val_def)

lemma digits_val_Nil [simp]: "digits_val base [] = 0"
  by (simp add: digits_val_def)

lemma digits_val_less:
  "\<forall>d \<in> set ds. digit_val d < base \<Longrightarrow> digits_val base ds < base ^ length ds"
proof (induction ds rule: rev_induct)
  case Nil
  then show ?case by simp
next
  case (snoc d ds)
  then have "digits_val base ds + 1 \<le> base ^ length ds" and d: "digit_val d < base"
    by auto
  then have "(digits_val base ds + 1) * base \<le> base ^ length ds * base"
    by (intro mult_le_mono1)
  with d show ?case by (simp add: algebra_simps)
qed

lemma is_base_digit_10: "is_base_digit 10 c \<longleftrightarrow> isdigit c"
proof -
  have "48 \<le> unat c \<and> unat c \<le> 57 \<longleftrightarrow> isdigit c"
    by (simp add: isdigit_def word_le_nat_alt)
  moreover have "97 \<le> unat (tolower c)" if "97 \<le> tolower c"
    using that by (simp add: word_le_nat_alt)
  ultimately show ?thesis by (auto simp: is_base_digit_def digit_val_def)
qed

lemma isdigit_not_blank: "isdigit c \<Longrightarrow> \<not> isspace c \<and> c \<noteq> 45 \<and> c \<noteq> 43"
  by (auto simp: isdigit_def isspace_def word_le_nat_alt)

text \<open>\<^verbatim>\<open>strtoul\<close> on a run of decimal digits.\<close>

lemma strtoul_digits:
  assumes "ds \<noteq> []" and "\<forall>d \<in> set ds. isdigit d" and "rest = [] \<or> \<not> isdigit (hd rest)"
    and "digits_val 10 ds \<le> ULONG_MAX"
  shows "strtoul 10 (ds @ rest) = (digits_val 10 ds, rest, False)"
proof -
  obtain d ds' where ds: "ds = d # ds'" using assms(1) by (cases ds) auto
  have d: "\<not> isspace d" "d \<noteq> 45" "d \<noteq> 43" using isdigit_not_blank [of d] assms(2) ds by auto
  have "takeWhile isdigit (ds @ rest) = ds" and "dropWhile isdigit (ds @ rest) = rest"
    using assms(2,3) by (cases rest; simp)+
  moreover have "is_base_digit 10 = isdigit" by (simp add: fun_eq_iff is_base_digit_10)
  moreover have "strto_sign (dropWhile isspace (ds @ rest)) = (False, ds @ rest)"
    using d ds by (simp add: strto_sign_def)
  moreover have "strto_prefix 10 s = s" for s by (simp add: strto_prefix_def split: list.splits)
  ultimately have "strto_scan 10 (ds @ rest) = (False, ds, rest)"
    using assms(1) by (simp add: strto_scan_def)
  then show ?thesis using assms(4) by (simp add: strtoul_def)
qed

end
