(* ===== verification/Qlist.thy ===== *)
theory Qlist
  imports Prelude
begin

text \<open>
  The intrusive doubly linked lists of \<^verbatim>\<open>list.h\<close>.  Elements are addresses (array indices)
  into a store of records that extend \<open>link\<close>; a null pointer is \<open>None\<close>.  The lemmas relate
  the pointer operations to operations on HOL lists, under the representation predicate
  \<open>dll\<close>, and the locale \<open>intrusive_list\<close> is the interface the clients rely on.
\<close>

section \<open>The operations\<close>

record link =
  lprev :: "nat option"
  lnext :: "nat option"

record plist =
  head :: "nat option"
  tail :: "nat option"

definition perf_list_init :: plist where
  "perf_list_init = \<lparr>head = None, tail = None\<rparr>"

definition perf_list_empty :: "plist \<Rightarrow> bool" where
  "perf_list_empty l \<longleftrightarrow> head l = None"

definition set_prev :: "nat \<Rightarrow> nat option \<Rightarrow> (nat \<Rightarrow> 'z link_scheme) \<Rightarrow> nat \<Rightarrow> 'z link_scheme" where
  "set_prev a p h = h(a := (h a)\<lparr>lprev := p\<rparr>)"

definition set_next :: "nat \<Rightarrow> nat option \<Rightarrow> (nat \<Rightarrow> 'z link_scheme) \<Rightarrow> nat \<Rightarrow> 'z link_scheme" where
  "set_next a p h = h(a := (h a)\<lparr>lnext := p\<rparr>)"

definition perf_link_init :: "nat \<Rightarrow> (nat \<Rightarrow> 'z link_scheme) \<Rightarrow> nat \<Rightarrow> 'z link_scheme" where
  "perf_link_init a h = set_next a None (set_prev a None h)"

definition perf_list_append ::
  "(nat \<Rightarrow> 'z link_scheme) \<Rightarrow> plist \<Rightarrow> nat \<Rightarrow> (nat \<Rightarrow> 'z link_scheme) \<times> plist" where
  "perf_list_append h l x =
    (case (case tail l of
             Some t \<Rightarrow> (set_next t (Some x) h, l)
           | None \<Rightarrow> (h, l\<lparr>head := Some x\<rparr>)) of
       (h, l) \<Rightarrow> (set_next x None (set_prev x (tail l) h), l\<lparr>tail := Some x\<rparr>))"

definition perf_list_prepend ::
  "(nat \<Rightarrow> 'z link_scheme) \<Rightarrow> plist \<Rightarrow> nat \<Rightarrow> (nat \<Rightarrow> 'z link_scheme) \<times> plist" where
  "perf_list_prepend h l x =
    (case (case head l of
             Some f \<Rightarrow> (set_prev f (Some x) h, l)
           | None \<Rightarrow> (h, l\<lparr>tail := Some x\<rparr>)) of
       (h, l) \<Rightarrow> (set_next x (head l) (set_prev x None h), l\<lparr>head := Some x\<rparr>))"

definition perf_list_unlink ::
  "(nat \<Rightarrow> 'z link_scheme) \<Rightarrow> plist \<Rightarrow> nat \<Rightarrow> ((nat \<Rightarrow> 'z link_scheme) \<times> plist) outcome" where
  "perf_list_unlink h l x =
    obind (case lnext (h x) of
             Some n \<Rightarrow> Ret (set_prev n (lprev (h x)) h, l)
           | None \<Rightarrow> if tail l = Some x then Ret (h, l\<lparr>tail := lprev (h x)\<rparr>) else Abort)
      (\<lambda>(h, l). obind (case lprev (h x) of
             Some p \<Rightarrow> Ret (set_next p (lnext (h x)) h, l)
           | None \<Rightarrow> if head l = Some x then Ret (h, l\<lparr>head := lnext (h x)\<rparr>) else Abort)
      (\<lambda>(h, l). let h = set_prev x None (set_next x None h) in
         if head l \<noteq> Some x \<and> tail l \<noteq> Some x then Ret (h, l) else Abort))"

section \<open>Representation of a list\<close>

text \<open>
  \<open>dseg h p xs n\<close>: the nodes \<open>xs\<close> are linked in both directions, the first one backwards to
  \<open>p\<close> and the last one forwards to \<open>n\<close>.
\<close>

fun dseg :: "(nat \<Rightarrow> 'z link_scheme) \<Rightarrow> nat option \<Rightarrow> nat list \<Rightarrow> nat option \<Rightarrow> bool" where
  "dseg h p [] n \<longleftrightarrow> True"
| "dseg h p (x # xs) n \<longleftrightarrow> lprev (h x) = p \<and>
    lnext (h x) = (case xs of [] \<Rightarrow> n | y # _ \<Rightarrow> Some y) \<and> dseg h (Some x) xs n"

definition first :: "nat list \<Rightarrow> nat option \<Rightarrow> nat option" where
  "first xs d = (case xs of [] \<Rightarrow> d | x # _ \<Rightarrow> Some x)"

definition final :: "nat list \<Rightarrow> nat option \<Rightarrow> nat option" where
  "final xs d = (if xs = [] then d else Some (last xs))"

lemma first_simps [simp]: "first [] d = d" "first (x # xs) d = Some x"
  by (simp_all add: first_def)

lemma final_simps [simp]: "final [] d = d" "final (xs @ [x]) d = Some x"
  "final (x # xs) d = final xs (Some x)"
  by (simp_all add: final_def)

lemma final_append [simp]: "final (xs @ ys) d = final ys (final xs d)"
  by (cases ys rule: rev_cases) (simp_all flip: append_assoc)

lemma first_append [simp]: "first (xs @ ys) d = first xs (first ys d)"
  by (cases xs) simp_all

lemma dseg_append: "dseg h p (xs @ ys) n \<longleftrightarrow> dseg h p xs (first ys n) \<and> dseg h (final xs p) ys n"
  by (induction h p xs n rule: dseg.induct) (auto simp: first_def split: list.split)

lemma dseg_frame:
  "(\<And>x. x \<in> set xs \<Longrightarrow> lprev (h' x) = lprev (h x) \<and> lnext (h' x) = lnext (h x)) \<Longrightarrow>
    dseg h' p xs n \<longleftrightarrow> dseg h p xs n"
  by (induction xs arbitrary: p) auto

lemma set_prev_simps [simp]:
  "lprev (set_prev a p h x) = (if x = a then p else lprev (h x))"
  "lnext (set_prev a p h x) = lnext (h x)"
  "link.more (set_prev a p h x) = link.more (h x)"
  by (simp_all add: set_prev_def)

lemma set_next_simps [simp]:
  "lnext (set_next a p h x) = (if x = a then p else lnext (h x))"
  "lprev (set_next a p h x) = lprev (h x)"
  "link.more (set_next a p h x) = link.more (h x)"
  by (simp_all add: set_next_def)

definition dll :: "(nat \<Rightarrow> 'z link_scheme) \<Rightarrow> plist \<Rightarrow> nat list \<Rightarrow> bool" where
  "dll h l xs \<longleftrightarrow> distinct xs \<and> head l = first xs None \<and> tail l = final xs None \<and> dseg h None xs None"

lemma dll_frame:
  "dll h l xs \<Longrightarrow> (\<And>x. x \<in> set xs \<Longrightarrow> lprev (h' x) = lprev (h x) \<and> lnext (h' x) = lnext (h x)) \<Longrightarrow>
    dll h' l xs"
  using dseg_frame [of xs h' h] by (simp add: dll_def)

lemma dll_init: "dll h perf_list_init []"
  by (simp add: dll_def perf_list_init_def)

lemma dll_head: "dll h l xs \<Longrightarrow> head l = first xs None"
  by (simp add: dll_def)

lemma dll_tail: "dll h l xs \<Longrightarrow> tail l = final xs None"
  by (simp add: dll_def)

lemma append_dll:
  assumes "dll h l xs" "x \<notin> set xs" "perf_list_append h l x = (h', l')"
  shows "dll h' l' (xs @ [x])"
proof (cases xs rule: rev_cases)
  case Nil
  then show ?thesis using assms by (auto simp: dll_def perf_list_append_def)
next
  case (snoc ys y)
  have h': "h' = set_next x None (set_prev x (Some y) (set_next y (Some x) h))"
    and l': "l' = l\<lparr>tail := Some x\<rparr>"
    using assms snoc by (auto simp: dll_def perf_list_append_def)
  have "dseg h' None ys (Some y) \<longleftrightarrow> dseg h None ys (Some y)"
    unfolding h' using assms snoc by (intro dseg_frame) (auto simp: dll_def)
  then show ?thesis
    using assms snoc by (auto simp: dll_def l' dseg_append h')
qed

lemma prepend_dll:
  assumes "dll h l xs" "x \<notin> set xs" "perf_list_prepend h l x = (h', l')"
  shows "dll h' l' (x # xs)"
proof (cases xs)
  case Nil
  then show ?thesis using assms by (auto simp: dll_def perf_list_prepend_def)
next
  case (Cons y ys)
  have h': "h' = set_next x (Some y) (set_prev x None (set_prev y (Some x) h))"
    and l': "l' = l\<lparr>head := Some x\<rparr>"
    using assms Cons by (auto simp: dll_def perf_list_prepend_def)
  have "dseg h' (Some y) ys None \<longleftrightarrow> dseg h (Some y) ys None"
    unfolding h' using assms Cons by (intro dseg_frame) (auto simp: dll_def)
  then show ?thesis
    using assms Cons by (auto simp: dll_def l' h')
qed

lemma unlink_dll:
  assumes "dll h l (as @ x # bs)"
  shows "\<exists>h' l'. perf_list_unlink h l x = Ret (h', l') \<and> dll h' l' (as @ bs) \<and>
    (\<forall>y. y \<notin> set (as @ x # bs) \<longrightarrow> h' y = h y) \<and> (\<forall>y. link.more (h' y) = link.more (h y))"
proof -
  have d: "distinct (as @ x # bs)" and hd: "head l = first (as @ x # bs) None"
    and tl: "tail l = final (as @ x # bs) None"
    and seg: "dseg h None as (Some x)" "dseg h (Some x) bs None"
    and x: "lprev (h x) = final as None" "lnext (h x) = first bs None"
    using assms by (auto simp: dll_def dseg_append first_def split: list.splits)
  have frame: "dseg (set_prev x None (set_next x None h')) p ys n \<longleftrightarrow> dseg h p ys n"
    if "\<And>y. y \<in> set ys \<Longrightarrow> y \<noteq> x \<and> h' y = h y" for h' p ys n
    using that by (intro dseg_frame) auto
  show ?thesis
  proof (cases as rule: rev_cases)
    case as: Nil
    show ?thesis
    proof (cases bs)
      case Nil
      then show ?thesis using as d hd tl x by (simp add: perf_list_unlink_def dll_def)
    next
      case (Cons b bs')
      let ?h = "set_prev x None (set_next x None (set_prev b None h))"
      have "perf_list_unlink h l x = Ret (?h, l\<lparr>head := Some b\<rparr>)"
        using as Cons d hd tl x by (auto simp: perf_list_unlink_def final_def)
      moreover have "dseg ?h (Some b) bs' None \<longleftrightarrow> dseg h (Some b) bs' None"
        using d Cons by (intro frame) (auto simp: set_prev_def)
      ultimately show ?thesis using as Cons d hd tl x seg
        by (auto simp: dll_def set_prev_def set_next_def)
    qed
  next
    case as: (snoc as' a)
    then have "a \<noteq> x" "a \<notin> set as'" using d by auto
    show ?thesis
    proof (cases bs)
      case Nil
      let ?h = "set_prev x None (set_next x None (set_next a None h))"
      have "perf_list_unlink h l x = Ret (?h, l\<lparr>tail := Some a\<rparr>)"
        using as Nil d hd tl x by (cases as') (auto simp: perf_list_unlink_def)
      moreover have "dseg ?h None as' (Some a) \<longleftrightarrow> dseg h None as' (Some a)"
        using d as by (intro frame) (auto simp: set_next_def)
      ultimately show ?thesis using as Nil d hd tl x seg
        by (auto simp: dll_def set_prev_def set_next_def dseg_append)
    next
      case (Cons b bs')
      let ?h = "set_prev x None (set_next x None (set_next a (Some b) (set_prev b (Some a) h)))"
      have "perf_list_unlink h l x = Ret (?h, l)"
        using as Cons d hd tl x by (cases as') (auto simp: perf_list_unlink_def final_def)
      moreover have "dseg ?h None as' (Some a) \<longleftrightarrow> dseg h None as' (Some a)"
        using d as Cons by (intro frame) (auto simp: set_next_def set_prev_def)
      moreover have "dseg ?h (Some b) bs' None \<longleftrightarrow> dseg h (Some b) bs' None"
        using d as Cons by (intro frame) (auto simp: set_next_def set_prev_def)
      ultimately show ?thesis using as Cons d hd tl x seg
        by (auto simp: dll_def set_prev_def set_next_def dseg_append)
    qed
  qed
qed

lemma dll_other: "dll h m ys \<Longrightarrow> (\<And>y. y \<in> set ys \<Longrightarrow> h' y = h y) \<Longrightarrow> dll h' m ys"
  by (rule dll_frame) simp_all

lemma unlink_member:
  assumes "dll h l xs" "x \<in> set xs"
  shows "\<exists>h' l'. perf_list_unlink h l x = Ret (h', l') \<and> dll h' l' (remove1 x xs) \<and>
    (\<forall>y. y \<notin> set xs \<longrightarrow> h' y = h y) \<and> (\<forall>y. link.more (h' y) = link.more (h y))"
proof -
  obtain as bs where "xs = as @ x # bs" "x \<notin> set as" using split_list_first [OF assms(2)] by auto
  then show ?thesis using unlink_dll [of h l as x bs] assms(1) by (simp add: remove1_append)
qed

lemma unlink_frame:
  "dll h l xs \<Longrightarrow> x \<in> set xs \<Longrightarrow> perf_list_unlink h l x = Ret (h', l') \<Longrightarrow> y \<notin> set xs \<Longrightarrow> h' y = h y"
  using unlink_member [of h l xs x] by (metis outcome.inject(1) prod.inject)

lemma unlink_more:
  "dll h l xs \<Longrightarrow> x \<in> set xs \<Longrightarrow> perf_list_unlink h l x = Ret (h', l') \<Longrightarrow>
    link.more (h' y) = link.more (h y)"
  using unlink_member [of h l xs x] by (metis outcome.inject(1) prod.inject)

lemma append_frame:
  "dll h l xs \<Longrightarrow> perf_list_append h l x = (h', l') \<Longrightarrow> y \<notin> set xs \<Longrightarrow> y \<noteq> x \<Longrightarrow> h' y = h y"
  by (cases xs rule: rev_cases)
    (auto simp: dll_def perf_list_append_def set_prev_def set_next_def split: option.splits)

lemma prepend_frame:
  "dll h l xs \<Longrightarrow> perf_list_prepend h l x = (h', l') \<Longrightarrow> y \<notin> set xs \<Longrightarrow> y \<noteq> x \<Longrightarrow> h' y = h y"
  by (cases xs)
    (auto simp: dll_def perf_list_prepend_def set_prev_def set_next_def split: option.splits)

lemma append_more: "perf_list_append h l x = (h', l') \<Longrightarrow> link.more (h' y) = link.more (h y)"
  by (auto simp: perf_list_append_def split: option.splits)

lemma prepend_more: "perf_list_prepend h l x = (h', l') \<Longrightarrow> link.more (h' y) = link.more (h y)"
  by (auto simp: perf_list_prepend_def split: option.splits)

section \<open>The interface of the clients\<close>

text \<open>
  What a client of the lists relies on: a store \<open>'h\<close> holds the elements of several lists; each
  operation changes one list, keeps every list with other elements, and keeps the data of
  every element.  \<open>unlink\<close> returns for an element of its list.
\<close>

locale intrusive_list =
  fixes repr :: "'h \<Rightarrow> 'l \<Rightarrow> nat list \<Rightarrow> bool"
    and data :: "'h \<Rightarrow> nat \<Rightarrow> 'd"
    and first_of :: "'l \<Rightarrow> nat option"
    and last_of :: "'l \<Rightarrow> nat option"
    and append :: "'h \<Rightarrow> 'l \<Rightarrow> nat \<Rightarrow> 'h \<times> 'l"
    and prepend :: "'h \<Rightarrow> 'l \<Rightarrow> nat \<Rightarrow> 'h \<times> 'l"
    and unlink :: "'h \<Rightarrow> 'l \<Rightarrow> nat \<Rightarrow> ('h \<times> 'l) outcome"
  assumes repr_distinct: "repr h l xs \<Longrightarrow> distinct xs"
    and first_of: "repr h l xs \<Longrightarrow> first_of l = first xs None"
    and last_of: "repr h l xs \<Longrightarrow> last_of l = final xs None"
    and repr_append: "repr h l xs \<Longrightarrow> x \<notin> set xs \<Longrightarrow> append h l x = (h', l') \<Longrightarrow> repr h' l' (xs @ [x])"
    and repr_prepend: "repr h l xs \<Longrightarrow> x \<notin> set xs \<Longrightarrow> prepend h l x = (h', l') \<Longrightarrow> repr h' l' (x # xs)"
    and repr_unlink: "repr h l xs \<Longrightarrow> x \<in> set xs \<Longrightarrow>
      \<exists>h' l'. unlink h l x = Ret (h', l') \<and> repr h' l' (remove1 x xs)"
    and append_other: "repr h l xs \<Longrightarrow> append h l x = (h', l') \<Longrightarrow> repr h m ys \<Longrightarrow>
      set ys \<inter> insert x (set xs) = {} \<Longrightarrow> repr h' m ys"
    and prepend_other: "repr h l xs \<Longrightarrow> prepend h l x = (h', l') \<Longrightarrow> repr h m ys \<Longrightarrow>
      set ys \<inter> insert x (set xs) = {} \<Longrightarrow> repr h' m ys"
    and unlink_other: "repr h l xs \<Longrightarrow> x \<in> set xs \<Longrightarrow> unlink h l x = Ret (h', l') \<Longrightarrow> repr h m ys \<Longrightarrow>
      set ys \<inter> set xs = {} \<Longrightarrow> repr h' m ys"
    and append_data: "append h l x = (h', l') \<Longrightarrow> data h' y = data h y"
    and prepend_data: "prepend h l x = (h', l') \<Longrightarrow> data h' y = data h y"
    and unlink_data: "repr h l xs \<Longrightarrow> x \<in> set xs \<Longrightarrow> unlink h l x = Ret (h', l') \<Longrightarrow> data h' y = data h y"
begin

text \<open>Taking an element out of a list beside another one.\<close>

lemma unlink_beside:
  assumes "repr h l xs" "repr h m ys" "set xs \<inter> set ys = {}" "x \<in> set xs"
  obtains h' l' where "unlink h l x = Ret (h', l')" "repr h' l' (remove1 x xs)" "repr h' m ys"
    "x \<notin> set (remove1 x xs)" "\<And>y. data h' y = data h y"
  using repr_unlink [OF assms(1,4)] unlink_other [OF assms(1,4) _ assms(2)] assms
    unlink_data [OF assms(1,4)] repr_distinct [OF assms(1)]
  by (metis inf_commute set_remove1_eq Diff_iff singletonI)

text \<open>Adding a new element to a list beside another one.\<close>

lemma append_beside:
  assumes "repr h l xs" "repr h m ys" "set xs \<inter> set ys = {}" "x \<notin> set xs" "x \<notin> set ys"
  obtains h' l' where "append h l x = (h', l')" "repr h' l' (xs @ [x])" "repr h' m ys"
    "\<And>y. data h' y = data h y"
  using repr_append [OF assms(1,4)] append_other [OF assms(1) _ assms(2)] append_data assms
  by (metis disjoint_insert(2) inf_commute surj_pair)

lemma prepend_beside:
  assumes "repr h l xs" "repr h m ys" "set xs \<inter> set ys = {}" "x \<notin> set xs" "x \<notin> set ys"
  obtains h' l' where "prepend h l x = (h', l')" "repr h' l' (x # xs)" "repr h' m ys"
    "\<And>y. data h' y = data h y"
  using repr_prepend [OF assms(1,4)] prepend_other [OF assms(1) _ assms(2)] prepend_data assms
  by (metis disjoint_insert(2) inf_commute surj_pair)

end

interpretation ql: intrusive_list dll "\<lambda>h x. link.more (h x)" head tail
  perf_list_append perf_list_prepend perf_list_unlink
proof unfold_locales
  fix h h' :: "nat \<Rightarrow> 'z link_scheme" and l l' m :: plist and xs ys x y
  show "dll h l xs \<Longrightarrow> distinct xs" by (simp add: dll_def)
  show "dll h l xs \<Longrightarrow> head l = first xs None" by (rule dll_head)
  show "dll h l xs \<Longrightarrow> tail l = final xs None" by (rule dll_tail)
  show "dll h l xs \<Longrightarrow> x \<notin> set xs \<Longrightarrow> perf_list_append h l x = (h', l') \<Longrightarrow> dll h' l' (xs @ [x])"
    by (rule append_dll)
  show "dll h l xs \<Longrightarrow> x \<notin> set xs \<Longrightarrow> perf_list_prepend h l x = (h', l') \<Longrightarrow> dll h' l' (x # xs)"
    by (rule prepend_dll)
  show "dll h l xs \<Longrightarrow> x \<in> set xs \<Longrightarrow>
      \<exists>h' l'. perf_list_unlink h l x = Ret (h', l') \<and> dll h' l' (remove1 x xs)"
    using unlink_member [of h l xs x] by blast
  show "dll h l xs \<Longrightarrow> perf_list_append h l x = (h', l') \<Longrightarrow> dll h m ys \<Longrightarrow>
      set ys \<inter> insert x (set xs) = {} \<Longrightarrow> dll h' m ys"
    by (rule dll_other [of h]) (auto simp: disjoint_iff intro: append_frame)
  show "dll h l xs \<Longrightarrow> perf_list_prepend h l x = (h', l') \<Longrightarrow> dll h m ys \<Longrightarrow>
      set ys \<inter> insert x (set xs) = {} \<Longrightarrow> dll h' m ys"
    by (rule dll_other [of h]) (auto simp: disjoint_iff intro: prepend_frame)
  show "dll h l xs \<Longrightarrow> x \<in> set xs \<Longrightarrow> perf_list_unlink h l x = Ret (h', l') \<Longrightarrow> dll h m ys \<Longrightarrow>
      set ys \<inter> set xs = {} \<Longrightarrow> dll h' m ys"
    by (rule dll_other [of h]) (auto simp: disjoint_iff intro: unlink_frame)
  show "perf_list_append h l x = (h', l') \<Longrightarrow> link.more (h' y) = link.more (h y)"
    by (rule append_more)
  show "perf_list_prepend h l x = (h', l') \<Longrightarrow> link.more (h' y) = link.more (h y)"
    by (rule prepend_more)
  show "dll h l xs \<Longrightarrow> x \<in> set xs \<Longrightarrow> perf_list_unlink h l x = Ret (h', l') \<Longrightarrow>
      link.more (h' y) = link.more (h y)"
    by (rule unlink_more)
qed

end
