(* ===== verification/Hg64.thy ===== *)
theory Hg64
  imports Prelude
begin

text \<open>
  The histogram of \<^verbatim>\<open>ext/hg64.c\<close>: 64-bit values counted in buckets whose width grows
  with the value.  Keys and shift distances (\<^verbatim>\<open>unsigned\<close>) are natural numbers, which
  \<open>KEYS_bound\<close> keeps below \<open>2 ^ 21\<close>; values and counters are 64-bit words and
  wrap.  A bin is \<open>None\<close> until its first counter is needed.  The lemmas show that the
  buckets partition the values, that every operation keeps the shape of the table, and what
  the operations do to the counters.
\<close>

section \<open>Keys\<close>

definition BINS :: nat where
  "BINS = 64"

definition DENORMALS :: "nat \<Rightarrow> nat" where
  "DENORMALS s = s - 1"

definition EXPONENTS :: "nat \<Rightarrow> nat" where
  "EXPONENTS s = BINS - DENORMALS s"

definition MANTISSAS :: "nat \<Rightarrow> nat" where
  "MANTISSAS s = 2 ^ s"

definition KEYS :: "nat \<Rightarrow> nat" where
  "KEYS s = EXPONENTS s * MANTISSAS s"

definition BINSIZE :: "nat \<Rightarrow> nat" where
  "BINSIZE s = MANTISSAS s"

text \<open>The number of leading zeros of a word, \<^verbatim>\<open>__builtin_clzll\<close>.\<close>

definition clz :: "u64 \<Rightarrow> nat" where
  "clz w = length (takeWhile (\<lambda>i. \<not> bit w i) (rev [0..<64]))"

text \<open>The exponent of a denormal key is not used.\<close>

definition key_to_minval :: "nat \<Rightarrow> nat \<Rightarrow> u64" where
  "key_to_minval s key =
    (let binsize = BINSIZE s;
         exponent = key div binsize - 1;
         mantissa = key mod binsize + binsize
     in if key < binsize then of_nat key else push_bit exponent (of_nat mantissa))"

definition key_to_maxval :: "nat \<Rightarrow> nat \<Rightarrow> u64" where
  "key_to_maxval s key =
    (let binsize = BINSIZE s;
         shift = 63 - key div binsize;
         range = drop_bit shift (- 1 div 4)
     in key_to_minval s key + range)"

definition value_to_key :: "nat \<Rightarrow> u64 \<Rightarrow> nat" where
  "value_to_key s v =
    (let binned = v OR of_nat (BINSIZE s);
         exponent = 63 - s - clz binned;
         mantissa = drop_bit exponent v
     in exponent * 2 ^ s + unat mantissa)"

section \<open>The table\<close>

record hg64 =
  sigbits :: nat
  bin :: "u64 list option list"

definition hg64_create :: "nat \<Rightarrow> hg64 option" where
  "hg64_create s =
    (if s < 1 \<or> 15 < s then None else Some \<lparr>sigbits = s, bin = replicate BINS None\<rparr>)"

text \<open>
  The bin is installed by an atomic compare and exchange: the new counters are dropped when
  another thread has installed its own.
\<close>

definition key_to_new_counter :: "hg64 \<Rightarrow> nat \<Rightarrow> hg64" where
  "key_to_new_counter hg key =
    (let binsize = BINSIZE (sigbits hg);
         b = key div binsize
     in case bin hg ! b of
          None \<Rightarrow> hg\<lparr>bin := (bin hg)[b := Some (replicate binsize 0)]\<rparr>
        | Some bp \<Rightarrow> hg)"

definition key_to_counter :: "hg64 \<Rightarrow> nat \<Rightarrow> u64 option" where
  "key_to_counter hg key =
    (let binsize = BINSIZE (sigbits hg);
         b = key div binsize;
         c = key mod binsize
     in case bin hg ! b of None \<Rightarrow> None | Some bp \<Rightarrow> Some (bp ! c))"

definition get_key_count :: "hg64 \<Rightarrow> nat \<Rightarrow> u64" where
  "get_key_count hg key = (case key_to_counter hg key of None \<Rightarrow> 0 | Some ctr \<Rightarrow> ctr)"

text \<open>The atomic addition to the counter of a key whose bin exists.\<close>

definition fetch_add :: "hg64 \<Rightarrow> nat \<Rightarrow> u64 \<Rightarrow> hg64" where
  "fetch_add hg key inc =
    (let binsize = BINSIZE (sigbits hg);
         b = key div binsize;
         c = key mod binsize
     in case bin hg ! b of
          None \<Rightarrow> hg
        | Some bp \<Rightarrow> hg\<lparr>bin := (bin hg)[b := Some (bp[c := bp ! c + inc])]\<rparr>)"

definition add_key_count :: "hg64 \<Rightarrow> nat \<Rightarrow> u64 \<Rightarrow> hg64" where
  "add_key_count hg key inc =
    (if inc = 0 then hg
     else fetch_add (if key_to_counter hg key = None then key_to_new_counter hg key else hg)
       key inc)"

definition hg64_inc :: "hg64 \<Rightarrow> u64 \<Rightarrow> hg64" where
  "hg64_inc hg v = add_key_count hg (value_to_key (sigbits hg) v) 1"

definition hg64_get :: "hg64 \<Rightarrow> nat \<Rightarrow> (u64 \<times> u64 \<times> u64) option" where
  "hg64_get hg key =
    (if key < KEYS (sigbits hg)
     then Some (key_to_minval (sigbits hg) key, key_to_maxval (sigbits hg) key,
       get_key_count hg key)
     else None)"

lemma BINSIZE_pos [simp]: "0 < BINSIZE s"
  by (simp add: BINSIZE_def MANTISSAS_def)

function next_loop :: "hg64 \<Rightarrow> nat \<Rightarrow> nat" where
  "next_loop hg key =
    (if key < KEYS (sigbits hg) \<and> key AND (BINSIZE (sigbits hg) - 1) = 0 \<and>
        key_to_counter hg key = None
     then next_loop hg (key + BINSIZE (sigbits hg))
     else key)"
  by pat_completeness auto
termination
  by (relation "measure (\<lambda>(hg, key). KEYS (sigbits hg) - key)")
    (auto intro: diff_less_mono2)

declare next_loop.simps [simp del]

definition hg64_next :: "hg64 \<Rightarrow> nat \<Rightarrow> nat" where
  "hg64_next hg key = next_loop hg (key + 1)"

lemma next_loop_ge: "key \<le> next_loop hg key"
proof (induction hg key rule: next_loop.induct)
  case (1 hg key)
  show ?case
    using 1 by (subst next_loop.simps) (auto intro: le_trans [OF le_add1])
qed

lemma next_greater: "key < hg64_next hg key"
  using next_loop_ge [of "key + 1" hg] by (simp add: hg64_next_def)

text \<open>
  The keys visited by the loop
  \<^verbatim>\<open>for (key = 0; hg64_get(hg, key, ...); key = hg64_next(hg, key))\<close>.
\<close>

function visited :: "hg64 \<Rightarrow> nat \<Rightarrow> nat list" where
  "visited hg key =
    (if hg64_get hg key = None then [] else key # visited hg (hg64_next hg key))"
  by pat_completeness auto
termination
proof (relation "measure (\<lambda>(hg, key). KEYS (sigbits hg) - key)")
  fix hg :: hg64 and key
  assume "hg64_get hg key \<noteq> None"
  then have "key < KEYS (sigbits hg)" by (simp add: hg64_get_def split: if_splits)
  moreover have "key < hg64_next hg key" by (rule next_greater)
  ultimately show "((hg, hg64_next hg key), hg, key) \<in> measure (\<lambda>(hg, key). KEYS (sigbits hg) - key)"
    by simp
qed simp

declare visited.simps [simp del]

text \<open>
  A merge spreads the count of a source bucket over the target buckets its range meets.
\<close>

definition merge_key :: "hg64 \<Rightarrow> nat \<Rightarrow> hg64 \<Rightarrow> hg64" where
  "merge_key source skey target =
    (let count = get_key_count source skey;
         svmin = key_to_minval (sigbits source) skey;
         svmax = key_to_maxval (sigbits source) skey;
         tkmin = value_to_key (sigbits target) svmin;
         tkmax = value_to_key (sigbits target) svmax;
         keys = tkmax - tkmin + 1;
         dv = count div of_nat keys;
         rem = count mod of_nat keys
     in fold (\<lambda>tkey t. add_key_count t tkey (dv + (if of_nat tkey < rem then 1 else 0)))
          [tkmin..<tkmax + 1] target)"

definition hg64_merge :: "hg64 \<Rightarrow> hg64 \<Rightarrow> hg64" where
  "hg64_merge target source = fold (merge_key source) (visited source 0) target"

definition hg64_diff :: "hg64 \<Rightarrow> hg64 \<Rightarrow> hg64 \<Rightarrow> hg64 outcome" where
  "hg64_diff a b d =
    (if \<not> (sigbits a = sigbits b \<and> sigbits b = sigbits d) then Abort
     else Ret (fold (\<lambda>key d. add_key_count d key (get_key_count a key - get_key_count b key))
       [0..<KEYS (sigbits a)] d))"

definition hg64_min_key :: "hg64 \<Rightarrow> nat" where
  "hg64_min_key hg =
    (case find (\<lambda>key. get_key_count hg key > 0) (visited hg 0) of None \<Rightarrow> 0 | Some key \<Rightarrow> key)"

definition hg64_max_key :: "hg64 \<Rightarrow> nat" where
  "hg64_max_key hg =
    fold (\<lambda>key last_key. if get_key_count hg key > 0 then key else last_key) (visited hg 0) 0"

section \<open>Buckets partition the values\<close>

lemma takeWhile_rev_upt:
  fixes P :: "nat \<Rightarrow> bool"
  assumes "t < n" "P t" "\<And>j. t < j \<Longrightarrow> j < n \<Longrightarrow> \<not> P j"
  shows "length (takeWhile (\<lambda>i. \<not> P i) (rev [0..<n])) = n - 1 - t"
  using assms
proof (induction n)
  case (Suc n)
  then show ?case by (cases "t = n") auto
qed simp

text \<open>The position of the leading one of a word.\<close>

definition topbit :: "u64 \<Rightarrow> nat \<Rightarrow> bool" where
  "topbit w t \<longleftrightarrow> t < 64 \<and> 2 ^ t \<le> unat w \<and> unat w < 2 ^ (t + 1)"

lemma bit_unat: "bit w j \<longleftrightarrow> odd (unat w div 2 ^ j)" for w :: u64
proof -
  have "bit (unat w) j \<longleftrightarrow> bit w j" by (simp add: bit_unsigned_iff)
  then show ?thesis by (simp add: bit_nat_def)
qed

lemma topbit_bit: "topbit w t \<Longrightarrow> bit w t"
proof -
  assume "topbit w t"
  then have "unat w div 2 ^ t = 1" by (intro div_nat_eqI) (auto simp: topbit_def)
  then show "bit w t" by (simp add: bit_unat)
qed

lemma topbit_above: "topbit w t \<Longrightarrow> t < j \<Longrightarrow> \<not> bit w j"
proof -
  assume "topbit w t" "t < j"
  moreover have "(2::nat) ^ (t + 1) \<le> 2 ^ j" using \<open>t < j\<close> by (intro power_increasing) auto
  ultimately have "unat w div 2 ^ j = 0" by (simp add: topbit_def)
  then show ?thesis by (simp add: bit_unat)
qed

lemma topbit_exists: "w \<noteq> 0 \<Longrightarrow> \<exists>t. topbit w t"
proof -
  assume "w \<noteq> 0"
  then have "1 \<le> unat w" by (simp add: Suc_leI unat_gt_0)
  then obtain t where t: "2 ^ t \<le> unat w" "unat w < 2 ^ (t + 1)"
    using ex_power_ivl1 [of 2 "unat w"] by auto
  have "unat w < 2 ^ 64" using unsigned_less [of w, where ?'a = nat] by simp
  then have "(2::nat) ^ t < 2 ^ 64" using t(1) by linarith
  then have "t < 64" by (rule power_less_imp_less_exp [rotated]) simp
  then show ?thesis using t by (auto simp: topbit_def)
qed

lemma clz_topbit: "topbit w t \<Longrightarrow> clz w = 63 - t"
proof -
  assume t: "topbit w t"
  then have "t < 64" by (simp add: topbit_def)
  with t show ?thesis
    unfolding clz_def by (subst takeWhile_rev_upt [of t]) (auto simp: topbit_bit topbit_above)
qed

lemma unat_of_nat64: "n < 2 ^ 64 \<Longrightarrow> unat (of_nat n :: u64) = n"
  by (simp add: unsigned_of_nat take_bit_nat_eq_self)

lemma or_bound: "unat v < 2 ^ k \<Longrightarrow> unat w < 2 ^ k \<Longrightarrow> unat (v OR w) < 2 ^ k" for v w :: u64
proof -
  assume "unat v < 2 ^ k" "unat w < 2 ^ k"
  then have "uint v < 2 ^ k" "uint w < 2 ^ k"
    by (simp_all only: uint_nat of_nat_less_numeral_power_cancel_iff)
  then have "uint (v OR w) < 2 ^ k" unfolding uint_or by (intro OR_upper) simp_all
  then show ?thesis
    by (simp only: uint_nat of_nat_less_numeral_power_cancel_iff)
qed

lemma topbit_or:
  assumes "s < 64"
  shows topbit_or_small: "unat v < 2 ^ s \<Longrightarrow> topbit (v OR of_nat (2 ^ s)) s"
    and topbit_or_large: "2 ^ s \<le> unat v \<Longrightarrow> topbit v t \<Longrightarrow> topbit (v OR of_nat (2 ^ s)) t"
proof -
  let ?b = "of_nat (2 ^ s) :: u64"
  have b: "unat ?b = 2 ^ s"
    using assms by (intro unat_of_nat64 power_strict_increasing) simp_all
  show "topbit (v OR ?b) s" if v: "unat v < 2 ^ s"
  proof -
    have "unat (v OR ?b) < 2 ^ (s + 1)" using v by (intro or_bound, unfold b) simp_all
    moreover have "2 ^ s \<le> unat (v OR ?b)"
      using le_word_or1 [of ?b v] by (simp only: word_le_nat_alt b)
    ultimately show ?thesis using assms by (simp add: topbit_def)
  qed
  show "topbit (v OR ?b) t" if v: "2 ^ s \<le> unat v" and t: "topbit v t"
  proof -
    have "(2::nat) ^ s < 2 ^ (t + 1)" using v t by (simp add: topbit_def)
    then have "unat (v OR ?b) < 2 ^ (t + 1)" using t by (intro or_bound) (simp_all only: b topbit_def)
    moreover have "unat v \<le> unat (v OR ?b)"
      using le_word_or2 [of v ?b] by (simp only: word_le_nat_alt)
    ultimately show ?thesis using t by (simp add: topbit_def)
  qed
qed

lemma value_to_key_small:
  assumes "s < 64" "unat v < 2 ^ s"
  shows "value_to_key s v = unat v"
  using clz_topbit [OF topbit_or_small [OF assms]] assms
  by (simp add: value_to_key_def BINSIZE_def MANTISSAS_def Let_def)

lemma value_to_key_large:
  assumes "s < 64" "2 ^ s \<le> unat v" "topbit v t"
  shows "s \<le> t"
    and "value_to_key s v = (t - s) * 2 ^ s + unat v div 2 ^ (t - s)"
proof -
  have "(2::nat) ^ s < 2 ^ (t + 1)" using assms by (simp add: topbit_def)
  then have "s < t + 1" by (rule power_less_imp_less_exp [rotated]) simp
  then show "s \<le> t" by simp
  moreover have "t < 64" using assms by (simp add: topbit_def)
  ultimately have "63 - s - (63 - t) = t - s" by simp
  then show "value_to_key s v = (t - s) * 2 ^ s + unat v div 2 ^ (t - s)"
    using clz_topbit [OF topbit_or_large [OF assms]]
    by (simp add: value_to_key_def BINSIZE_def MANTISSAS_def Let_def unat_drop_bit_eq
        flip: drop_bit_eq_div)
qed

lemmas key_defs = KEYS_def EXPONENTS_def DENORMALS_def BINS_def BINSIZE_def MANTISSAS_def

lemma BINSIZE_pow: "BINSIZE s = 2 ^ s"
  by (simp add: key_defs)

text \<open>The exponent of a bucket and the sum of its exponent and precision.\<close>

lemma key_exponent:
  assumes "1 \<le> s" "s \<le> 15" "key < KEYS s"
  shows "key div 2 ^ s + s \<le> 64"
proof -
  have "key div 2 ^ s < 64 - (s - 1)"
    using assms(3) by (simp add: key_defs less_mult_imp_div_less)
  then show ?thesis using assms(1,2) by simp
qed

lemma unat_minval_small: "s < 64 \<Longrightarrow> key < 2 ^ s \<Longrightarrow> unat (key_to_minval s key) = key"
proof -
  assume "s < 64" "key < 2 ^ s"
  moreover have "(2::nat) ^ s \<le> 2 ^ 64" using \<open>s < 64\<close> by (intro power_increasing) auto
  ultimately show ?thesis by (simp add: key_to_minval_def BINSIZE_pow unat_of_nat64)
qed

lemma minval_fits:
  assumes "1 \<le> s" "s \<le> 15" "key < KEYS s" "2 ^ s \<le> key"
  shows "(key mod 2 ^ s + 2 ^ s + 1) * 2 ^ (key div 2 ^ s - 1) \<le> (2::nat) ^ 64"
proof -
  have "key mod 2 ^ s + 2 ^ s + 1 \<le> (2::nat) ^ (s + 1)" 
    using mod_less_divisor [of "2 ^ s" key] by (simp add: Suc_le_eq)
  then have "(key mod 2 ^ s + 2 ^ s + 1) * 2 ^ (key div 2 ^ s - 1)
      \<le> (2::nat) ^ (s + 1) * 2 ^ (key div 2 ^ s - 1)"
    by (rule mult_right_mono) simp
  also have "\<dots> = 2 ^ (s + 1 + (key div 2 ^ s - 1))" by (simp add: power_add)
  also have "\<dots> \<le> 2 ^ 64"
  proof (rule power_increasing)
    have "0 < key div 2 ^ s" using assms(4) by (simp add: div_greater_zero_iff)
    then show "s + 1 + (key div 2 ^ s - 1) \<le> 64" using key_exponent [OF assms(1-3)] by simp
  qed simp
  finally show ?thesis .
qed

lemma unat_minval_large:
  assumes "1 \<le> s" "s \<le> 15" "key < KEYS s" "2 ^ s \<le> key"
  shows "unat (key_to_minval s key) = (key mod 2 ^ s + 2 ^ s) * 2 ^ (key div 2 ^ s - 1)"
proof -
  let ?m = "key mod 2 ^ s + 2 ^ s" and ?e = "key div 2 ^ s - 1"
  have fit: "(?m + 1) * 2 ^ ?e \<le> (2::nat) ^ 64" using minval_fits [OF assms] by simp
  have "?m * 2 ^ ?e < (?m + 1) * 2 ^ ?e" by simp
  then have "?m * 2 ^ ?e < 2 ^ 64" using fit by (rule less_le_trans)
  moreover have "key_to_minval s key = of_nat (?m * 2 ^ ?e)"
    using assms(4) by (simp add: key_to_minval_def BINSIZE_pow push_bit_eq_mult Let_def)
  ultimately show ?thesis by (simp only: unat_of_nat64)
qed

lemma unat_range: "unat (drop_bit shift (- 1 div 4) :: u64) = 2 ^ (62 - shift) - 1"
proof -
  have "unat (- 1 div 4 :: u64) = mask 62"
    by (simp add: unat_div_distrib mask_eq_exp_minus_1)
  then show ?thesis
    by (simp only: unat_drop_bit_eq drop_bit_mask_eq) (simp add: mask_eq_exp_minus_1)
qed

lemma unat_add_range:
  "unat v + r < 2 ^ 64 \<Longrightarrow> unat w = r \<Longrightarrow> unat (v + w) = unat v + r" for v w :: u64
  by (subst unat_add_lem [THEN iffD1]) simp_all

lemma unat_maxval_small:
  assumes "s < 64" "key < 2 ^ s"
  shows "unat (key_to_maxval s key) = key"
  using assms unat_minval_small [OF assms] unat_range [of 63]
  by (simp add: key_to_maxval_def BINSIZE_pow)

lemma unat_maxval_large:
  assumes "1 \<le> s" "s \<le> 15" "key < KEYS s" "2 ^ s \<le> key"
  shows "unat (key_to_maxval s key) + 1 = (key mod 2 ^ s + 2 ^ s + 1) * 2 ^ (key div 2 ^ s - 1)"
proof -
  let ?m = "key mod 2 ^ s + 2 ^ s" and ?e = "key div 2 ^ s - 1"
  have "0 < key div 2 ^ s" using assms(4) by (simp add: div_greater_zero_iff)
  then have shift: "62 - (63 - key div 2 ^ s) = ?e"
    using key_exponent [OF assms(1-3)] assms(1) by simp
  have fit: "(?m + 1) * 2 ^ ?e \<le> (2::nat) ^ 64" using minval_fits [OF assms] by simp
  have split: "(?m + 1) * 2 ^ ?e = ?m * 2 ^ ?e + (2 ^ ?e - 1) + 1"
    by (simp add: algebra_simps)
  have "unat (key_to_maxval s key) = ?m * 2 ^ ?e + (2 ^ ?e - 1)"
    unfolding key_to_maxval_def Let_def BINSIZE_pow
    using fit split unat_minval_large [OF assms] unat_range [of "63 - key div 2 ^ s"]
    by (subst unat_add_range [where r = "2 ^ ?e - 1"]) (simp_all only: shift)
  then show ?thesis by (simp only: split)
qed

definition in_bucket :: "nat \<Rightarrow> nat \<Rightarrow> u64 \<Rightarrow> bool" where
  "in_bucket s key v \<longleftrightarrow> key_to_minval s key \<le> v \<and> v \<le> key_to_maxval s key"

lemma in_bucket_small:
  "s < 64 \<Longrightarrow> key < 2 ^ s \<Longrightarrow> in_bucket s key v \<longleftrightarrow> unat v = key"
  by (auto simp: in_bucket_def word_le_nat_alt unat_minval_small unat_maxval_small)

lemma in_bucket_large:
  assumes "1 \<le> s" "s \<le> 15" "key < KEYS s" "2 ^ s \<le> key"
  shows "in_bucket s key v \<longleftrightarrow> unat v div 2 ^ (key div 2 ^ s - 1) = key mod 2 ^ s + 2 ^ s"
proof -
  let ?m = "key mod 2 ^ s + 2 ^ s" and ?d = "(2::nat) ^ (key div 2 ^ s - 1)"
  have "in_bucket s key v \<longleftrightarrow> ?m * ?d \<le> unat v \<and> unat v < unat (key_to_maxval s key) + 1"
    by (simp add: in_bucket_def word_le_nat_alt unat_minval_large [OF assms] less_Suc_eq_le)
  also have "\<dots> \<longleftrightarrow> ?m * ?d \<le> unat v \<and> unat v < (?m + 1) * ?d"
    by (simp only: unat_maxval_large [OF assms])
  also have "\<dots> \<longleftrightarrow> ?m \<le> unat v div ?d \<and> unat v div ?d < ?m + 1"
    by (simp only: less_eq_div_iff_mult_less_eq [of ?d] div_less_iff_less_mult [of ?d] zero_less_power zero_less_numeral)
  finally show ?thesis by auto
qed

lemma value_to_key_unique:
  assumes s: "1 \<le> s" "s \<le> 15" and key: "key < KEYS s" and v: "in_bucket s key v"
  shows "value_to_key s v = key"
proof (cases "key < 2 ^ s")
  case True
  then show ?thesis using s v by (simp add: in_bucket_small value_to_key_small)
next
  case False
  define e where "e = key div 2 ^ s - 1"
  define m where "m = key mod 2 ^ s + 2 ^ s"
  have m: "unat v div 2 ^ e = m"
    using v False s key by (simp add: in_bucket_large e_def m_def)
  have "0 < key div 2 ^ s" using False by (simp add: div_greater_zero_iff)
  then have e1: "key div 2 ^ s = e + 1" by (simp add: e_def)
  have "2 ^ s * 2 ^ e \<le> unat v" 
    using m by (simp add: m_def less_eq_div_iff_mult_less_eq [symmetric])
  moreover have "m < 2 ^ (s + 1)" by (simp add: m_def)
  then have "unat v < 2 ^ (s + 1) * 2 ^ e"
    using m by (simp only: div_less_iff_less_mult [symmetric] zero_less_power zero_less_numeral)
  moreover have "s + e < 64" using key_exponent [OF s key] e1 by simp
  ultimately have t: "topbit v (s + e)" by (simp add: topbit_def power_add ac_simps)
  have "2 ^ s \<le> (2::nat) ^ s * 2 ^ e" by simp
  then have "2 ^ s \<le> unat v" using \<open>2 ^ s * 2 ^ e \<le> unat v\<close> by (rule le_trans)
  with t s have "value_to_key s v = e * 2 ^ s + m"
    by (simp add: value_to_key_large(2) m)
  also have "\<dots> = key div 2 ^ s * 2 ^ s + key mod 2 ^ s" by (simp add: e1 m_def)
  finally show ?thesis by (simp only: div_mult_mod_eq)
qed

lemma value_to_key_bucket:
  assumes s: "1 \<le> s" "s \<le> 15"
  shows "value_to_key s v < KEYS s" "in_bucket s (value_to_key s v) v"
proof -
  have "value_to_key s v < KEYS s \<and> in_bucket s (value_to_key s v) v"
  proof (cases "unat v < 2 ^ s")
    case True
    moreover have "2 ^ s \<le> KEYS s" using s by (simp add: key_defs)
    ultimately show ?thesis using s by (simp add: value_to_key_small in_bucket_small)
  next
    case False
    then have "v \<noteq> 0" by (auto simp: not_less)
    then obtain t where t: "topbit v t" by (auto dest: topbit_exists)
    define e m where "e = t - s" and "m = unat v div 2 ^ e"
    have st: "s \<le> t" using value_to_key_large(1) [of s v t] False t s by simp
    have key: "value_to_key s v = e * 2 ^ s + m"
      using value_to_key_large(2) [of s v t] False t s by (simp add: e_def m_def)
    have pow: "(2::nat) ^ s * 2 ^ e = 2 ^ t" using st by (simp add: e_def flip: power_add)
    have "2 ^ s * 2 ^ e \<le> unat v" "unat v < 2 * (2 ^ s * 2 ^ e)"
      unfolding pow using t by (simp_all add: topbit_def)
    then have m: "2 ^ s \<le> m" "m < 2 * 2 ^ s"
      by (simp_all add: m_def less_eq_div_iff_mult_less_eq div_less_iff_less_mult ac_simps)
    obtain r where r: "m = 2 ^ s + r" "r < 2 ^ s" using m le_Suc_ex [OF m(1)] by auto
    then have split: "e * 2 ^ s + m = r + (e + 1) * 2 ^ s" by simp
    have qr: "(e * 2 ^ s + m) div 2 ^ s = e + 1" "(e * 2 ^ s + m) mod 2 ^ s + 2 ^ s = m"
      unfolding split using r by (simp_all only: div_mult_self1 mod_mult_self1) simp_all
    have "t < 64" using t by (simp add: topbit_def)
    then have "e + 1 < 64 - (s - 1)" using st s unfolding e_def by linarith
    then have "(e + 2) * 2 ^ s \<le> KEYS s" by (simp add: key_defs)
    moreover have "e * 2 ^ s + m < (e + 2) * 2 ^ s" using m(2) by (simp add: algebra_simps)
    ultimately have lt: "e * 2 ^ s + m < KEYS s" by (rule less_le_trans [rotated])
    moreover have "2 ^ s \<le> e * 2 ^ s + m" using m(1) by simp
    ultimately have "in_bucket s (e * 2 ^ s + m) v"
      by (simp only: in_bucket_large [OF s] qr add_diff_cancel_right') (simp only: m_def)
    then show ?thesis using lt by (simp add: key)
  qed
  then show "value_to_key s v < KEYS s" "in_bucket s (value_to_key s v) v" by auto
qed

lemma minval_Suc:
  assumes s: "1 \<le> s" "s \<le> 15" and key: "key + 1 < KEYS s"
  shows "unat (key_to_minval s (key + 1)) = unat (key_to_maxval s key) + 1"
proof (cases "key + 1 < 2 ^ s")
  case True
  then show ?thesis using s by (simp add: unat_minval_small unat_maxval_small)
next
  case False
  note min = unat_minval_large [OF s key]
  show ?thesis
  proof (cases "key < 2 ^ s")
    case True
    with False have "key + 1 = 2 ^ s" by simp
    then show ?thesis using s True min by (simp add: unat_maxval_small)
  next
    case large: False
    then have max: "unat (key_to_maxval s key) + 1
        = (key mod 2 ^ s + 2 ^ s + 1) * 2 ^ (key div 2 ^ s - 1)"
      using unat_maxval_large [OF s] key by simp
    have pos: "0 < key div 2 ^ s" using large by (simp add: div_greater_zero_iff)
    show ?thesis
    proof (cases "key mod 2 ^ s + 1 = 2 ^ s")
      case True
      then have "(key + 1) mod 2 ^ s = 0" "(key + 1) div 2 ^ s = key div 2 ^ s + 1"
        by (simp_all add: mod_Suc div_Suc)
      moreover obtain q where "key div 2 ^ s = Suc q" using pos gr0_implies_Suc by blast
      moreover have carry: "key mod 2 ^ s + 2 ^ s + 1 = 2 ^ s * 2" using True by simp
      ultimately show ?thesis using min max False unfolding carry by simp
    next
      case no_carry: False
      then have "(key + 1) mod 2 ^ s = key mod 2 ^ s + 1" "(key + 1) div 2 ^ s = key div 2 ^ s"
        by (simp_all add: mod_Suc div_Suc)
      then show ?thesis using min max False by simp
    qed
  qed
qed

lemma minval_le_maxval:
  assumes "1 \<le> s" "s \<le> 15" "key < KEYS s"
  shows "unat (key_to_minval s key) \<le> unat (key_to_maxval s key)"
proof (cases "key < 2 ^ s")
  case True
  then show ?thesis using assms by (simp add: unat_minval_small unat_maxval_small)
next
  case False
  then have "unat (key_to_maxval s key) + 1 = unat (key_to_minval s key) + 2 ^ (key div 2 ^ s - 1)"
    using unat_minval_large [OF assms] unat_maxval_large [OF assms] by simp
  moreover have "(1::nat) \<le> 2 ^ (key div 2 ^ s - 1)" by simp
  ultimately show ?thesis by linarith
qed

lemma bucket_order:
  assumes s: "1 \<le> s" "s \<le> 15" and "k < k'" "k' < KEYS s"
  shows "unat (key_to_maxval s k) < unat (key_to_minval s k')"
  using assms(3,4)
proof (induction k' rule: nat_less_induct)
  case (1 k')
  then obtain j where j: "k' = j + 1" by (metis Suc_eq_plus1 less_imp_Suc_add)
  have next_min: "unat (key_to_minval s k') = unat (key_to_maxval s j) + 1"
    using minval_Suc [OF s] 1 j by simp
  show ?case
  proof (cases "k = j")
    case False
    then have "unat (key_to_maxval s k) < unat (key_to_minval s j)" using 1 j by simp
    also have "\<dots> \<le> unat (key_to_maxval s j)" using minval_le_maxval [OF s] 1 j by simp
    finally show ?thesis using next_min by simp
  qed (simp add: next_min)
qed

lemma value_to_key_mono:
  assumes s: "1 \<le> s" "s \<le> 15" and "v \<le> w"
  shows "value_to_key s v \<le> value_to_key s w"
proof (rule ccontr)
  assume "\<not> ?thesis"
  then have "unat (key_to_maxval s (value_to_key s w)) < unat (key_to_minval s (value_to_key s v))"
    using bucket_order [OF s] value_to_key_bucket [OF s] by simp
  then show False
    using value_to_key_bucket(2) [OF s, of v] value_to_key_bucket(2) [OF s, of w] \<open>v \<le> w\<close>
    by (simp add: in_bucket_def word_le_nat_alt)
qed

lemma KEYS_bound: "1 \<le> s \<Longrightarrow> s \<le> 15 \<Longrightarrow> KEYS s \<le> 2 ^ 21"
proof -
  assume "1 \<le> s" "s \<le> 15"
  then have "(64 - (s - 1)) * 2 ^ s \<le> 64 * (2::nat) ^ 15"
    by (intro mult_le_mono power_increasing) simp_all
  then show ?thesis by (simp add: key_defs)
qed

section \<open>Counters\<close>

text \<open>
  A table of counters: the clients below (counting values, merging, taking differences) add to
  one counter after another and rely only on these laws.
\<close>

locale counter_table =
  fixes wf :: "'t \<Rightarrow> bool"
    and prec :: "'t \<Rightarrow> nat"
    and nkeys :: "nat \<Rightarrow> nat"
    and count :: "'t \<Rightarrow> nat \<Rightarrow> u64"
    and add :: "'t \<Rightarrow> nat \<Rightarrow> u64 \<Rightarrow> 't"
  assumes wf_add: "wf t \<Longrightarrow> k < nkeys (prec t) \<Longrightarrow> wf (add t k n)"
    and prec_add: "wf t \<Longrightarrow> k < nkeys (prec t) \<Longrightarrow> prec (add t k n) = prec t"
    and count_add: "wf t \<Longrightarrow> k < nkeys (prec t) \<Longrightarrow> key < nkeys (prec t) \<Longrightarrow>
      count (add t k n) key = count t key + (if k = key then n else 0)"
begin

lemma fold_add:
  assumes "wf t" "\<forall>x \<in> set xs. k x < nkeys (prec t)"
  shows fold_add_wf: "wf (fold (\<lambda>x t. add t (k x) (n x)) xs t)"
    and fold_add_prec: "prec (fold (\<lambda>x t. add t (k x) (n x)) xs t) = prec t"
    and fold_add_count: "key < nkeys (prec t) \<Longrightarrow>
      count (fold (\<lambda>x t. add t (k x) (n x)) xs t) key
        = count t key + sum_list (map n (filter (\<lambda>x. k x = key) xs))"
  using assms by (induction xs arbitrary: t) (auto simp: wf_add prec_add count_add)

lemma fold_add_distinct:
  assumes "wf t" "distinct xs" "\<forall>x \<in> set xs. x < nkeys (prec t)" "key < nkeys (prec t)"
  shows "count (fold (\<lambda>x t. add t x (n x)) xs t) key
    = count t key + (if key \<in> set xs then n key else 0)"
proof -
  have "filter (\<lambda>x. x = key) xs = (if key \<in> set xs then [key] else [])"
    using assms(2) by (induction xs) (auto simp: filter_empty_conv)
  then show ?thesis using fold_add_count [of t xs "\<lambda>x. x" key n] assms by simp
qed

end

definition hg64_wf :: "hg64 \<Rightarrow> bool" where
  "hg64_wf hg \<longleftrightarrow> 1 \<le> sigbits hg \<and> sigbits hg \<le> 15 \<and> length (bin hg) = BINS \<and>
    (\<forall>bp. Some bp \<in> set (bin hg) \<longrightarrow> length bp = BINSIZE (sigbits hg))"

lemma hg64_wf_prec: "hg64_wf hg \<Longrightarrow> 1 \<le> sigbits hg" "hg64_wf hg \<Longrightarrow> sigbits hg \<le> 15"
  by (simp_all add: hg64_wf_def)

lemma create_wf: "hg64_create s = Some hg \<Longrightarrow> hg64_wf hg \<and> sigbits hg = s"
  by (auto simp: hg64_create_def hg64_wf_def BINS_def split: if_splits)

lemma create_Some: "1 \<le> s \<Longrightarrow> s \<le> 15 \<Longrightarrow> \<exists>hg. hg64_create s = Some hg"
  by (simp add: hg64_create_def)

lemma key_bin:
  assumes "1 \<le> s" "key < KEYS s"
  shows "key div BINSIZE s < BINS"
  using assms less_mult_imp_div_less [of key "EXPONENTS s" "BINSIZE s"]
  by (simp add: KEYS_def EXPONENTS_def DENORMALS_def BINSIZE_def BINS_def)

lemma create_count:
  "hg64_create s = Some hg \<Longrightarrow> key < KEYS s \<Longrightarrow> get_key_count hg key = 0"
  using key_bin [of s key]
  by (auto simp: hg64_create_def get_key_count_def key_to_counter_def Let_def split: if_splits)

lemma same_key_iff: "k = key \<longleftrightarrow> k div b = key div b \<and> k mod b = key mod b" for k key b :: nat
  by (metis div_mult_mod_eq)

lemma wf_bin:
  "hg64_wf hg \<Longrightarrow> b < BINS \<Longrightarrow> bin hg ! b = Some bp \<Longrightarrow> length bp = BINSIZE (sigbits hg)"
  by (metis hg64_wf_def nth_mem)

lemma wf_bin_update:
  assumes "hg64_wf hg" "length bp = BINSIZE (sigbits hg)"
  shows "hg64_wf (hg\<lparr>bin := (bin hg)[b := Some bp]\<rparr>)"
  using assms set_update_subset_insert [of "bin hg" b "Some bp"] by (auto simp: hg64_wf_def)

lemma new_counter_laws:
  assumes wf: "hg64_wf hg" and k: "k < KEYS (sigbits hg)"
  shows "hg64_wf (key_to_new_counter hg k)" "sigbits (key_to_new_counter hg k) = sigbits hg"
    and "bin (key_to_new_counter hg k) ! (k div BINSIZE (sigbits hg)) \<noteq> None"
    and "key < KEYS (sigbits hg) \<Longrightarrow>
      get_key_count (key_to_new_counter hg k) key = get_key_count hg key"
proof -
  let ?B = "BINSIZE (sigbits hg)"
  have b: "k div ?B < length (bin hg)" using wf k key_bin by (simp add: hg64_wf_def)
  show "hg64_wf (key_to_new_counter hg k)" "sigbits (key_to_new_counter hg k) = sigbits hg"
    "bin (key_to_new_counter hg k) ! (k div ?B) \<noteq> None"
    using wf b by (simp_all add: key_to_new_counter_def Let_def wf_bin_update split: option.split)
  show "get_key_count (key_to_new_counter hg k) key = get_key_count hg key"
    if "key < KEYS (sigbits hg)"
    using b by (cases "k div ?B = key div ?B")
      (simp_all add: key_to_new_counter_def get_key_count_def key_to_counter_def Let_def
        split: option.split)
qed

lemma fetch_add_laws:
  assumes wf: "hg64_wf hg" and k: "k < KEYS (sigbits hg)"
    and bp: "bin hg ! (k div BINSIZE (sigbits hg)) \<noteq> None"
  shows "hg64_wf (fetch_add hg k n)" "sigbits (fetch_add hg k n) = sigbits hg"
    and "key < KEYS (sigbits hg) \<Longrightarrow>
      get_key_count (fetch_add hg k n) key = get_key_count hg key + (if k = key then n else 0)"
proof -
  let ?B = "BINSIZE (sigbits hg)"
  have b: "k div ?B < length (bin hg)" using wf k key_bin by (simp add: hg64_wf_def)
  obtain bp where bp: "bin hg ! (k div ?B) = Some bp" using bp by auto
  have len: "length bp = ?B" using wf_bin [OF wf _ bp] b wf by (simp add: hg64_wf_def)
  show "hg64_wf (fetch_add hg k n)" "sigbits (fetch_add hg k n) = sigbits hg"
    using wf bp len by (simp_all add: fetch_add_def Let_def wf_bin_update)
  show "get_key_count (fetch_add hg k n) key = get_key_count hg key + (if k = key then n else 0)"
    if "key < KEYS (sigbits hg)"
  proof (cases "k div ?B = key div ?B")
    case True
    then show ?thesis
      using b bp len same_key_iff [of k key ?B]
      by (simp add: fetch_add_def get_key_count_def key_to_counter_def Let_def nth_list_update)
  next
    case False
    then show ?thesis
      using bp by (auto simp: fetch_add_def get_key_count_def key_to_counter_def Let_def)
  qed
qed

lemma add_key_count_laws:
  assumes wf: "hg64_wf hg" and k: "k < KEYS (sigbits hg)"
  shows add_key_count_wf: "hg64_wf (add_key_count hg k n)"
    and add_key_count_sigbits: "sigbits (add_key_count hg k n) = sigbits hg"
    and add_key_count_count: "key < KEYS (sigbits hg) \<Longrightarrow>
      get_key_count (add_key_count hg k n) key = get_key_count hg key + (if k = key then n else 0)"
proof -
  let ?hg = "if key_to_counter hg k = None then key_to_new_counter hg k else hg"
  have *: "hg64_wf ?hg" "sigbits ?hg = sigbits hg"
    "bin ?hg ! (k div BINSIZE (sigbits hg)) \<noteq> None"
    "key < KEYS (sigbits hg) \<Longrightarrow> get_key_count ?hg key = get_key_count hg key" for key
    using new_counter_laws [OF wf k] wf by (auto simp: key_to_counter_def Let_def split: option.splits)
  note fa = fetch_add_laws [of ?hg k, unfolded *(2), OF *(1) k *(3)]
  have eq: "add_key_count hg k n = (if n = 0 then hg else fetch_add ?hg k n)"
    by (simp only: add_key_count_def)
  show "hg64_wf (add_key_count hg k n)" "sigbits (add_key_count hg k n) = sigbits hg"
    unfolding eq using wf fa(1,2) by (cases "n = 0"; simp only: simp_thms if_True if_False)+
  show "get_key_count (add_key_count hg k n) key = get_key_count hg key + (if k = key then n else 0)"
    if "key < KEYS (sigbits hg)"
    unfolding eq using fa(3) [OF that] *(4) [OF that]
    by (cases "n = 0") (simp_all only: simp_thms if_True if_False if_cancel add_0_right)
qed

interpretation hc: counter_table hg64_wf sigbits KEYS get_key_count add_key_count
  by unfold_locales (simp_all add: add_key_count_wf add_key_count_sigbits add_key_count_count)

text \<open>Iterating over the keys passes over counters that are zero only.\<close>

lemma aligned_bin:
  assumes "key AND (BINSIZE s - 1) = 0" "key \<le> k" "k < key + BINSIZE s"
  shows "k div BINSIZE s = key div BINSIZE s"
proof -
  have "key mod BINSIZE s = 0"
    using assms(1)
    by (simp only: BINSIZE_pow take_bit_eq_mod [symmetric] take_bit_eq_mask mask_eq_exp_minus_1)
  then obtain q where "key = BINSIZE s * q" by (auto simp: mod_eq_0_iff_dvd)
  then show ?thesis using assms(2,3) by (simp add: div_nat_eqI)
qed

lemma next_loop_skips:
  "key \<le> k \<Longrightarrow> k < next_loop hg key \<Longrightarrow> get_key_count hg k = 0"
proof (induction hg key rule: next_loop.induct)
  case (1 hg key)
  let ?B = "BINSIZE (sigbits hg)"
  have skip: "key < KEYS (sigbits hg) \<and> key AND (?B - 1) = 0 \<and> key_to_counter hg key = None"
  proof (rule ccontr)
    assume "\<not> ?thesis"
    then have "next_loop hg key = key" by (subst next_loop.simps) (rule if_not_P)
    then show False using 1 by simp
  qed
  show ?case
  proof (cases "k < key + ?B")
    case True
    then have "k div ?B = key div ?B" using aligned_bin skip 1 by blast
    then show ?thesis
      using skip by (simp add: get_key_count_def key_to_counter_def Let_def split: option.splits)
  next
    case False
    then show ?thesis using 1 skip by (simp add: next_loop.simps [of hg key])
  qed
qed

lemma visited_bounds: "k \<in> set (visited hg key) \<Longrightarrow> key \<le> k \<and> k < KEYS (sigbits hg)"
proof (induction hg key rule: visited.induct)
  case (1 hg key)
  then show ?case
    using next_loop_ge [of "key + 1" hg]
    by (subst (asm) (2) visited.simps) (fastforce simp: hg64_get_def hg64_next_def split: if_splits)
qed

lemma visited_sorted: "sorted_wrt (<) (visited hg key)"
proof (induction hg key rule: visited.induct)
  case (1 hg key)
  then show ?case
    by (subst visited.simps) (auto dest!: visited_bounds intro: less_le_trans [OF next_greater])
qed

lemma not_visited:
  "k \<notin> set (visited hg key) \<Longrightarrow> key \<le> k \<Longrightarrow> k < KEYS (sigbits hg) \<Longrightarrow> get_key_count hg k = 0"
proof (induction hg key rule: visited.induct)
  case (1 hg key)
  then have "key < KEYS (sigbits hg)" by simp
  then have v: "visited hg key = key # visited hg (hg64_next hg key)"
    by (subst visited.simps) (simp add: hg64_get_def)
  show ?case
  proof (cases "k < hg64_next hg key")
    case True
    then show ?thesis using 1 v next_loop_skips [of "key + 1" k hg] by (simp add: hg64_next_def)
  next
    case False
    then show ?thesis using 1 v \<open>key < KEYS (sigbits hg)\<close> by (simp add: hg64_get_def)
  qed
qed

lemma visited_complete:
  "{k \<in> set (visited hg 0). get_key_count hg k > 0} = {k. k < KEYS (sigbits hg) \<and> get_key_count hg k > 0}"
  using not_visited [of _ hg 0] visited_bounds [of _ hg 0] by fastforce

section \<open>What the operations compute\<close>

definition hg64_values :: "nat \<Rightarrow> u64 list \<Rightarrow> hg64 option" where
  "hg64_values s vs = map_option (\<lambda>hg. fold (\<lambda>v hg. hg64_inc hg v) vs hg) (hg64_create s)"

lemma fold_inc:
  assumes "hg64_wf hg"
  shows fold_inc_wf: "hg64_wf (fold (\<lambda>v hg. hg64_inc hg v) vs hg)"
    and fold_inc_sigbits: "sigbits (fold (\<lambda>v hg. hg64_inc hg v) vs hg) = sigbits hg"
    and fold_inc_count: "key < KEYS (sigbits hg) \<Longrightarrow>
      get_key_count (fold (\<lambda>v hg. hg64_inc hg v) vs hg) key
        = get_key_count hg key + of_nat (length (filter (in_bucket (sigbits hg) key) vs))"
proof -
  let ?s = "sigbits hg"
  have s: "1 \<le> ?s" "?s \<le> 15" by (rule hg64_wf_prec [OF assms])+
  have eq: "fold (\<lambda>v hg. hg64_inc hg v) vs hg
      = fold (\<lambda>v hg. add_key_count hg (value_to_key ?s v) 1) vs hg"
    using assms
  proof (induction vs arbitrary: hg)
    case (Cons v vs)
    then show ?case
      using add_key_count_wf [of hg] add_key_count_sigbits [of hg]
        value_to_key_bucket(1) [OF hg64_wf_prec, of hg]
      by (simp add: hg64_inc_def)
  qed simp
  have all: "\<forall>v \<in> set vs. value_to_key ?s v < KEYS ?s"
    using value_to_key_bucket(1) [OF s] by simp
  show "hg64_wf (fold (\<lambda>v hg. hg64_inc hg v) vs hg)"
    "sigbits (fold (\<lambda>v hg. hg64_inc hg v) vs hg) = ?s"
    unfolding eq using hc.fold_add_wf [OF assms all] hc.fold_add_prec [OF assms all] by simp_all
  show "get_key_count (fold (\<lambda>v hg. hg64_inc hg v) vs hg) key
      = get_key_count hg key + of_nat (length (filter (in_bucket ?s key) vs))"
    if key: "key < KEYS ?s"
  proof -
    have "value_to_key ?s v = key \<longleftrightarrow> in_bucket ?s key v" for v
      using value_to_key_unique [OF s key] value_to_key_bucket [OF s] by auto
    then show ?thesis
      unfolding eq using hc.fold_add_count [OF assms all key, of "\<lambda>_. 1"]
      by (simp add: sum_list_triv)
  qed
qed

lemma merge_key_same:
  assumes "1 \<le> s" "s \<le> 15" "sigbits source = s" "sigbits target = s" "skey < KEYS s"
  shows "merge_key source skey target = add_key_count target skey (get_key_count source skey)"
proof -
  have le: "unat (key_to_minval s skey) \<le> unat (key_to_maxval s skey)"
    using assms by (intro minval_le_maxval)
  then have "value_to_key s (key_to_minval s skey) = skey" "value_to_key s (key_to_maxval s skey) = skey"
    using assms by (auto intro!: value_to_key_unique simp: in_bucket_def word_le_nat_alt)
  then show ?thesis using assms by (simp add: merge_key_def Let_def)
qed

lemma fold_merge_same:
  assumes "hg64_wf target" "sigbits source = sigbits target" "\<forall>k \<in> set ks. k < KEYS (sigbits target)"
  shows "fold (merge_key source) ks target
    = fold (\<lambda>k t. add_key_count t k (get_key_count source k)) ks target"
  using assms
proof (induction ks arbitrary: target)
  case (Cons k ks)
  then show ?case
    using add_key_count_wf [of target k] add_key_count_sigbits [of target k]
      merge_key_same [OF hg64_wf_prec, of target source target k] by simp
qed simp

lemma hg64_merge_laws:
  assumes "hg64_wf target" "sigbits source = sigbits target"
  shows hg64_merge_wf: "hg64_wf (hg64_merge target source)"
    and hg64_merge_sigbits: "sigbits (hg64_merge target source) = sigbits target"
    and hg64_merge_count: "key < KEYS (sigbits target) \<Longrightarrow>
      get_key_count (hg64_merge target source) key = get_key_count target key + get_key_count source key"
proof -
  have ks: "\<forall>k \<in> set (visited source 0). k < KEYS (sigbits target)"
    using visited_bounds assms(2) by metis
  have d: "distinct (visited source 0)"
    using visited_sorted strict_sorted_iff by blast
  note eq = fold_merge_same [OF assms ks, folded hg64_merge_def]
  show "hg64_wf (hg64_merge target source)" "sigbits (hg64_merge target source) = sigbits target"
    unfolding eq using hc.fold_add_wf [OF assms(1), of _ "\<lambda>k. k"] hc.fold_add_prec [OF assms(1), of _ "\<lambda>k. k"] ks
    by simp_all
  show "get_key_count (hg64_merge target source) key = get_key_count target key + get_key_count source key"
    if "key < KEYS (sigbits target)"
    unfolding eq hc.fold_add_distinct [OF assms(1) d ks that]
    using not_visited [of key source 0] that assms(2) by auto
qed

lemma hg64_diff_laws:
  assumes "hg64_wf d" "sigbits a = sigbits d" "sigbits b = sigbits d"
  shows "\<exists>r. hg64_diff a b d = Ret r \<and> hg64_wf r \<and> sigbits r = sigbits d \<and>
    (\<forall>key < KEYS (sigbits d). get_key_count r key
      = get_key_count d key + (get_key_count a key - get_key_count b key))"
proof -
  let ?f = "\<lambda>k. get_key_count a k - get_key_count b k" and ?ks = "[0..<KEYS (sigbits d)]"
  have ks: "\<forall>k \<in> set ?ks. k < KEYS (sigbits d)" by simp
  show ?thesis
    using hc.fold_add_wf [OF assms(1), of ?ks "\<lambda>k. k" ?f] hc.fold_add_prec [OF assms(1), of ?ks "\<lambda>k. k" ?f]
      hc.fold_add_distinct [OF assms(1), of ?ks _ ?f] assms(2,3)
    by (simp add: hg64_diff_def)
qed

lemma hg64_min_key_eq:
  assumes "k < KEYS (sigbits hg)" "get_key_count hg k > 0"
  shows "hg64_min_key hg = Min {k. k < KEYS (sigbits hg) \<and> get_key_count hg k > 0}"
proof -
  let ?P = "\<lambda>k. get_key_count hg k > 0" and ?ks = "visited hg 0"
  have find_min: "find P xs = Some x \<Longrightarrow> sorted_wrt (<) xs \<Longrightarrow> Min {k \<in> set xs. P k} = x"
    for P and xs :: "nat list" and x
  proof (induction xs)
    case (Cons y ys)
    show ?case
    proof (cases "P y")
      case True
      then show ?thesis using Cons.prems by (intro Min_eqI) (auto simp: less_imp_le)
    next
      case False
      then have "{k \<in> set (y # ys). P k} = {k \<in> set ys. P k}" by auto
      then show ?thesis using False Cons by simp
    qed
  qed simp
  have "k \<in> set ?ks" using not_visited [of k hg 0] assms by (intro ccontr [of "k \<in> set ?ks"]) simp
  then have "find ?P ?ks \<noteq> None" using assms(2) by (auto simp: find_None_iff)
  then obtain x where "find ?P ?ks = Some x" by auto
  then show ?thesis
    using find_min [OF _ visited_sorted] by (simp add: hg64_min_key_def flip: visited_complete)
qed

lemma hg64_max_key_eq:
  assumes "k < KEYS (sigbits hg)" "get_key_count hg k > 0"
  shows "hg64_max_key hg = Max {k. k < KEYS (sigbits hg) \<and> get_key_count hg k > 0}"
proof -
  let ?P = "\<lambda>k. get_key_count hg k > 0" and ?ks = "visited hg 0"
  have fold_max: "x \<in> set xs \<Longrightarrow> P x \<Longrightarrow> sorted_wrt (<) xs \<Longrightarrow>
      fold (\<lambda>k l. if P k then k else l) xs l = Max {k \<in> set xs. P k}"
    for P and xs :: "nat list" and x l
  proof (induction xs rule: rev_induct)
    case (snoc y ys)
    show ?case
    proof (cases "P y")
      case True
      then have "Max {k \<in> set (ys @ [y]). P k} = y"
        using snoc.prems by (intro Max_eqI) (auto simp: sorted_wrt_append less_imp_le)
      then show ?thesis using True by simp
    next
      case False
      then have "{k \<in> set (ys @ [y]). P k} = {k \<in> set ys. P k}" by auto
      then show ?thesis using False snoc by (auto simp: sorted_wrt_append)
    qed
  qed simp
  have "k \<in> set ?ks" using not_visited [of k hg 0] assms by (intro ccontr [of "k \<in> set ?ks"]) simp
  then show ?thesis
    using fold_max [OF _ _ visited_sorted, of k] assms(2)
    by (simp add: hg64_max_key_def flip: visited_complete)
qed

lemma bucket_width:
  assumes s: "1 \<le> s" "s \<le> 15" and key: "key < KEYS s" and v: "in_bucket s key v"
  shows "(unat (key_to_maxval s key) - unat (key_to_minval s key)) * 2 ^ s \<le> unat v"
proof (cases "key < 2 ^ s")
  case True
  then show ?thesis using s by (simp add: unat_minval_small unat_maxval_small)
next
  case False
  let ?d = "(2::nat) ^ (key div 2 ^ s - 1)"
  have "unat (key_to_maxval s key) + 1 = unat (key_to_minval s key) + ?d"
    using False unat_minval_large [OF s key] unat_maxval_large [OF s key] by simp
  then have "(unat (key_to_maxval s key) - unat (key_to_minval s key)) \<le> ?d" by linarith
  then have "(unat (key_to_maxval s key) - unat (key_to_minval s key)) * 2 ^ s \<le> ?d * 2 ^ s"
    by (rule mult_right_mono) simp
  also have "\<dots> \<le> unat (key_to_minval s key)"
    using False unat_minval_large [OF s key] by (simp add: algebra_simps)
  also have "\<dots> \<le> unat v" using v by (simp add: in_bucket_def word_le_nat_alt)
  finally show ?thesis .
qed

text \<open>
  C19.  Every 64-bit value has exactly one bucket: its key is below the number of keys, the
  value lies between the smallest and the largest value of that bucket and of no other, and
  the width of the bucket is at most the value divided by \<open>2 ^ sigbits\<close>, the promised
  precision.
\<close>

theorem hg64_buckets:
  assumes "1 \<le> s" "s \<le> 15"
  shows "value_to_key s v < KEYS s \<and>
    (\<forall>key < KEYS s. key_to_minval s key \<le> v \<and> v \<le> key_to_maxval s key \<longleftrightarrow> key = value_to_key s v) \<and>
    (unat (key_to_maxval s (value_to_key s v)) - unat (key_to_minval s (value_to_key s v))) * 2 ^ s
      \<le> unat v"
  using value_to_key_unique [OF assms] value_to_key_bucket [OF assms]
    bucket_width [OF assms value_to_key_bucket [OF assms]]
  by (auto simp: in_bucket_def)

theorem hg64_buckets_witness:
  "value_to_key 7 300 < KEYS 7 \<and>
    (unat (key_to_maxval 7 (value_to_key 7 300)) - unat (key_to_minval 7 (value_to_key 7 300))) * 2 ^ 7
      \<le> unat (300 :: u64)"
  using hg64_buckets [of 7 300] by auto

lemma hg64_values_Some:
  assumes "1 \<le> s" "s \<le> 15"
  obtains hg where "hg64_values s vs = Some hg" "hg64_wf hg" "sigbits hg = s"
    "\<And>key. key < KEYS s \<Longrightarrow> get_key_count hg key = of_nat (length (filter (in_bucket s key) vs))"
proof -
  obtain hg where hg: "hg64_create s = Some hg" using create_Some [OF assms] by auto
  then have wf: "hg64_wf hg" "sigbits hg = s" using create_wf by auto
  show thesis
  proof (rule that)
    show "hg64_values s vs = Some (fold (\<lambda>v hg. hg64_inc hg v) vs hg)"
      by (simp add: hg64_values_def hg)
  qed (use fold_inc_wf [OF wf(1), of vs] fold_inc_sigbits [OF wf(1), of vs]
      fold_inc_count [OF wf(1), of _ vs] wf(2) create_count [OF hg] in auto)
qed

text \<open>
  C20.  After counting a list of values in a new histogram, reading a key gives the range of
  its bucket and the number of values of the list in that range.
\<close>

theorem hg64_counts_values:
  assumes "1 \<le> s" "s \<le> 15"
  shows "\<exists>hg. hg64_values s vs = Some hg \<and>
    (\<forall>key < KEYS s. hg64_get hg key = Some (key_to_minval s key, key_to_maxval s key,
      of_nat (length (filter (\<lambda>v. key_to_minval s key \<le> v \<and> v \<le> key_to_maxval s key) vs))))"
proof -
  obtain hg where "hg64_values s vs = Some hg" "sigbits hg = s"
    "\<And>key. key < KEYS s \<Longrightarrow> get_key_count hg key = of_nat (length (filter (in_bucket s key) vs))"
    using hg64_values_Some [OF assms] by metis
  moreover have "in_bucket s key = (\<lambda>v. key_to_minval s key \<le> v \<and> v \<le> key_to_maxval s key)" for key
    by (rule ext) (simp add: in_bucket_def)
  ultimately show ?thesis by (auto simp: hg64_get_def)
qed

theorem hg64_counts_values_witness:
  "\<exists>hg. hg64_values 7 [3, 300, 3] = Some hg \<and> hg64_get hg 3 = Some (3, 3, 2)"
proof -
  have "(3::nat) < KEYS 7" "key_to_minval 7 3 = 3" "key_to_maxval 7 3 = 3"
    by (simp_all add: key_defs key_to_minval_def key_to_maxval_def)
  then show ?thesis using hg64_counts_values [of 7 "[3, 300, 3]"] by auto
qed

lemma counted_keys:
  assumes s: "1 \<le> s" "s \<le> 15" and vs: "length vs < 2 ^ 64" and hg: "sigbits hg = s"
    "\<And>key. key < KEYS s \<Longrightarrow> get_key_count hg key = of_nat (length (filter (in_bucket s key) vs))"
  shows "{k. k < KEYS (sigbits hg) \<and> get_key_count hg k > 0} = value_to_key s ` set vs"
proof -
  have pos: "(0 < get_key_count hg k) = (\<exists>v \<in> set vs. in_bucket s k v)" if "k < KEYS s" for k
  proof -
    have "length (filter (in_bucket s k) vs) < 2 ^ 64"
      by (rule le_less_trans [OF length_filter_le vs])
    then have "unat (get_key_count hg k) = length (filter (in_bucket s k) vs)"
      using hg(2) [OF that] by (simp add: unat_of_nat64)
    then show ?thesis by (auto simp: word_greater_zero_iff unat_eq_0 [symmetric] filter_empty_conv)
  qed
  have "k < KEYS s \<and> get_key_count hg k > 0 \<longleftrightarrow> k \<in> value_to_key s ` set vs" for k
  proof
    assume "k < KEYS s \<and> get_key_count hg k > 0"
    then show "k \<in> value_to_key s ` set vs" using pos value_to_key_unique [OF s] by force
  next
    assume "k \<in> value_to_key s ` set vs"
    then show "k < KEYS s \<and> get_key_count hg k > 0" using pos value_to_key_bucket [OF s] by auto
  qed
  then show ?thesis by (auto simp: hg(1))
qed

lemma extreme_keys:
  assumes "1 \<le> s" "s \<le> 15" "length vs < 2 ^ 64" "vs \<noteq> []" "sigbits hg = s"
    "\<And>key. key < KEYS s \<Longrightarrow> get_key_count hg key = of_nat (length (filter (in_bucket s key) vs))"
  shows "hg64_min_key hg = value_to_key s (Min (set vs))"
    "hg64_max_key hg = value_to_key s (Max (set vs))"
proof -
  note keys = counted_keys [OF assms(1-3,5,6)]
  have mono: "mono (value_to_key s)" by (intro monoI value_to_key_mono assms(1,2))
  from keys assms(4) obtain k where "k < KEYS (sigbits hg)" "get_key_count hg k > 0"
    by (metis (mono_tags, lifting) last_in_set mem_Collect_eq imageI)
  then have "hg64_min_key hg = Min (value_to_key s ` set vs)" "hg64_max_key hg = Max (value_to_key s ` set vs)"
    by (simp_all only: hg64_min_key_eq hg64_max_key_eq keys)
  then show "hg64_min_key hg = value_to_key s (Min (set vs))"
    "hg64_max_key hg = value_to_key s (Max (set vs))"
    using mono_Min_commute [OF mono, of "set vs"] mono_Max_commute [OF mono, of "set vs"] assms(4)
    by simp_all
qed

text \<open>
  The smallest and the largest key with a count, from which the latency extremes of an
  interval are taken, are the keys of the smallest and the largest value counted.
\<close>

theorem hg64_extremes:
  assumes "1 \<le> s" "s \<le> 15" "vs \<noteq> []" "length vs < 2 ^ 64"
  shows "\<exists>hg. hg64_values s vs = Some hg \<and>
    hg64_min_key hg = value_to_key s (Min (set vs)) \<and>
    hg64_max_key hg = value_to_key s (Max (set vs))"
proof -
  obtain hg where "hg64_values s vs = Some hg" "sigbits hg = s"
    "\<And>key. key < KEYS s \<Longrightarrow> get_key_count hg key = of_nat (length (filter (in_bucket s key) vs))"
    using hg64_values_Some [OF assms(1,2)] by metis
  then show ?thesis using extreme_keys [OF assms(1,2,4,3)] by auto
qed

theorem hg64_extremes_witness:
  "\<exists>hg. hg64_values 7 [9, 5, 7] = Some hg \<and> hg64_min_key hg = 5 \<and> hg64_max_key hg = 9"
  using hg64_extremes [of 7 "[9, 5, 7]"] by (simp add: value_to_key_small)

text \<open>
  Merging histograms of one precision adds the counters, and the difference of the sum
  and one of the summands is the other: no count is lost or moved to another bucket.
\<close>

theorem hg64_merge_diff:
  assumes "hg64_wf a" "sigbits b = sigbits a" "hg64_create (sigbits a) = Some d"
  shows "\<exists>r. hg64_diff (hg64_merge a b) a d = Ret r \<and>
    (\<forall>key < KEYS (sigbits a).
      get_key_count (hg64_merge a b) key = get_key_count a key + get_key_count b key \<and>
      get_key_count r key = get_key_count b key)"
proof -
  have d: "hg64_wf d" "sigbits d = sigbits a" using create_wf [OF assms(3)] by simp_all
  note m = hg64_merge_sigbits [OF assms(1,2)] hg64_merge_count [OF assms(1,2)]
  obtain r where r: "hg64_diff (hg64_merge a b) a d = Ret r"
    "\<forall>key < KEYS (sigbits a). get_key_count r key
      = get_key_count d key + (get_key_count (hg64_merge a b) key - get_key_count a key)"
    using hg64_diff_laws [OF d(1), of "hg64_merge a b" a] d(2) m(1) by metis
  show ?thesis
  proof (intro exI conjI allI impI)
    show "hg64_diff (hg64_merge a b) a d = Ret r" by (rule r(1))
    fix key assume key: "key < KEYS (sigbits a)"
    show "get_key_count (hg64_merge a b) key = get_key_count a key + get_key_count b key"
      by (rule m(2) [OF key])
    then show "get_key_count r key = get_key_count b key"
      using r(2) [rule_format, OF key] create_count [OF assms(3) key] by simp
  qed
qed

theorem hg64_merge_diff_witness:
  "\<exists>a b d r. hg64_values 7 [3, 3] = Some a \<and> hg64_values 7 [3, 4] = Some b \<and>
    hg64_create 7 = Some d \<and> hg64_diff (hg64_merge a b) a d = Ret r \<and>
    get_key_count (hg64_merge a b) 3 = get_key_count a 3 + get_key_count b 3 \<and>
    get_key_count r 4 = get_key_count b 4"
proof -
  obtain a where a: "hg64_values 7 [3, 3] = Some a" "hg64_wf a" "sigbits a = 7"
    using hg64_values_Some [of 7 "[3, 3]"] by auto
  obtain b where b: "hg64_values 7 [3, 4] = Some b" "sigbits b = 7"
    using hg64_values_Some [of 7 "[3, 4]"] by auto
  obtain d where d: "hg64_create 7 = Some d" using create_Some [of 7] by auto
  have "(3::nat) < KEYS 7" "(4::nat) < KEYS 7" by (simp_all add: key_defs)
  then show ?thesis using hg64_merge_diff [of a b d] a b d by auto
qed

text \<open>
  Merging into a histogram of higher precision can lose counts: one value counted in
  the bucket from 4 to 5 is in none of the two buckets 4 and 5 of the target, because the
  remainder is compared with the key and not with its distance from the first key.
\<close>

theorem hg64_merge_loses_count:
  "case (hg64_values 1 [4], hg64_create 2) of
     (Some source, Some target) \<Rightarrow>
       get_key_count source (value_to_key 1 4) = 1 \<and> hg64_merge target source = target
   | _ \<Rightarrow> False"
  by code_simp

end
