(* ===== verification/Stats.thy ===== *)
theory Stats
  imports Hg64 "HOL-Library.Multiset"
begin

text \<open>
  The statistics of \<^verbatim>\<open>dnsperf.c\<close>: the counters of a thread (\<^verbatim>\<open>stats_t\<close>), how a response and
  a connection event change them, their sum over the threads, the difference of two samples,
  and the report.  Counters are 64-bit words and wrap.  Floating-point quotients of the report
  are given by their operands.
\<close>

section \<open>Counters\<close>

definition DNSPERF_STATS_RCODECOUNTS :: nat where
  "DNSPERF_STATS_RCODECOUNTS = 16"

definition HISTOGRAM_SIGBITS :: nat where
  "HISTOGRAM_SIGBITS = 5"

record stats_t =
  rcodecounts :: "u64 list"
  num_sent :: u64
  num_interrupted :: u64
  num_timedout :: u64
  num_completed :: u64
  total_request_size :: u64
  total_response_size :: u64
  latency_sum :: u64
  latency_sum_squares :: u64
  latency_min :: u64
  latency_max :: u64
  num_conn_attempts :: u64
  num_conn_completed :: u64
  conn_latency_sum :: u64
  conn_latency_sum_squares :: u64
  conn_latency_min :: u64
  conn_latency_max :: u64
  latency :: "hg64 option"
  conn_latency :: "hg64 option"

text \<open>Statistics cleared by \<^verbatim>\<open>memset\<close>, with histograms when they are asked for.\<close>

definition cleared :: "bool \<Rightarrow> stats_t" where
  "cleared histogram =
    \<lparr>rcodecounts = replicate DNSPERF_STATS_RCODECOUNTS 0, num_sent = 0, num_interrupted = 0,
     num_timedout = 0, num_completed = 0, total_request_size = 0, total_response_size = 0,
     latency_sum = 0, latency_sum_squares = 0, latency_min = 0, latency_max = 0,
     num_conn_attempts = 0, num_conn_completed = 0, conn_latency_sum = 0,
     conn_latency_sum_squares = 0, conn_latency_min = 0, conn_latency_max = 0,
     latency = (if histogram then hg64_create HISTOGRAM_SIGBITS else None),
     conn_latency = (if histogram then hg64_create HISTOGRAM_SIGBITS else None)\<rparr>"

definition num_outstanding :: "stats_t \<Rightarrow> u64" where
  "num_outstanding stats =
    (if num_completed stats + num_timedout stats > num_sent stats then 0
     else num_sent stats - num_completed stats - num_timedout stats)"

text \<open>The part of \<^verbatim>\<open>do_recv\<close> that counts one expected response.\<close>

definition count_response :: "nat \<Rightarrow> u32 \<Rightarrow> u64 \<Rightarrow> stats_t \<Rightarrow> stats_t" where
  "count_response rcode sz lat stats =
    (let stats = stats\<lparr>num_completed := num_completed stats + 1,
           total_response_size := total_response_size stats + ucast sz,
           rcodecounts := (rcodecounts stats)[rcode := rcodecounts stats ! rcode + 1],
           latency_sum := latency_sum stats + lat,
           latency := map_option (\<lambda>hg. hg64_inc hg lat) (latency stats),
           latency_sum_squares := latency_sum_squares stats + lat * lat\<rparr>;
         stats = (if lat < latency_min stats \<or> num_completed stats = 1
           then stats\<lparr>latency_min := lat\<rparr> else stats)
     in if lat > latency_max stats then stats\<lparr>latency_max := lat\<rparr> else stats)"

datatype perf_socket_event =
    perf_socket_event_connecting
  | perf_socket_event_connected
  | perf_socket_event_reconnecting
  | perf_socket_event_reconnected

definition count_connection :: "u64 \<Rightarrow> stats_t \<Rightarrow> stats_t" where
  "count_connection elapsed stats =
    (let stats = stats\<lparr>num_conn_completed := num_conn_completed stats + 1,
           conn_latency := map_option (\<lambda>hg. hg64_inc hg elapsed) (conn_latency stats),
           conn_latency_sum := conn_latency_sum stats + elapsed,
           conn_latency_sum_squares := conn_latency_sum_squares stats + elapsed * elapsed\<rparr>;
         stats = (if elapsed < conn_latency_min stats \<or> num_conn_completed stats = 1
           then stats\<lparr>conn_latency_min := elapsed\<rparr> else stats)
     in if elapsed > conn_latency_max stats then stats\<lparr>conn_latency_max := elapsed\<rparr> else stats)"

definition perf__net_event :: "perf_socket_event \<Rightarrow> u64 \<Rightarrow> stats_t \<Rightarrow> stats_t" where
  "perf__net_event event elapsed stats =
    (case event of
       perf_socket_event_reconnected \<Rightarrow> count_connection elapsed stats
     | perf_socket_event_connected \<Rightarrow> count_connection elapsed stats
     | perf_socket_event_reconnecting \<Rightarrow> stats\<lparr>num_conn_attempts := num_conn_attempts stats + 1\<rparr>
     | perf_socket_event_connecting \<Rightarrow> stats\<lparr>num_conn_attempts := num_conn_attempts stats + 1\<rparr>)"

section \<open>Sum and difference\<close>

text \<open>\<^verbatim>\<open>hg64_merge\<close> through pointers: a null pointer is undefined behaviour.\<close>

definition merge_into :: "bool \<Rightarrow> hg64 option \<Rightarrow> hg64 option \<Rightarrow> hg64 option outcome" where
  "merge_into histogram target source =
    (if \<not> histogram then Ret target
     else case (target, source) of
       (Some t, Some s) \<Rightarrow> Ret (Some (hg64_merge t s))
     | _ \<Rightarrow> UB)"

definition sum_step :: "bool \<Rightarrow> nat \<Rightarrow> stats_t \<Rightarrow> stats_t \<Rightarrow> stats_t outcome" where
  "sum_step histogram i stats tot =
    obind (merge_into histogram (latency tot) (latency stats)) (\<lambda>lat.
    obind (merge_into histogram (conn_latency tot) (conn_latency stats)) (\<lambda>conn_lat.
    Ret (tot\<lparr>latency := lat, conn_latency := conn_lat,
      rcodecounts := map2 (+) (rcodecounts tot) (rcodecounts stats),
      num_sent := num_sent tot + num_sent stats,
      num_interrupted := num_interrupted tot + num_interrupted stats,
      num_timedout := num_timedout tot + num_timedout stats,
      num_completed := num_completed tot + num_completed stats,
      total_request_size := total_request_size tot + total_request_size stats,
      total_response_size := total_response_size tot + total_response_size stats,
      latency_sum := latency_sum tot + latency_sum stats,
      latency_sum_squares := latency_sum_squares tot + latency_sum_squares stats,
      latency_min := (if latency_min stats < latency_min tot \<or> i = 0
        then latency_min stats else latency_min tot),
      latency_max := (if latency_max stats > latency_max tot
        then latency_max stats else latency_max tot),
      num_conn_completed := num_conn_completed tot + num_conn_completed stats,
      num_conn_attempts := num_conn_attempts tot + num_conn_attempts stats,
      conn_latency_sum := conn_latency_sum tot + conn_latency_sum stats,
      conn_latency_sum_squares := conn_latency_sum_squares tot + conn_latency_sum_squares stats,
      conn_latency_min := (if conn_latency_min stats < conn_latency_min tot \<or> i = 0
        then conn_latency_min stats else conn_latency_min tot),
      conn_latency_max := (if conn_latency_max stats > conn_latency_max tot
        then conn_latency_max stats else conn_latency_max tot)\<rparr>)))"

fun sum_loop :: "bool \<Rightarrow> nat \<Rightarrow> stats_t list \<Rightarrow> stats_t \<Rightarrow> stats_t outcome" where
  "sum_loop histogram i [] tot = Ret tot"
| "sum_loop histogram i (stats # rest) tot =
    obind (sum_step histogram i stats tot) (sum_loop histogram (i + 1) rest)"

definition sum_stats :: "bool \<Rightarrow> stats_t list \<Rightarrow> stats_t outcome" where
  "sum_stats histogram threads = sum_loop histogram 0 threads (cleared histogram)"

text \<open>
  The histogram of an interval and its extremes: the difference to the previous sample, or a
  copy when there is none.
\<close>

definition diff_histogram :: "hg64 option \<Rightarrow> hg64 option \<Rightarrow> (hg64 \<times> u64 \<times> u64) outcome" where
  "diff_histogram prv now =
    (case (hg64_create HISTOGRAM_SIGBITS, now) of
       (Some d, Some n) \<Rightarrow>
         obind (case prv of Some l \<Rightarrow> hg64_diff n l d | None \<Rightarrow> Ret (hg64_merge d n)) (\<lambda>d.
           Ret (d, (case hg64_get d (hg64_min_key d) of Some (mn, _, _) \<Rightarrow> mn | None \<Rightarrow> 0),
             (case hg64_get d (hg64_max_key d) of Some (_, mx, _) \<Rightarrow> mx | None \<Rightarrow> 0)))
     | _ \<Rightarrow> UB)"

definition diff_counters :: "stats_t \<Rightarrow> stats_t \<Rightarrow> stats_t \<Rightarrow> stats_t" where
  "diff_counters prv now diff =
    diff\<lparr>rcodecounts := map2 (-) (rcodecounts now) (rcodecounts prv),
      num_sent := num_sent now - num_sent prv,
      num_interrupted := num_interrupted now - num_interrupted prv,
      num_timedout := num_timedout now - num_timedout prv,
      num_completed := num_completed now - num_completed prv,
      total_request_size := total_request_size now - total_request_size prv,
      total_response_size := total_response_size now - total_response_size prv,
      latency_sum := latency_sum now - latency_sum prv,
      latency_sum_squares := latency_sum_squares now - latency_sum_squares prv,
      latency_min := 0, latency_max := 0,
      num_conn_attempts := num_conn_attempts now - num_conn_attempts prv,
      num_conn_completed := num_conn_completed now - num_conn_completed prv,
      conn_latency_sum := conn_latency_sum now - conn_latency_sum prv,
      conn_latency_sum_squares := conn_latency_sum_squares now - conn_latency_sum_squares prv,
      conn_latency_min := 0, conn_latency_max := 0\<rparr>"

definition diff_stats :: "bool \<Rightarrow> stats_t \<Rightarrow> stats_t \<Rightarrow> stats_t \<Rightarrow> stats_t outcome" where
  "diff_stats histogram prv now diff =
    (let diff = diff_counters prv now diff in
     if \<not> histogram then Ret diff
     else obind (diff_histogram (latency prv) (latency now)) (\<lambda>(lat, mn, mx).
       let diff = diff\<lparr>latency := Some lat, latency_min := mn, latency_max := mx\<rparr> in
       obind (diff_histogram (conn_latency prv) (conn_latency now)) (\<lambda>(lat, mn, mx).
       Ret (diff\<lparr>conn_latency := Some lat, conn_latency_min := mn, conn_latency_max := mx\<rparr>))))"

section \<open>The report\<close>

definition MILLION :: u64 where
  "MILLION = 1000000"

text \<open>
  A line of the report as the values that are printed.  A floating-point quotient is given by
  its operands, \<open>None\<close> when \<^verbatim>\<open>PERF_SAFE_DIV\<close> avoids the division; a duration is given in
  seconds and microseconds, converted to \<^verbatim>\<open>unsigned int\<close>.
\<close>

type_synonym quotient = "(u64 \<times> u64) option"
type_synonym seconds = "u32 \<times> u32"
type_synonym bucket_line = "u64 \<times> u64 \<times> u64 \<times> u64 \<times> u64"

datatype report_item =
    Title bool
  | Sent u64
  | Completed u64 quotient
  | Lost u64 quotient
  | Interrupted u64 quotient
  | ResponseCodes "(nat \<times> u64 \<times> u64 \<times> u64) list"
  | PacketSize u32 u32
  | RunTime seconds
  | PerSecond quotient
  | AverageLatency seconds "(seconds \<times> seconds) option"
  | StdDev u64 u64 u64
  | Histogram string "bucket_line list"
  | ConnectionAttempts u64 u64 quotient

definition PERF_SAFE_DIV :: "u64 \<Rightarrow> u64 \<Rightarrow> u64" where
  "PERF_SAFE_DIV n d = (if d = 0 then 0 else n div d)"

definition quotient :: "u64 \<Rightarrow> u64 \<Rightarrow> quotient" where
  "quotient n d = (if d = 0 then None else Some (n, d))"

definition seconds :: "u64 \<Rightarrow> seconds" where
  "seconds t = (ucast (t div MILLION), ucast (t mod MILLION))"

definition print_histogram :: "hg64 \<Rightarrow> bucket_line list" where
  "print_histogram hg =
    map (\<lambda>key. let pmin = key_to_minval (sigbits hg) key; pmax = key_to_maxval (sigbits hg) key in
        (pmin div MILLION, pmin mod MILLION, pmax div MILLION, pmax mod MILLION, get_key_count hg key))
      (filter (\<lambda>key. get_key_count hg key \<noteq> 0) (visited hg 0))"

definition histogram_lines :: "bool \<Rightarrow> hg64 option \<Rightarrow> string \<Rightarrow> report_item list" where
  "histogram_lines histogram hg desc =
    (if histogram then (case hg of Some h \<Rightarrow> [Histogram desc (print_histogram h)] | None \<Rightarrow> []) else [])"

definition extreme_seconds :: "u64 \<Rightarrow> u64 \<Rightarrow> u64 \<Rightarrow> (seconds \<times> seconds) option" where
  "extreme_seconds now mn mx = (if now = 0 then Some (seconds mn, seconds mx) else None)"

definition print_statistics ::
  "bool \<Rightarrow> u64 \<Rightarrow> u64 \<Rightarrow> stats_t \<Rightarrow> u64 \<Rightarrow> u64 \<Rightarrow> report_item list" where
  "print_statistics histogram start_time end_time stats now interval_time =
    (let run_time = (if now \<noteq> 0 then now - start_time else end_time - start_time) in
     [Title (now \<noteq> 0), Sent (num_sent stats),
      Completed (num_completed stats) (quotient (num_completed stats) (num_sent stats)),
      Lost (num_timedout stats) (quotient (num_timedout stats) (num_sent stats))] @
     (if num_interrupted stats > 0
      then [Interrupted (num_interrupted stats) (quotient (num_interrupted stats) (num_sent stats))]
      else []) @
     [ResponseCodes (map (\<lambda>i. (i, rcodecounts stats ! i, rcodecounts stats ! i, num_completed stats))
        (filter (\<lambda>i. rcodecounts stats ! i \<noteq> 0) [0..<DNSPERF_STATS_RCODECOUNTS])),
      PacketSize (ucast (PERF_SAFE_DIV (total_request_size stats) (num_sent stats)))
        (ucast (PERF_SAFE_DIV (total_response_size stats) (num_completed stats))),
      RunTime (seconds run_time),
      PerSecond (quotient (num_completed stats) (if now \<noteq> 0 then interval_time else run_time)),
      AverageLatency (seconds (PERF_SAFE_DIV (latency_sum stats) (num_completed stats)))
        (extreme_seconds now (latency_min stats) (latency_max stats))] @
     (if num_completed stats > 1
      then StdDev (latency_sum_squares stats) (latency_sum stats) (num_completed stats) #
        histogram_lines histogram (latency stats) ''answer count''
      else []) @
     (if num_conn_completed stats = 0 \<and> num_conn_attempts stats = 0 then []
      else [ConnectionAttempts (num_conn_attempts stats) (num_conn_completed stats)
          (quotient (num_conn_completed stats) (num_conn_attempts stats)),
        AverageLatency (seconds (PERF_SAFE_DIV (conn_latency_sum stats) (num_conn_completed stats)))
          (extreme_seconds now (conn_latency_min stats) (conn_latency_max stats))] @
        (if num_conn_completed stats > 1
         then StdDev (conn_latency_sum_squares stats) (conn_latency_sum stats) (num_conn_completed stats) #
           histogram_lines histogram (latency stats) ''connection count''
         else [])))"

section \<open>What the counters mean\<close>

text \<open>A response is its code, its size and its latency.\<close>

type_synonym response = "nat \<times> u32 \<times> u64"

abbreviation rcode_of :: "response \<Rightarrow> nat" where
  "rcode_of r \<equiv> fst r"

abbreviation size_of :: "response \<Rightarrow> u64" where
  "size_of r \<equiv> ucast (fst (snd r))"

abbreviation latency_of :: "response \<Rightarrow> u64" where
  "latency_of r \<equiv> snd (snd r)"

definition count_all :: "response list \<Rightarrow> stats_t \<Rightarrow> stats_t" where
  "count_all rs stats = fold (\<lambda>(rcode, sz, lat). count_response rcode sz lat) rs stats"

lemma count_all_simps [simp]:
  "count_all [] stats = stats"
  "count_all (rs @ [r]) stats = count_response (rcode_of r) (fst (snd r)) (latency_of r) (count_all rs stats)"
  by (simp_all add: count_all_def split_beta)

lemma count_all_append: "count_all (rs @ rs') stats = count_all rs' (count_all rs stats)"
  by (simp add: count_all_def)

definition histogram_of :: "response list \<Rightarrow> hg64 \<Rightarrow> bool" where
  "histogram_of rs hg \<longleftrightarrow> hg64_wf hg \<and> sigbits hg = HISTOGRAM_SIGBITS \<and>
    (\<forall>key < KEYS HISTOGRAM_SIGBITS. get_key_count hg key =
      of_nat (length (filter (\<lambda>r. in_bucket HISTOGRAM_SIGBITS key (latency_of r)) rs)))"

text \<open>The counters of the responses \<open>rs\<close>.\<close>

definition summary :: "response list \<Rightarrow> stats_t \<Rightarrow> bool" where
  "summary rs stats \<longleftrightarrow> length (rcodecounts stats) = DNSPERF_STATS_RCODECOUNTS \<and>
    (\<forall>c < DNSPERF_STATS_RCODECOUNTS. rcodecounts stats ! c =
      of_nat (length (filter (\<lambda>r. rcode_of r = c) rs))) \<and>
    num_completed stats = of_nat (length rs) \<and>
    total_response_size stats = sum_list (map size_of rs) \<and>
    latency_sum stats = sum_list (map latency_of rs) \<and>
    latency_sum_squares stats = sum_list (map (\<lambda>r. latency_of r * latency_of r) rs)"

definition extremes :: "response list \<Rightarrow> stats_t \<Rightarrow> bool" where
  "extremes rs stats \<longleftrightarrow>
    latency_min stats = (if rs = [] then 0 else Min (latency_of ` set rs)) \<and>
    latency_max stats = (if rs = [] then 0 else Max (latency_of ` set rs))"

definition with_histogram :: "bool \<Rightarrow> response list \<Rightarrow> stats_t \<Rightarrow> bool" where
  "with_histogram histogram rs stats \<longleftrightarrow>
    (if histogram then (\<exists>hg. latency stats = Some hg \<and> histogram_of rs hg) else latency stats = None)"

lemma sigbits_ok: "1 \<le> HISTOGRAM_SIGBITS" "HISTOGRAM_SIGBITS \<le> 15"
  by (simp_all add: HISTOGRAM_SIGBITS_def)

lemma histogram_of_create: "\<exists>hg. hg64_create HISTOGRAM_SIGBITS = Some hg \<and> histogram_of [] hg"
proof -
  obtain hg where "hg64_create HISTOGRAM_SIGBITS = Some hg" using create_Some [OF sigbits_ok] by auto
  then show ?thesis using create_wf create_count by (auto simp: histogram_of_def)
qed

lemma histogram_of_inc:
  assumes "histogram_of rs hg"
  shows "histogram_of (rs @ [r]) (hg64_inc hg (latency_of r))"
  using assms fold_inc_wf [of hg "[latency_of r]"] fold_inc_sigbits [of hg "[latency_of r]"]
    fold_inc_count [of hg _ "[latency_of r]"]
  by (auto simp: histogram_of_def)

lemma histogram_of_merge:
  assumes "histogram_of rs t" "histogram_of rs' s"
  shows "histogram_of (rs @ rs') (hg64_merge t s)"
  using assms hg64_merge_wf [of t s] hg64_merge_sigbits [of t s] hg64_merge_count [of t s]
  by (simp add: histogram_of_def)

lemma count_response_fields:
  "rcodecounts (count_response rcode sz lat stats) = (rcodecounts stats)[rcode := rcodecounts stats ! rcode + 1]"
  "num_completed (count_response rcode sz lat stats) = num_completed stats + 1"
  "total_response_size (count_response rcode sz lat stats) = total_response_size stats + ucast sz"
  "latency_sum (count_response rcode sz lat stats) = latency_sum stats + lat"
  "latency_sum_squares (count_response rcode sz lat stats) = latency_sum_squares stats + lat * lat"
  "latency (count_response rcode sz lat stats) = map_option (\<lambda>hg. hg64_inc hg lat) (latency stats)"
  "latency_min (count_response rcode sz lat stats) =
    (if lat < latency_min stats \<or> num_completed stats + 1 = 1 then lat else latency_min stats)"
  "latency_max (count_response rcode sz lat stats) = max lat (latency_max stats)"
  by (auto simp: count_response_def Let_def max_def not_less intro: antisym)

lemma summary_count_response:
  assumes "summary rs stats" "rcode_of r < DNSPERF_STATS_RCODECOUNTS"
  shows "summary (rs @ [r]) (count_response (rcode_of r) (fst (snd r)) (latency_of r) stats)"
  using assms by (auto simp: summary_def count_response_fields nth_list_update)

lemma extremes_count_response:
  assumes "extremes rs stats" "summary rs stats" "length rs + 1 < 2 ^ 64"
  shows "extremes (rs @ [r]) (count_response (rcode_of r) (fst (snd r)) (latency_of r) stats)"
proof -
  have "unat (num_completed stats) = length rs"
    using assms(2,3) by (simp add: summary_def unat_of_nat64)
  then have first: "num_completed stats + 1 = 1 \<longleftrightarrow> rs = []"
    by (metis add_cancel_left_left length_0_conv unat_eq_0)
  show ?thesis
  proof (cases "rs = []")
    case True
    then show ?thesis using assms(1) first by (simp add: extremes_def count_response_fields)
  next
    case False
    then have "latency_min (count_response (rcode_of r) (fst (snd r)) (latency_of r) stats)
        = min (latency_of r) (latency_min stats)"
      using first by (auto simp: count_response_fields min_def not_less)
    then show ?thesis
      using assms(1) False by (simp add: extremes_def count_response_fields)
  qed
qed

lemma with_histogram_count_response:
  "with_histogram histogram rs stats \<Longrightarrow>
    with_histogram histogram (rs @ [r]) (count_response (rcode_of r) (fst (snd r)) (latency_of r) stats)"
  by (auto simp: with_histogram_def count_response_fields histogram_of_inc split: if_splits)

lemma cleared_ok: "summary [] (cleared histogram)" "extremes [] (cleared histogram)"
  "with_histogram histogram [] (cleared histogram)"
  using histogram_of_create by (auto simp: summary_def extremes_def with_histogram_def cleared_def)

text \<open>Response codes are four bits, and no counter of responses has wrapped.\<close>

definition valid_responses :: "response list \<Rightarrow> bool" where
  "valid_responses rs \<longleftrightarrow> length rs < 2 ^ 64 \<and> (\<forall>r \<in> set rs. rcode_of r < DNSPERF_STATS_RCODECOUNTS)"

lemma valid_responses_prefix: "valid_responses (rs @ rs') \<Longrightarrow> valid_responses rs"
  by (simp add: valid_responses_def)

lemma count_all_ok:
  assumes "valid_responses rs"
  shows "summary rs (count_all rs (cleared histogram)) \<and>
    extremes rs (count_all rs (cleared histogram)) \<and>
    with_histogram histogram rs (count_all rs (cleared histogram))"
  using assms
proof (induction rs rule: rev_induct)
  case Nil
  then show ?case by (simp add: cleared_ok)
next
  case (snoc r rs)
  then show ?case
    using summary_count_response extremes_count_response with_histogram_count_response
    by (simp add: valid_responses_def)
qed

text \<open>Every thread has the histogram of connection times when histograms are on.\<close>

definition conn_ok :: "bool \<Rightarrow> stats_t \<Rightarrow> bool" where
  "conn_ok histogram stats \<longleftrightarrow> (histogram \<longrightarrow>
    (\<exists>hg. conn_latency stats = Some hg \<and> hg64_wf hg \<and> sigbits hg = HISTOGRAM_SIGBITS))"

lemma conn_ok_cleared: "conn_ok histogram (cleared histogram)"
  using histogram_of_create by (auto simp: conn_ok_def cleared_def histogram_of_def)

lemma conn_ok_count_all: "conn_ok histogram stats \<Longrightarrow> conn_ok histogram (count_all rs stats)"
  by (induction rs rule: rev_induct) (simp_all add: conn_ok_def count_response_def Let_def)

lemma sum_step_ok:
  assumes "summary acc tot" "with_histogram histogram acc tot" "conn_ok histogram tot"
    and "summary rs stats" "with_histogram histogram rs stats" "conn_ok histogram stats"
  shows "\<exists>r. sum_step histogram i stats tot = Ret r \<and> summary (acc @ rs) r \<and>
    with_histogram histogram (acc @ rs) r \<and> conn_ok histogram r \<and>
    (extremes acc tot \<and> extremes rs stats \<and> rs \<noteq> [] \<and> (i = 0 \<longleftrightarrow> acc = []) \<longrightarrow> extremes (acc @ rs) r)"
proof -
  have merge: "\<exists>lat. merge_into histogram (latency tot) (latency stats) = Ret lat \<and>
      (if histogram then \<exists>hg. lat = Some hg \<and> histogram_of (acc @ rs) hg else lat = None)"
    using assms(2,5) histogram_of_merge by (auto simp: merge_into_def with_histogram_def)
  then obtain lat where lat: "merge_into histogram (latency tot) (latency stats) = Ret lat"
    "if histogram then \<exists>hg. lat = Some hg \<and> histogram_of (acc @ rs) hg else lat = None" by auto
  obtain clat where clat: "merge_into histogram (conn_latency tot) (conn_latency stats) = Ret clat"
    "histogram \<longrightarrow> (\<exists>hg. clat = Some hg \<and> hg64_wf hg \<and> sigbits hg = HISTOGRAM_SIGBITS)"
    using assms(3,6) hg64_merge_wf hg64_merge_sigbits
    by (cases histogram) (fastforce simp: merge_into_def conn_ok_def)+
  obtain r where r: "sum_step histogram i stats tot = Ret r" by (simp add: sum_step_def lat clat)
  note fields = r [symmetric, unfolded sum_step_def lat(1) clat(1) obind.simps outcome.inject]
  have "summary (acc @ rs) r"
    using assms(1,4) by (auto simp: fields summary_def)
  moreover have "with_histogram histogram (acc @ rs) r" using lat(2) by (simp add: fields with_histogram_def)
  moreover have "conn_ok histogram r" using clat(2) by (simp add: fields conn_ok_def)
  moreover have "extremes (acc @ rs) r"
    if "extremes acc tot" "extremes rs stats" "rs \<noteq> []" "i = 0 \<longleftrightarrow> acc = []"
  proof (cases "acc = []")
    case True
    then show ?thesis using that by (auto simp: fields extremes_def not_less)
  next
    case False
    have "latency_min r = min (latency_min tot) (latency_min stats)"
      "latency_max r = max (latency_max tot) (latency_max stats)"
      using that(4) False by (auto simp: fields min_def max_def not_less)
    then show ?thesis using that False by (simp add: extremes_def image_Un Min_Un Max_Un)
  qed
  ultimately show ?thesis using r by blast
qed

lemma sum_loop_ok:
  assumes "summary acc tot" "with_histogram histogram acc tot" "conn_ok histogram tot"
    and "list_all2 (\<lambda>rs stats. summary rs stats \<and> with_histogram histogram rs stats \<and> conn_ok histogram stats) rss threads"
  shows "\<exists>r. sum_loop histogram i threads tot = Ret r \<and> summary (acc @ concat rss) r \<and>
    with_histogram histogram (acc @ concat rss) r \<and> conn_ok histogram r \<and>
    (extremes acc tot \<and> list_all2 extremes rss threads \<and> (\<forall>rs \<in> set rss. rs \<noteq> []) \<and> (i = 0 \<longleftrightarrow> acc = []) \<longrightarrow>
      extremes (acc @ concat rss) r)"
  using assms
proof (induction threads arbitrary: rss acc tot i)
  case Nil
  then show ?case by auto
next
  case (Cons stats threads)
  then obtain rs rss' where rss: "rss = rs # rss'" by (auto simp: list_all2_Cons2)
  obtain t where t: "sum_step histogram i stats tot = Ret t" "summary (acc @ rs) t"
    "with_histogram histogram (acc @ rs) t" "conn_ok histogram t"
    "extremes acc tot \<and> extremes rs stats \<and> rs \<noteq> [] \<and> (i = 0 \<longleftrightarrow> acc = []) \<longrightarrow> extremes (acc @ rs) t"
    using sum_step_ok [of acc tot histogram rs stats i] Cons.prems rss by auto
  obtain r where "sum_loop histogram (i + 1) threads t = Ret r" "summary ((acc @ rs) @ concat rss') r"
    "with_histogram histogram ((acc @ rs) @ concat rss') r" "conn_ok histogram r"
    "extremes (acc @ rs) t \<and> list_all2 extremes rss' threads \<and> (\<forall>rs \<in> set rss'. rs \<noteq> []) \<and>
      (i + 1 = 0 \<longleftrightarrow> acc @ rs = []) \<longrightarrow> extremes ((acc @ rs) @ concat rss') r"
    using Cons.IH [OF t(2-4), of rss' "i + 1"] Cons.prems(4) rss by auto
  then show ?case using t rss by auto
qed

lemma sum_stats_ok:
  assumes "\<forall>rs \<in> set rss. valid_responses rs"
  shows "\<exists>t. sum_stats histogram (map (\<lambda>rs. count_all rs (cleared histogram)) rss) = Ret t \<and>
    summary (concat rss) t \<and> with_histogram histogram (concat rss) t \<and> conn_ok histogram t \<and>
    ((\<forall>rs \<in> set rss. rs \<noteq> []) \<longrightarrow> extremes (concat rss) t)"
proof -
  let ?threads = "map (\<lambda>rs. count_all rs (cleared histogram)) rss"
  have "list_all2 (\<lambda>rs stats. summary rs stats \<and> with_histogram histogram rs stats \<and> conn_ok histogram stats)
      rss ?threads" "list_all2 extremes rss ?threads"
    using assms count_all_ok conn_ok_count_all [OF conn_ok_cleared]
    by (simp_all add: list_all2_map2 list.rel_refl_strong)
  then show ?thesis
    using sum_loop_ok [OF cleared_ok(1,3) conn_ok_cleared, of histogram rss ?threads 0] cleared_ok(2)
    by (auto simp: sum_stats_def)
qed

section \<open>Totals\<close>



text \<open>
  A thread that has counted no response makes the reported minimum latency zero: its
  cleared minimum is smaller than every measured one.
\<close>

theorem sum_stats_idle_thread:
  "\<exists>t. sum_stats False [count_all [(0, 90, 7)] (cleared False), cleared False] = Ret t \<and>
    latency_min t = 0 \<and> num_completed t = 1"
  by (simp add: sum_stats_def sum_step_def merge_into_def cleared_def count_all_def count_response_def)

lemma length_filter_mset: "mset ys = mset xs + mset zs \<Longrightarrow>
    length (filter P ys) = length (filter P xs) + length (filter P zs)"
  by (metis filter_union_mset mset_filter size_mset size_union)

lemma sum_list_mset: "mset ys = mset xs + mset zs \<Longrightarrow>
    sum_list (map f ys) = sum_list (map f xs) + sum_list (map f zs)"
  for f :: "'a \<Rightarrow> 'b :: comm_monoid_add"
  by (metis image_mset_union mset_map sum_mset.union sum_mset_sum_list)

lemma summary_diff:
  assumes "summary xs prv" "summary ys now" "mset ys = mset xs + mset zs"
  shows "summary zs (diff_counters prv now d)"
  using assms(1,2) arg_cong [OF assms(3), of size]
  by (simp add: summary_def diff_counters_def length_filter_mset [OF assms(3)]
      sum_list_mset [OF assms(3)])

lemma histogram_of_diff:
  assumes "histogram_of xs l" "histogram_of ys n" "mset ys = mset xs + mset zs" "histogram_of [] d"
  shows "\<exists>r. hg64_diff n l d = Ret r \<and> histogram_of zs r"
  using hg64_diff_laws [of d n l] assms(1,2,4) length_filter_mset [OF assms(3)]
  by (auto simp: histogram_of_def)

lemma histogram_extremes:
  assumes "histogram_of rs hg" "rs \<noteq> []" "length rs < 2 ^ 64"
  shows "hg64_min_key hg = value_to_key HISTOGRAM_SIGBITS (Min (latency_of ` set rs))"
    and "hg64_max_key hg = value_to_key HISTOGRAM_SIGBITS (Max (latency_of ` set rs))"
  using extreme_keys [OF sigbits_ok, of "map latency_of rs" hg] assms
  by (simp_all add: histogram_of_def filter_map comp_def)

lemma diff_histogram_ok:
  assumes "histogram_of xs l" "histogram_of ys n" "mset ys = mset xs + mset zs"
  shows "\<exists>d mn mx. diff_histogram (Some l) (Some n) = Ret (d, mn, mx) \<and> histogram_of zs d \<and>
    (zs \<noteq> [] \<and> length zs < 2 ^ 64 \<longrightarrow>
      mn = key_to_minval HISTOGRAM_SIGBITS (value_to_key HISTOGRAM_SIGBITS (Min (latency_of ` set zs))) \<and>
      mx = key_to_maxval HISTOGRAM_SIGBITS (value_to_key HISTOGRAM_SIGBITS (Max (latency_of ` set zs))))"
proof -
  obtain d0 where d0: "hg64_create HISTOGRAM_SIGBITS = Some d0" "histogram_of [] d0"
    using histogram_of_create by auto
  obtain d where d: "hg64_diff n l d0 = Ret d" "histogram_of zs d"
    using histogram_of_diff [OF assms d0(2)] by auto
  then show ?thesis
    using d0(1) histogram_extremes [OF d(2)] value_to_key_bucket(1) [OF sigbits_ok]
    by (auto simp: diff_histogram_def hg64_get_def histogram_of_def)
qed

lemma diff_histogram_returns:
  assumes "hg64_wf l" "sigbits l = HISTOGRAM_SIGBITS" "sigbits n = HISTOGRAM_SIGBITS"
  shows "\<exists>r. diff_histogram (Some l) (Some n) = Ret r"
proof -
  obtain d where "hg64_create HISTOGRAM_SIGBITS = Some d" "histogram_of [] d"
    using histogram_of_create by auto
  then show ?thesis
    using hg64_diff_laws [of d n l] assms(2,3) by (auto simp: diff_histogram_def histogram_of_def)
qed

lemma diff_stats_ok:
  assumes "summary xs prv" "with_histogram histogram xs prv" "conn_ok histogram prv"
    and "summary ys now" "with_histogram histogram ys now" "conn_ok histogram now"
    and "mset ys = mset xs + mset zs" "length zs < 2 ^ 64"
  shows "\<exists>d. diff_stats histogram prv now d0 = Ret d \<and> summary zs d \<and>
    (histogram \<longrightarrow> with_histogram True zs d \<and> (zs \<noteq> [] \<longrightarrow>
      latency_min d = key_to_minval HISTOGRAM_SIGBITS (value_to_key HISTOGRAM_SIGBITS (Min (latency_of ` set zs))) \<and>
      latency_max d = key_to_maxval HISTOGRAM_SIGBITS (value_to_key HISTOGRAM_SIGBITS (Max (latency_of ` set zs)))))"
proof (cases histogram)
  case False
  then show ?thesis using summary_diff [OF assms(1,4,7)] by (simp add: diff_stats_def)
next
  case True
  then obtain l n where ln: "latency prv = Some l" "latency now = Some n" "histogram_of xs l" "histogram_of ys n"
    using assms(2,5) by (auto simp: with_histogram_def)
  obtain cl cn where c: "conn_latency prv = Some cl" "conn_latency now = Some cn" "hg64_wf cl"
    "sigbits cl = HISTOGRAM_SIGBITS" "sigbits cn = HISTOGRAM_SIGBITS"
    using assms(3,6) True by (auto simp: conn_ok_def)
  obtain d mn mx where d: "diff_histogram (Some l) (Some n) = Ret (d, mn, mx)" "histogram_of zs d"
    "zs \<noteq> [] \<and> length zs < 2 ^ 64 \<longrightarrow>
      mn = key_to_minval HISTOGRAM_SIGBITS (value_to_key HISTOGRAM_SIGBITS (Min (latency_of ` set zs))) \<and>
      mx = key_to_maxval HISTOGRAM_SIGBITS (value_to_key HISTOGRAM_SIGBITS (Max (latency_of ` set zs)))"
    using diff_histogram_ok [OF ln(3,4) assms(7)] by blast
  obtain r where r: "diff_histogram (Some cl) (Some cn) = Ret r" using diff_histogram_returns [OF c(3-5)] by blast
  have "diff_stats histogram prv now d0 = Ret ((diff_counters prv now d0)\<lparr>latency := Some d,
      latency_min := mn, latency_max := mx, conn_latency := Some (fst r),
      conn_latency_min := fst (snd r), conn_latency_max := snd (snd r)\<rparr>)"
    using True by (simp add: diff_stats_def ln c d(1) r split_beta Let_def)
  then show ?thesis
    using summary_diff [OF assms(1,4,7), of d0] d(2,3) assms(8)
    by (auto simp: summary_def with_histogram_def)
qed

text \<open>
  C22.  The statistics of an interval are those of the responses counted between the two
  samples, over all threads; with histograms the reported extremes are the bounds of the
  buckets of the smallest and the largest latency of the interval.  Each thread is given by
  the responses before the first sample and those after it.
\<close>

theorem interval_stats_correct:
  fixes threads :: "(response list \<times> response list) list"
  assumes "\<forall>(before, after) \<in> set threads. valid_responses (before @ after)"
    and "zs = concat (map snd threads)" "length zs < 2 ^ 64"
  shows "\<exists>prv now d.
    sum_stats histogram (map (\<lambda>(before, after). count_all before (cleared histogram)) threads) = Ret prv \<and>
    sum_stats histogram (map (\<lambda>(before, after). count_all (before @ after) (cleared histogram)) threads) = Ret now \<and>
    diff_stats histogram prv now d0 = Ret d \<and> summary zs d \<and>
    (histogram \<longrightarrow> with_histogram True zs d \<and> (zs \<noteq> [] \<longrightarrow>
      latency_min d = key_to_minval HISTOGRAM_SIGBITS (value_to_key HISTOGRAM_SIGBITS (Min (latency_of ` set zs))) \<and>
      latency_max d = key_to_maxval HISTOGRAM_SIGBITS (value_to_key HISTOGRAM_SIGBITS (Max (latency_of ` set zs)))))"
proof -
  let ?xss = "map fst threads" and ?yss = "map (\<lambda>(b, a). b @ a) threads"
  have "mset (concat ?yss) = mset (concat ?xss) + mset (concat (map snd threads))"
    by (induction threads) auto
  then have ms: "mset (concat ?yss) = mset (concat ?xss) + mset zs" by (simp add: assms(2))
  have pre: "\<forall>rs \<in> set ?xss. valid_responses rs" "\<forall>rs \<in> set ?yss. valid_responses rs"
    using assms(1) valid_responses_prefix by fastforce+
  obtain prv where prv: "sum_stats histogram (map (\<lambda>rs. count_all rs (cleared histogram)) ?xss) = Ret prv"
    "summary (concat ?xss) prv" "with_histogram histogram (concat ?xss) prv" "conn_ok histogram prv"
    using sum_stats_ok [OF pre(1), of histogram] by blast
  obtain now where now: "sum_stats histogram (map (\<lambda>rs. count_all rs (cleared histogram)) ?yss) = Ret now"
    "summary (concat ?yss) now" "with_histogram histogram (concat ?yss) now" "conn_ok histogram now"
    using sum_stats_ok [OF pre(2), of histogram] by blast
  have eqs: "map (\<lambda>(before, after). count_all before (cleared histogram)) threads
      = map (\<lambda>rs. count_all rs (cleared histogram)) ?xss"
    "map (\<lambda>(before, after). count_all (before @ after) (cleared histogram)) threads
      = map (\<lambda>rs. count_all rs (cleared histogram)) ?yss"
    by (simp_all add: split_beta)
  show ?thesis
    unfolding eqs using diff_stats_ok [OF prv(2-4) now(2-4) ms assms(3), of d0] prv(1) now(1) by blast
qed

theorem interval_stats_correct_witness:
  "\<exists>prv now d. sum_stats True [count_all [(0, 90, 7)] (cleared True)] = Ret prv \<and>
    sum_stats True [count_all [(0, 90, 7), (3, 60, 5)] (cleared True)] = Ret now \<and>
    diff_stats True prv now (cleared False) = Ret d \<and> summary [(3, 60, 5)] d \<and>
    latency_min d = 5 \<and> latency_max d = 5"
proof -
  have "value_to_key HISTOGRAM_SIGBITS 5 = 5" by (simp add: value_to_key_small HISTOGRAM_SIGBITS_def)
  moreover have "key_to_minval HISTOGRAM_SIGBITS 5 = 5" "key_to_maxval HISTOGRAM_SIGBITS 5 = 5"
    by (simp_all add: HISTOGRAM_SIGBITS_def key_defs key_to_minval_def key_to_maxval_def)
  ultimately show ?thesis
    using interval_stats_correct [of "[([(0, 90, 7)], [(3, 60, 5)])]" "[(3, 60, 5)]" True "cleared False"]
    by (auto simp: valid_responses_def DNSPERF_STATS_RCODECOUNTS_def)
qed

section \<open>Printed histograms\<close>

lemma one_bucket:
  "(\<Sum>key < KEYS HISTOGRAM_SIGBITS. of_nat (length (filter (\<lambda>r. in_bucket HISTOGRAM_SIGBITS key (f r)) rs)) :: u64)
    = of_nat (length rs)"
proof (induction rs)
  case (Cons r rs)
  let ?k = "value_to_key HISTOGRAM_SIGBITS (f r)"
  have one: "in_bucket HISTOGRAM_SIGBITS key (f r) \<longleftrightarrow> key = ?k" if "key < KEYS HISTOGRAM_SIGBITS" for key
    using value_to_key_unique [OF sigbits_ok that] value_to_key_bucket [OF sigbits_ok] by auto
  have "(\<Sum>key < KEYS HISTOGRAM_SIGBITS. of_nat (length (filter (\<lambda>r. in_bucket HISTOGRAM_SIGBITS key (f r)) (r # rs))) :: u64)
      = (\<Sum>key < KEYS HISTOGRAM_SIGBITS. (if key = ?k then 1 else 0) +
          of_nat (length (filter (\<lambda>r. in_bucket HISTOGRAM_SIGBITS key (f r)) rs)))"
    by (rule sum.cong) (simp_all add: one)
  also have "\<dots> = 1 + of_nat (length rs)"
    using value_to_key_bucket(1) [OF sigbits_ok] by (simp add: sum.distrib Cons.IH)
  finally show ?case by simp
qed simp

text \<open>
  The counts of the printed histogram add up to the number of responses counted: the
  walk over the keys leaves out no bucket and visits none twice.
\<close>

theorem print_histogram_total:
  assumes "histogram_of rs hg"
  shows "sum_list (map (\<lambda>(_, _, _, _, n). n) (print_histogram hg)) = of_nat (length rs)"
proof -
  let ?n = "get_key_count hg" and ?vs = "filter (\<lambda>key. get_key_count hg key \<noteq> 0) (visited hg 0)"
  have d: "distinct ?vs" using visited_sorted strict_sorted_iff by (intro distinct_filter) blast
  have set: "set ?vs = {k \<in> {..<KEYS HISTOGRAM_SIGBITS}. ?n k \<noteq> 0}"
    using visited_complete [of hg] assms by (simp add: histogram_of_def word_greater_zero_iff)
  have "sum_list (map (\<lambda>(_, _, _, _, n). n) (print_histogram hg)) = sum_list (map ?n ?vs)"
    by (simp add: print_histogram_def Let_def comp_def)
  also have "\<dots> = (\<Sum>k \<in> {k \<in> {..<KEYS HISTOGRAM_SIGBITS}. ?n k \<noteq> 0}. ?n k)"
    using sum_list_distinct_conv_sum_set [OF d, of ?n] set by simp
  also have "\<dots> = (\<Sum>k < KEYS HISTOGRAM_SIGBITS. ?n k)" by (rule sum.mono_neutral_left) auto
  also have "\<dots> = of_nat (length rs)"
    using one_bucket [of latency_of rs] assms by (simp add: histogram_of_def)
  finally show ?thesis .
qed

theorem print_histogram_total_witness:
  "\<exists>hg. histogram_of [(0, 90, 7), (3, 60, 5)] hg \<and>
    sum_list (map (\<lambda>(_, _, _, _, n). n) (print_histogram hg)) = 2"
proof -
  obtain hg where "histogram_of [(0, 90, 7), (3, 60, 5)] hg"
    using count_all_ok [of "[(0, 90, 7), (3, 60, 5)]" True]
    by (auto simp: valid_responses_def DNSPERF_STATS_RCODECOUNTS_def with_histogram_def)
  then show ?thesis using print_histogram_total by fastforce
qed

text \<open>
  The histogram printed under the heading of the connections is the histogram of the
  answers: the report never shows the connection times that were collected.
\<close>

theorem connection_histogram_shows_answers:
  assumes "num_conn_completed stats > 1" "latency stats = Some hg"
  shows "Histogram ''connection count'' lines \<in> set (print_statistics True start_time end_time stats now interval_time)
    \<longleftrightarrow> lines = print_histogram hg"
  using assms
  by (auto simp: print_statistics_def Let_def histogram_lines_def split: option.splits)

theorem connection_histogram_shows_answers_witness:
  "\<exists>hg. latency (cleared True) = Some hg \<and> Histogram ''connection count'' (print_histogram hg)
    \<in> set (print_statistics True 0 9 ((cleared True)\<lparr>num_conn_completed := 2\<rparr>) 0 0)"
proof -
  obtain hg where "latency (cleared True) = Some hg"
    using cleared_ok(3) [of True] by (auto simp: with_histogram_def)
  then show ?thesis
    using connection_histogram_shows_answers [of "(cleared True)\<lparr>num_conn_completed := 2\<rparr>" hg] by simp
qed

end
