(* ===== verification/Threads.thy ===== *)
theory Threads
  imports Qlist Stats
begin

text \<open>
  The queries of a pair of sender and receiver threads in \<^verbatim>\<open>dnsperf.c\<close>: the array of 65536
  query slots, the two lists that share it, and every operation that moves a query between
  them.  The operations work on the linked lists of \<open>Qlist\<close>; the lemmas describe them by the
  HOL lists \<open>us\<close> (unused) and \<open>os\<close> (outstanding) that the pointers represent.  A socket is
  an index into the thread's array of sockets, which holds the file descriptors.
\<close>

section \<open>State\<close>

datatype query_list = unused_list | outstanding_list

record query_info = link +
  timestamp :: u64
  qlist :: query_list
  desc :: "bytes option"
  qsock :: "nat option"

definition NQIDS :: nat where
  "NQIDS = 65536"

definition MAX_SOCKETS :: nat where
  "MAX_SOCKETS = 256"

text \<open>\<^verbatim>\<open>UINT64_MAX\<close>, the time stamp of a query that is being prepared.\<close>

definition no_time :: u64 where
  "no_time = - 1"

record threadinfo =
  queries :: "nat \<Rightarrow> query_info"
  outstanding_queries :: plist
  unused_queries :: plist
  nsocks :: nat
  current_sock :: u32
  socks :: "int list"
  done_sending :: bool
  done_send_time :: u64
  stats :: stats_t
  max_outstanding :: u32
  max_qps :: u32
  last_recv :: u64

section \<open>Moving a query\<close>

datatype query_move_op = prepend_unused | append_unused | prepend_outstanding

definition get_list :: "threadinfo \<Rightarrow> query_list \<Rightarrow> plist" where
  "get_list t l = (case l of unused_list \<Rightarrow> unused_queries t | outstanding_list \<Rightarrow> outstanding_queries t)"

definition put_list :: "query_list \<Rightarrow> plist \<Rightarrow> threadinfo \<Rightarrow> threadinfo" where
  "put_list l p t = (case l of
     unused_list \<Rightarrow> t\<lparr>unused_queries := p\<rparr>
   | outstanding_list \<Rightarrow> t\<lparr>outstanding_queries := p\<rparr>)"

definition upd_query :: "nat \<Rightarrow> (query_info \<Rightarrow> query_info) \<Rightarrow> threadinfo \<Rightarrow> threadinfo" where
  "upd_query q f t = t\<lparr>queries := (queries t)(q := f (queries t q))\<rparr>"

definition query_move :: "threadinfo \<Rightarrow> nat \<Rightarrow> query_move_op \<Rightarrow> threadinfo outcome" where
  "query_move t q op =
    (let l = qlist (queries t q) in
     obind (perf_list_unlink (queries t) (get_list t l) q) (\<lambda>(h, p).
       let t = put_list l p (t\<lparr>queries := h\<rparr>) in
       case op of
         prepend_unused \<Rightarrow>
           let t = upd_query q (qlist_update (\<lambda>_. unused_list)) t;
               (h, p) = perf_list_prepend (queries t) (unused_queries t) q
           in Ret (t\<lparr>queries := h, unused_queries := p\<rparr>)
       | append_unused \<Rightarrow>
           let t = upd_query q (qlist_update (\<lambda>_. unused_list)) t;
               (h, p) = perf_list_append (queries t) (unused_queries t) q
           in Ret (t\<lparr>queries := h, unused_queries := p\<rparr>)
       | prepend_outstanding \<Rightarrow>
           let t = upd_query q (qlist_update (\<lambda>_. outstanding_list)) t;
               (h, p) = perf_list_prepend (queries t) (outstanding_queries t) q
           in Ret (t\<lparr>queries := h, outstanding_queries := p\<rparr>)))"

section \<open>Limits of a thread\<close>

definition per_thread :: "u32 \<Rightarrow> u32 \<Rightarrow> nat \<Rightarrow> u32" where
  "per_thread tot nthreads offset =
    (let v = tot div nthreads;
         temp_total = v * nthreads
     in if temp_total < tot \<and> of_nat offset < tot - temp_total then v + 1 else v)"

text \<open>
  The slots of a new thread: linked one after the other into the list of unused queries.  The
  structure has been cleared before.
\<close>

definition blank_query :: query_info where
  "blank_query = \<lparr>lprev = None, lnext = None, timestamp = 0, qlist = unused_list, desc = None, qsock = None\<rparr>"

definition init_query :: "nat \<Rightarrow> (nat \<Rightarrow> query_info) \<times> plist \<Rightarrow> (nat \<Rightarrow> query_info) \<times> plist" where
  "init_query i s = (case s of (h, p) \<Rightarrow>
     (case perf_list_append (perf_link_init i h) p i of
        (h, p) \<Rightarrow> (h(i := (h i)\<lparr>qlist := unused_list\<rparr>), p)))"

definition threadinfo_init :: "bool \<Rightarrow> u32 \<Rightarrow> u32 \<Rightarrow> u32 \<Rightarrow> u32 \<Rightarrow> nat \<Rightarrow> (nat \<Rightarrow> int) \<Rightarrow> nat \<Rightarrow> threadinfo" where
  "threadinfo_init histogram cfg_max_outstanding cfg_max_qps cfg_clients cfg_threads offset opensocket socket_offset =
    (let (h, unused) = fold init_query [0..<NQIDS] (\<lambda>_. blank_query, perf_list_init);
         outstanding = per_thread cfg_max_outstanding cfg_threads offset;
         n = unat (per_thread cfg_clients cfg_threads offset);
         n = (if n > MAX_SOCKETS then MAX_SOCKETS else n)
     in \<lparr>queries = h, outstanding_queries = perf_list_init, unused_queries = unused, nsocks = n,
         current_sock = 0, socks = map (\<lambda>i. opensocket (socket_offset + i)) [0..<n],
         done_sending = False, done_send_time = 0, stats = cleared histogram,
         max_outstanding = (if outstanding > of_nat NQIDS then of_nat NQIDS else outstanding),
         max_qps = per_thread cfg_max_qps cfg_threads offset, last_recv = 0\<rparr>)"

section \<open>The sender takes a query\<close>

text \<open>
  The sockets in turn, twice the number of sockets at most: the list holds the results of
  \<^verbatim>\<open>perf_net_sockready\<close> in the order of the calls.  The result is the socket that is ready, if any, and
  whether all attempts failed.
\<close>

datatype sockready = not_ready | failed | is_ready

fun find_socket :: "nat \<Rightarrow> sockready list \<Rightarrow> threadinfo \<Rightarrow> bool \<Rightarrow> threadinfo \<times> nat option \<times> bool" where
  "find_socket q [] t all_fail = (t, None, all_fail)"
| "find_socket q (r # rs) t all_fail =
    (let sock = unat (current_sock t) mod nsocks t;
         t = upd_query q (qsock_update (\<lambda>_. Some sock)) (t\<lparr>current_sock := current_sock t + 1\<rparr>)
     in case r of
          not_ready \<Rightarrow> find_socket q rs (upd_query q (qsock_update (\<lambda>_. None)) t) False
        | failed \<Rightarrow> find_socket q rs (upd_query q (qsock_update (\<lambda>_. None)) t) all_fail
        | is_ready \<Rightarrow> (t, Some sock, False))"

datatype taken = Limited | NoSocket | Taken nat nat

definition take_query :: "(nat \<Rightarrow> sockready) \<Rightarrow> threadinfo \<Rightarrow> (taken \<times> threadinfo) outcome" where
  "take_query ready t =
    (if num_outstanding (stats t) \<ge> ucast (max_outstanding t) then Ret (Limited, t)
     else case head (unused_queries t) of
       None \<Rightarrow> UB
     | Some q \<Rightarrow>
       obind (query_move t q prepend_outstanding) (\<lambda>t.
         let t = upd_query q (timestamp_update (\<lambda>_. no_time)) t;
             (t, sock, all_fail) = find_socket q (map ready [0..<nsocks t * 2]) t True
         in if all_fail then Exit 1
            else case sock of
              None \<Rightarrow> obind (query_move t q prepend_unused) (\<lambda>t. Ret (NoSocket, t))
            | Some s \<Rightarrow> Ret (Taken q s, t)))"

section \<open>Time-outs, responses, cancellation\<close>

text \<open>
  \<^verbatim>\<open>process_timeouts\<close> looks at the tail of the outstanding queries without the lock, and then
  works under the lock.  The loop moves a query in every round; \<open>fuel\<close> bounds the rounds.
\<close>

definition timeouts_check :: "u64 \<Rightarrow> u64 \<Rightarrow> threadinfo \<Rightarrow> nat option" where
  "timeouts_check timeout now t =
    (case tail (outstanding_queries t) of
       None \<Rightarrow> None
     | Some q \<Rightarrow>
         if timestamp (queries t q) > now \<or> now - timestamp (queries t q) < timeout then None
         else Some q)"

definition time_out_one :: "nat \<Rightarrow> threadinfo \<Rightarrow> threadinfo outcome" where
  "time_out_one q t =
    obind (query_move t q append_unused) (\<lambda>t.
      Ret (t\<lparr>stats := (stats t)\<lparr>num_timedout := num_timedout (stats t) + 1\<rparr>\<rparr>))"

fun timeouts_loop :: "nat \<Rightarrow> u64 \<Rightarrow> u64 \<Rightarrow> nat \<Rightarrow> threadinfo \<Rightarrow> threadinfo outcome option" where
  "timeouts_loop 0 timeout now q t = None"
| "timeouts_loop (Suc fuel) timeout now q t =
    (case time_out_one q t of
       Ret t \<Rightarrow>
         (case tail (outstanding_queries t) of
            None \<Rightarrow> Some (Ret t)
          | Some q \<Rightarrow>
              if timestamp (queries t q) < now \<and> now - timestamp (queries t q) \<ge> timeout
              then timeouts_loop fuel timeout now q t
              else Some (Ret t))
     | r \<Rightarrow> Some r)"

definition process_timeouts :: "u64 \<Rightarrow> u64 \<Rightarrow> threadinfo \<Rightarrow> threadinfo outcome option" where
  "process_timeouts timeout now t =
    (case timeouts_check timeout now t of
       None \<Rightarrow> Some (Ret t)
     | Some q \<Rightarrow> timeouts_loop (NQIDS + 1) timeout now q t)"

record received_query =
  r_sock :: nat
  r_qid :: nat
  r_rcode :: nat
  r_size :: u32
  r_when :: u64
  r_sent :: u64
  r_unexpected :: bool
  r_short :: bool
  r_desc :: "bytes option"

text \<open>\<^verbatim>\<open>perf_net_sockeq\<close> asserts both sockets and compares their descriptors.\<close>

definition perf_net_sockeq :: "threadinfo \<Rightarrow> nat option \<Rightarrow> nat \<Rightarrow> bool outcome" where
  "perf_net_sockeq t a b =
    (case a of None \<Rightarrow> Abort | Some a \<Rightarrow> Ret (socks t ! a = socks t ! b))"

text \<open>One response under the lock.\<close>

definition match_response :: "threadinfo \<Rightarrow> received_query \<Rightarrow> (threadinfo \<times> received_query) outcome" where
  "match_response t r =
    (if r_short r then Ret (t, r)
     else let q = r_qid r in
       obind (if qlist (queries t q) \<noteq> outstanding_list \<or> timestamp (queries t q) = no_time
              then Ret True
              else obind (perf_net_sockeq t (qsock (queries t q)) (r_sock r)) (\<lambda>eq. Ret (\<not> eq)))
         (\<lambda>unexpected.
           if unexpected then Ret (t, r\<lparr>r_unexpected := True\<rparr>)
           else obind (query_move t q append_unused) (\<lambda>t.
             let r = r\<lparr>r_sent := timestamp (queries t q), r_desc := desc (queries t q)\<rparr>
             in Ret (upd_query q (desc_update (\<lambda>_. None)) t, r))))"

fun match_responses :: "threadinfo \<Rightarrow> received_query list \<Rightarrow> (threadinfo \<times> received_query list) outcome" where
  "match_responses t [] = Ret (t, [])"
| "match_responses t (r # rs) =
    obind (match_response t r) (\<lambda>(t, r).
    obind (match_responses t rs) (\<lambda>(t, rs). Ret (t, r # rs)))"

text \<open>One response after the lock is released.\<close>

definition count_received :: "received_query \<Rightarrow> stats_t \<Rightarrow> stats_t" where
  "count_received r st =
    (if r_short r \<or> r_unexpected r then st
     else count_response (r_rcode r) (r_size r) (r_when r - r_sent r) st)"

fun cancel_loop :: "nat \<Rightarrow> threadinfo \<Rightarrow> threadinfo outcome option" where
  "cancel_loop 0 t = None"
| "cancel_loop (Suc fuel) t =
    (case tail (outstanding_queries t) of
       None \<Rightarrow> Some (Ret t)
     | Some q \<Rightarrow>
       (case query_move t q append_unused of
          Ret t \<Rightarrow>
            if timestamp (queries t q) = no_time then cancel_loop fuel t
            else cancel_loop fuel (upd_query q (desc_update (\<lambda>_. None))
              (t\<lparr>stats := (stats t)\<lparr>num_interrupted := num_interrupted (stats t) + 1\<rparr>\<rparr>))
        | r \<Rightarrow> Some r))"

definition cancel_queries :: "threadinfo \<Rightarrow> threadinfo outcome option" where
  "cancel_queries t = cancel_loop (NQIDS + 1) t"

definition perf__net_sent :: "nat \<Rightarrow> u64 \<Rightarrow> threadinfo \<Rightarrow> threadinfo" where
  "perf__net_sent qid now t =
    (if timestamp (queries t qid) \<noteq> no_time then upd_query qid (timestamp_update (\<lambda>_. now)) t else t)"

section \<open>The lists of a thread\<close>

definition lists_ok :: "threadinfo \<Rightarrow> nat list \<Rightarrow> nat list \<Rightarrow> bool" where
  "lists_ok t us os \<longleftrightarrow> dll (queries t) (unused_queries t) us \<and>
    dll (queries t) (outstanding_queries t) os \<and> set us \<inter> set os = {} \<and>
    (\<forall>q \<in> set us. qlist (queries t q) = unused_list) \<and>
    (\<forall>q \<in> set os. qlist (queries t q) = outstanding_list)"

text \<open>Nothing but the lists has changed, or nothing but the lists and the statistics.\<close>

definition keeps_but_stats :: "threadinfo \<Rightarrow> threadinfo \<Rightarrow> bool" where
  "keeps_but_stats t t' \<longleftrightarrow> nsocks t' = nsocks t \<and> current_sock t' = current_sock t \<and> socks t' = socks t \<and>
    done_sending t' = done_sending t \<and> done_send_time t' = done_send_time t \<and>
    max_outstanding t' = max_outstanding t \<and> max_qps t' = max_qps t \<and> last_recv t' = last_recv t \<and>
    (\<forall>x. timestamp (queries t' x) = timestamp (queries t x) \<and> desc (queries t' x) = desc (queries t x) \<and>
      qsock (queries t' x) = qsock (queries t x))"

definition keeps_data :: "threadinfo \<Rightarrow> threadinfo \<Rightarrow> bool" where
  "keeps_data t t' \<longleftrightarrow> keeps_but_stats t t' \<and> stats t' = stats t"

lemma keeps_but_stats_simps:
  assumes "keeps_but_stats t t'"
  shows "nsocks t' = nsocks t" "current_sock t' = current_sock t"
    "socks t' = socks t" "done_sending t' = done_sending t" "max_outstanding t' = max_outstanding t"
    "max_qps t' = max_qps t" "last_recv t' = last_recv t"
    "timestamp (queries t' x) = timestamp (queries t x)" "desc (queries t' x) = desc (queries t x)"
    "qsock (queries t' x) = qsock (queries t x)"
  using assms by (simp_all add: keeps_but_stats_def)

lemma keeps_but_stats_refl [simp]: "keeps_but_stats t t"
  by (simp add: keeps_but_stats_def)

lemma keeps_but_stats_trans: "keeps_but_stats t t' \<Longrightarrow> keeps_but_stats t' t'' \<Longrightarrow> keeps_but_stats t t''"
  by (simp add: keeps_but_stats_def)

lemma keeps_data_trans: "keeps_data t t' \<Longrightarrow> keeps_data t' t'' \<Longrightarrow> keeps_data t t''"
  by (auto simp: keeps_data_def intro: keeps_but_stats_trans)

lemma keeps_dataD: "keeps_data t t' \<Longrightarrow> keeps_but_stats t t'" "keeps_data t t' \<Longrightarrow> stats t' = stats t"
  by (simp_all add: keeps_data_def)

lemmas keeps_data_simps = keeps_dataD(2) keeps_but_stats_simps [OF keeps_dataD(1)]

fun moved :: "query_move_op \<Rightarrow> nat \<Rightarrow> nat list \<Rightarrow> nat list \<Rightarrow> nat list \<times> nat list" where
  "moved prepend_unused q us os = (q # remove1 q us, remove1 q os)"
| "moved append_unused q us os = (remove1 q us @ [q], remove1 q os)"
| "moved prepend_outstanding q us os = (remove1 q us, q # remove1 q os)"

lemma more_fields:
  "link.more r = link.more r' \<Longrightarrow> timestamp r = timestamp r' \<and> qlist r = qlist r' \<and> desc r = desc r' \<and> qsock r = qsock r'"
  for r r' :: query_info
  by (cases r; cases r') simp

lemma dll_upd:
  "(\<And>r. lprev (f r) = lprev r) \<Longrightarrow> (\<And>r. lnext (f r) = lnext r) \<Longrightarrow>
    dll (h(q := f (h q))) l xs \<longleftrightarrow> dll h l xs"
  using dseg_frame [of xs "h(q := f (h q))" h] by (simp add: dll_def)

lemma keeps_lists:
  "(\<And>y. link.more (h y) = link.more (queries t y)) \<Longrightarrow>
    keeps_data t (t\<lparr>queries := h, unused_queries := u\<rparr>) \<and>
    keeps_data t (t\<lparr>queries := h, outstanding_queries := o'\<rparr>)"
proof -
  assume m: "\<And>y. link.more (h y) = link.more (queries t y)"
  show ?thesis using more_fields [OF m] by (simp add: keeps_data_def keeps_but_stats_def)
qed

lemma unlink_query:
  assumes ok: "lists_ok t us os" and q: "q \<in> set us \<union> set os"
  obtains h p where "perf_list_unlink (queries t) (get_list t (qlist (queries t q))) q = Ret (h, p)"
    "keeps_data t (put_list (qlist (queries t q)) p (t\<lparr>queries := h\<rparr>))"
    "lists_ok (put_list (qlist (queries t q)) p (t\<lparr>queries := h\<rparr>)) (remove1 q us) (remove1 q os)"
    "q \<notin> set (remove1 q us)" "q \<notin> set (remove1 q os)"
proof (cases "q \<in> set us")
  case True
  then have l: "qlist (queries t q) = unused_list" and os: "q \<notin> set os" using ok by (auto simp: lists_ok_def)
  obtain h p where h: "perf_list_unlink (queries t) (unused_queries t) q = Ret (h, p)"
    "dll h p (remove1 q us)" "dll h (outstanding_queries t) os" "q \<notin> set (remove1 q us)"
    "\<And>y. link.more (h y) = link.more (queries t y)"
    using ql.unlink_beside [of "queries t" "unused_queries t" us "outstanding_queries t" os q] ok True
    by (auto simp: lists_ok_def)
  have "qlist (h x) = qlist (queries t x)" for x using more_fields [OF h(5)] by simp
  then have "lists_ok (t\<lparr>queries := h, unused_queries := p\<rparr>) (remove1 q us) os"
    using ok h(2,3) set_remove1_subset [of q us] by (auto simp: lists_ok_def)
  then show ?thesis
    using that [of h p] h l os keeps_lists [of h t, OF h(5)]
    by (simp add: get_list_def put_list_def remove1_idem)
next
  case False
  then have l: "qlist (queries t q) = outstanding_list" and os: "q \<in> set os"
    using ok q by (auto simp: lists_ok_def)
  obtain h p where h: "perf_list_unlink (queries t) (outstanding_queries t) q = Ret (h, p)"
    "dll h p (remove1 q os)" "dll h (unused_queries t) us" "q \<notin> set (remove1 q os)"
    "\<And>y. link.more (h y) = link.more (queries t y)"
    using ql.unlink_beside [of "queries t" "outstanding_queries t" os "unused_queries t" us q] ok os
    by (auto simp: lists_ok_def)
  have "qlist (h x) = qlist (queries t x)" for x using more_fields [OF h(5)] by simp
  then have "lists_ok (t\<lparr>queries := h, outstanding_queries := p\<rparr>) us (remove1 q os)"
    using ok h(2,3) set_remove1_subset [of q os] by (auto simp: lists_ok_def)
  then show ?thesis
    using that [of h p] h l False keeps_lists [of h t, OF h(5)]
    by (simp add: get_list_def put_list_def remove1_idem)
qed

lemma relabel_query:
  assumes "lists_ok t us os" "q \<notin> set us" "q \<notin> set os"
  shows "lists_ok (upd_query q (qlist_update (\<lambda>_. l)) t) us os"
    and "keeps_data t (upd_query q (qlist_update (\<lambda>_. l)) t)"
    and "qlist (queries (upd_query q (qlist_update (\<lambda>_. l)) t) q) = l"
  using assms dll_upd [of "qlist_update (\<lambda>_. l)" "queries t" q]
  by (auto simp: lists_ok_def upd_query_def keeps_data_def keeps_but_stats_def)

lemma insert_query:
  assumes ok: "lists_ok t us os" and q: "q \<notin> set us" "q \<notin> set os"
  shows insert_front: "qlist (queries t q) = unused_list \<Longrightarrow> perf_list_prepend (queries t) (unused_queries t) q = (h, p) \<Longrightarrow>
      lists_ok (t\<lparr>queries := h, unused_queries := p\<rparr>) (q # us) os \<and> keeps_data t (t\<lparr>queries := h, unused_queries := p\<rparr>)"
    and insert_back: "qlist (queries t q) = unused_list \<Longrightarrow> perf_list_append (queries t) (unused_queries t) q = (h, p) \<Longrightarrow>
      lists_ok (t\<lparr>queries := h, unused_queries := p\<rparr>) (us @ [q]) os \<and> keeps_data t (t\<lparr>queries := h, unused_queries := p\<rparr>)"
    and insert_outstanding: "qlist (queries t q) = outstanding_list \<Longrightarrow>
      perf_list_prepend (queries t) (outstanding_queries t) q = (h, p) \<Longrightarrow>
      lists_ok (t\<lparr>queries := h, outstanding_queries := p\<rparr>) us (q # os) \<and>
      keeps_data t (t\<lparr>queries := h, outstanding_queries := p\<rparr>)"
proof -
  have u: "dll (queries t) (unused_queries t) us" and o: "dll (queries t) (outstanding_queries t) os"
    and disj: "set us \<inter> set os = {}" using ok by (auto simp: lists_ok_def)
  have disj': "set os \<inter> set us = {}" using disj by auto
  show "lists_ok (t\<lparr>queries := h, unused_queries := p\<rparr>) (q # us) os \<and> keeps_data t (t\<lparr>queries := h, unused_queries := p\<rparr>)"
    if l: "qlist (queries t q) = unused_list" and h: "perf_list_prepend (queries t) (unused_queries t) q = (h, p)"
  proof -
    have m: "\<And>y. link.more (h y) = link.more (queries t y)" and "dll h p (q # us)" "dll h (outstanding_queries t) os"
      using ql.prepend_beside [OF u o disj q] h by auto
    moreover have "qlist (h x) = qlist (queries t x)" for x using more_fields [OF m] by simp
    ultimately show ?thesis using ok q l keeps_lists [OF m] by (auto simp: lists_ok_def)
  qed
  show "lists_ok (t\<lparr>queries := h, unused_queries := p\<rparr>) (us @ [q]) os \<and> keeps_data t (t\<lparr>queries := h, unused_queries := p\<rparr>)"
    if l: "qlist (queries t q) = unused_list" and h: "perf_list_append (queries t) (unused_queries t) q = (h, p)"
  proof -
    have m: "\<And>y. link.more (h y) = link.more (queries t y)" and "dll h p (us @ [q])" "dll h (outstanding_queries t) os"
      using ql.append_beside [OF u o disj q] h by auto
    moreover have "qlist (h x) = qlist (queries t x)" for x using more_fields [OF m] by simp
    ultimately show ?thesis using ok q l keeps_lists [OF m] by (auto simp: lists_ok_def)
  qed
  show "lists_ok (t\<lparr>queries := h, outstanding_queries := p\<rparr>) us (q # os) \<and>
      keeps_data t (t\<lparr>queries := h, outstanding_queries := p\<rparr>)"
    if l: "qlist (queries t q) = outstanding_list"
      and h: "perf_list_prepend (queries t) (outstanding_queries t) q = (h, p)"
  proof -
    have m: "\<And>y. link.more (h y) = link.more (queries t y)" and "dll h p (q # os)" "dll h (unused_queries t) us"
      using ql.prepend_beside [OF o u disj' q(2,1)] h by auto
    moreover have "qlist (h x) = qlist (queries t x)" for x using more_fields [OF m] by simp
    ultimately show ?thesis using ok q l keeps_lists [OF m] by (auto simp: lists_ok_def)
  qed
qed

lemma query_move_ok:
  assumes ok: "lists_ok t us os" and q: "q \<in> set us \<union> set os"
  shows "\<exists>t'. query_move t q op = Ret t' \<and> keeps_data t t' \<and>
    lists_ok t' (fst (moved op q us os)) (snd (moved op q us os))"
proof -
  let ?us = "remove1 q us" and ?os = "remove1 q os"
  obtain h p where u: "perf_list_unlink (queries t) (get_list t (qlist (queries t q))) q = Ret (h, p)"
    and t1: "keeps_data t (put_list (qlist (queries t q)) p (t\<lparr>queries := h\<rparr>))"
      "lists_ok (put_list (qlist (queries t q)) p (t\<lparr>queries := h\<rparr>)) ?us ?os"
      "q \<notin> set ?us" "q \<notin> set ?os"
    using unlink_query [OF assms] by blast
  define t1 where "t1 = put_list (qlist (queries t q)) p (t\<lparr>queries := h\<rparr>)"
  note t1 = t1 [folded t1_def]
  show ?thesis
  proof (cases op)
    case prepend_unused
    define t2 where "t2 = upd_query q (qlist_update (\<lambda>_. unused_list)) t1"
    note t2 = relabel_query [OF t1(2-4), of unused_list, folded t2_def]
    obtain h' p' where h': "perf_list_prepend (queries t2) (unused_queries t2) q = (h', p')" by fastforce
    have "query_move t q op = Ret (t2\<lparr>queries := h', unused_queries := p'\<rparr>)"
      using u h' by (simp add: query_move_def prepend_unused t1_def t2_def Let_def)
    then show ?thesis
      using insert_front [OF t2(1) t1(3,4) t2(3) h'] keeps_data_trans [OF t1(1) keeps_data_trans [OF t2(2)]] prepend_unused
      by auto
  next
    case append_unused
    define t2 where "t2 = upd_query q (qlist_update (\<lambda>_. unused_list)) t1"
    note t2 = relabel_query [OF t1(2-4), of unused_list, folded t2_def]
    obtain h' p' where h': "perf_list_append (queries t2) (unused_queries t2) q = (h', p')" by fastforce
    have "query_move t q op = Ret (t2\<lparr>queries := h', unused_queries := p'\<rparr>)"
      using u h' by (simp add: query_move_def append_unused t1_def t2_def Let_def)
    then show ?thesis
      using insert_back [OF t2(1) t1(3,4) t2(3) h'] keeps_data_trans [OF t1(1) keeps_data_trans [OF t2(2)]] append_unused
      by auto
  next
    case prepend_outstanding
    define t2 where "t2 = upd_query q (qlist_update (\<lambda>_. outstanding_list)) t1"
    note t2 = relabel_query [OF t1(2-4), of outstanding_list, folded t2_def]
    obtain h' p' where h': "perf_list_prepend (queries t2) (outstanding_queries t2) q = (h', p')" by fastforce
    have "query_move t q op = Ret (t2\<lparr>queries := h', outstanding_queries := p'\<rparr>)"
      using u h' by (simp add: query_move_def prepend_outstanding t1_def t2_def Let_def)
    then show ?thesis
      using insert_outstanding [OF t2(1) t1(3,4) t2(3) h'] keeps_data_trans [OF t1(1) keeps_data_trans [OF t2(2)]]
        prepend_outstanding
      by auto
  qed
qed

section \<open>The invariant of a thread\<close>

text \<open>
  Every slot is in exactly one of the lists, an outstanding query has one of the thread's
  sockets, and the limit is at most the number of slots.
\<close>

definition thread_ok :: "threadinfo \<Rightarrow> nat list \<Rightarrow> nat list \<Rightarrow> bool" where
  "thread_ok t us os \<longleftrightarrow> lists_ok t us os \<and> set us \<union> set os = {..<NQIDS} \<and>
    (\<forall>q \<in> set os. \<exists>s < nsocks t. qsock (queries t q) = Some s) \<and>
    length (socks t) = nsocks t \<and> unat (max_outstanding t) \<le> NQIDS"

lemma lists_ok_distinct: "lists_ok t us os \<Longrightarrow> distinct us \<and> distinct os \<and> set us \<inter> set os = {}"
  by (simp add: lists_ok_def dll_def)

lemma thread_ok_length: "thread_ok t us os \<Longrightarrow> length us + length os = NQIDS"
proof -
  assume ok: "thread_ok t us os"
  then have "distinct (us @ os)" using lists_ok_distinct by (auto simp: thread_ok_def)
  then have "length (us @ os) = card (set (us @ os))" by (rule distinct_card [symmetric])
  also have "set (us @ os) = {..<NQIDS}" using ok by (auto simp: thread_ok_def)
  finally show ?thesis by simp
qed

lemma thread_ok_slot: "thread_ok t us os \<Longrightarrow> q < NQIDS \<Longrightarrow> q \<in> set us \<union> set os"
  by (auto simp: thread_ok_def)

lemma thread_ok_heads:
  assumes "thread_ok t us os"
  shows "head (unused_queries t) = first us None" "tail (outstanding_queries t) = final os None"
  using assms by (auto simp: thread_ok_def lists_ok_def dll_def)

lemma move_to_unused:
  assumes ok: "thread_ok t us os" and q: "q < NQIDS" and op: "op \<noteq> prepend_outstanding"
  obtains t' where "query_move t q op = Ret t'" "keeps_data t t'"
    "thread_ok t' (fst (moved op q us os)) (remove1 q os)"
proof -
  obtain t' where t': "query_move t q op = Ret t'" "keeps_data t t'"
    "lists_ok t' (fst (moved op q us os)) (snd (moved op q us os))"
    using query_move_ok [of t us os q op] ok thread_ok_slot [OF ok q] by (auto simp: thread_ok_def)
  have d: "distinct us" "distinct os" using ok lists_ok_distinct by (auto simp: thread_ok_def)
  have snd: "snd (moved op q us os) = remove1 q os" using op by (cases op) auto
  have "set (fst (moved op q us os)) \<union> set (remove1 q os) = insert q (set us \<union> set os)"
    using op d by (cases op) auto
  also have "\<dots> = {..<NQIDS}" using ok q by (auto simp: thread_ok_def)
  finally have "thread_ok t' (fst (moved op q us os)) (remove1 q os)"
    using ok t'(3) set_remove1_subset [of q os] keeps_data_simps [OF t'(2)] unfolding snd thread_ok_def by auto
  with t' that show thesis by blast
qed

lemma thread_ok_stats [simp]: "thread_ok (t\<lparr>stats := st\<rparr>) us os \<longleftrightarrow> thread_ok t us os"
  by (simp add: thread_ok_def lists_ok_def)

lemma thread_ok_upd:
  assumes "\<And>r. lprev (f r) = lprev r" "\<And>r. lnext (f r) = lnext r"
    "\<And>r. qlist (f r) = qlist r" "\<And>r. qsock (f r) = qsock r"
  shows "thread_ok (upd_query q f t) us os \<longleftrightarrow> thread_ok t us os"
proof -
  have "qlist (queries (upd_query q f t) x) = qlist (queries t x)"
    "qsock (queries (upd_query q f t) x) = qsock (queries t x)" for x
    using assms by (simp_all add: upd_query_def)
  moreover have "dll (queries (upd_query q f t)) l xs \<longleftrightarrow> dll (queries t) l xs" for l xs
    using dll_upd [OF assms(1,2)] by (simp add: upd_query_def)
  ultimately show ?thesis by (simp add: thread_ok_def lists_ok_def) (simp add: upd_query_def)
qed

lemma time_out_one_ok:
  assumes "thread_ok t us os" "q < NQIDS"
  obtains t' where "time_out_one q t = Ret t'" "keeps_but_stats t t'"
    "thread_ok t' (remove1 q us @ [q]) (remove1 q os)"
    "stats t' = (stats t)\<lparr>num_timedout := num_timedout (stats t) + 1\<rparr>"
proof -
  obtain t' where t': "query_move t q append_unused = Ret t'" "keeps_data t t'"
    "thread_ok t' (fst (moved append_unused q us os)) (remove1 q os)"
    using move_to_unused [OF assms, of append_unused] by auto
  show thesis
    by (rule that [of "t'\<lparr>stats := (stats t')\<lparr>num_timedout := num_timedout (stats t') + 1\<rparr>\<rparr>"])
      (use t' in \<open>simp_all add: time_out_one_def keeps_data_def keeps_but_stats_def\<close>)
qed

section \<open>Time-outs and cancellation\<close>

definition old :: "u64 \<Rightarrow> u64 \<Rightarrow> threadinfo \<Rightarrow> nat \<Rightarrow> bool" where
  "old timeout now t q \<longleftrightarrow> timestamp (queries t q) < now \<and> now - timestamp (queries t q) \<ge> timeout"

lemma thread_ok_outstanding: "thread_ok t us os \<Longrightarrow> q \<in> set os \<Longrightarrow> q < NQIDS"
  by (auto simp: thread_ok_def)

lemma remove1_last: "distinct xs \<Longrightarrow> xs \<noteq> [] \<Longrightarrow> remove1 (last xs) xs = butlast xs"
  by (induction xs rule: rev_induct) (auto simp: remove1_append)

lemma rev_butlast: "xs \<noteq> [] \<Longrightarrow> rev xs = last xs # rev (butlast xs)"
  by (cases xs rule: rev_cases) auto

lemma thread_ok_last:
  assumes "thread_ok t us os" "os \<noteq> []"
  shows "remove1 (last os) os = butlast os" "remove1 (last os) us = us" "last os < NQIDS"
proof -
  have d: "distinct os" "set us \<inter> set os = {}" using assms(1) lists_ok_distinct by (auto simp: thread_ok_def)
  then have "last os \<notin> set us" using last_in_set [OF assms(2)] by blast
  then show "remove1 (last os) us = us" by (rule remove1_idem)
  show "remove1 (last os) os = butlast os" by (rule remove1_last [OF d(1) assms(2)])
  show "last os < NQIDS" using thread_ok_outstanding [OF assms(1)] assms(2) by simp
qed

lemma timeouts_loop_ok:
  assumes "thread_ok t us os" "q < NQIDS" "length (remove1 q os) < fuel"
    and gone: "gone = takeWhile (old timeout now t) (rev (remove1 q os))"
  shows "\<exists>t'. timeouts_loop fuel timeout now q t = Some (Ret t') \<and> keeps_but_stats t t' \<and>
    thread_ok t' (remove1 q us @ [q] @ gone) (rev (dropWhile (old timeout now t) (rev (remove1 q os)))) \<and>
    stats t' = (stats t)\<lparr>num_timedout := num_timedout (stats t) + 1 + of_nat (length gone)\<rparr>"
  using assms
proof (induction fuel arbitrary: q t us os gone)
  case 0
  then show ?case by simp
next
  case (Suc fuel)
  define os1 where "os1 = remove1 q os"
  obtain t1 where t1: "time_out_one q t = Ret t1" "keeps_but_stats t t1"
    "thread_ok t1 (remove1 q us @ [q]) os1"
    "stats t1 = (stats t)\<lparr>num_timedout := num_timedout (stats t) + 1\<rparr>"
    using time_out_one_ok [OF Suc.prems(1,2)] by (auto simp: os1_def)
  note tail = thread_ok_heads(2) [OF t1(3)]
  have ts: "timestamp (queries t1 x) = timestamp (queries t x)" for x
    using keeps_but_stats_simps(8) [OF t1(2)] .
  then have old1: "old timeout now t1 = old timeout now t" by (auto simp: old_def)
  show ?case
  proof (cases "os1 = []")
    case True
    then show ?thesis using t1 tail Suc.prems(4) by (simp flip: os1_def)
  next
    case False
    then have last1: "tail (outstanding_queries t1) = Some (last os1)" using tail by (simp add: final_def)
    note rev1 = rev_butlast [OF False]
    show ?thesis
    proof (cases "old timeout now t (last os1)")
      case False
      then have "timeouts_loop (Suc fuel) timeout now q t = Some (Ret t1)"
        using t1(1) last1 by (auto simp: old_def ts)
      moreover have "gone = []" "dropWhile (old timeout now t) (rev os1) = rev os1"
        using False Suc.prems(4) by (simp_all add: rev1 flip: os1_def)
      ultimately show ?thesis using t1 by (simp flip: os1_def)
    next
      case True
      note l = thread_ok_last [OF t1(3) \<open>os1 \<noteq> []\<close>]
      have step: "timeouts_loop (Suc fuel) timeout now q t = timeouts_loop fuel timeout now (last os1) t1"
        using t1(1) last1 True by (auto simp: old_def ts)
      have len: "length (remove1 (last os1) os1) < fuel"
        using Suc.prems(3) \<open>os1 \<noteq> []\<close> l(1) by (simp flip: os1_def) (cases os1 rule: rev_cases; simp)
      let ?gone1 = "takeWhile (old timeout now t1) (rev (remove1 (last os1) os1))"
      obtain t' where t': "timeouts_loop fuel timeout now (last os1) t1 = Some (Ret t')" "keeps_but_stats t1 t'"
        "thread_ok t' (remove1 (last os1) (remove1 q us @ [q]) @ [last os1] @ ?gone1)
          (rev (dropWhile (old timeout now t1) (rev (remove1 (last os1) os1))))"
        "stats t' = (stats t1)\<lparr>num_timedout := num_timedout (stats t1) + 1 + of_nat (length ?gone1)\<rparr>"
        using Suc.IH [OF t1(3) l(3) len refl] by blast
      have gone: "gone = last os1 # ?gone1"
        using Suc.prems(4) True by (simp add: rev1 l(1) old1 flip: os1_def)
      have drop: "dropWhile (old timeout now t) (rev os1)
          = dropWhile (old timeout now t1) (rev (remove1 (last os1) os1))"
        using True by (simp add: rev1 l(1) old1)
      show ?thesis
        using t' step keeps_but_stats_trans [OF t1(2)] t1(4) l(2)
        by (simp add: gone drop flip: os1_def)
    qed
  qed
qed

lemma process_timeouts_ok:
  assumes "thread_ok t us os"
    and "expired = (if os = [] \<or> timestamp (queries t (last os)) > now \<or>
        now - timestamp (queries t (last os)) < timeout then []
      else last os # takeWhile (old timeout now t) (rev (butlast os)))"
  shows "\<exists>t'. process_timeouts timeout now t = Some (Ret t') \<and>
    thread_ok t' (us @ expired) (take (length os - length expired) os) \<and> keeps_but_stats t t' \<and>
    stats t' = (stats t)\<lparr>num_timedout := num_timedout (stats t) + of_nat (length expired)\<rparr>"
proof (cases "expired = []")
  case True
  then have "process_timeouts timeout now t = Some (Ret t)"
    using assms(2) thread_ok_heads(2) [OF assms(1)]
    by (auto simp: process_timeouts_def timeouts_check_def final_def split: if_splits)
  then show ?thesis using True assms(1) by simp
next
  case False
  then have ne: "os \<noteq> []" and ex: "expired = last os # takeWhile (old timeout now t) (rev (butlast os))"
    and chk: "timeouts_check timeout now t = Some (last os)"
    using assms(2) thread_ok_heads(2) [OF assms(1)]
    by (auto simp: timeouts_check_def final_def split: if_splits)
  note l = thread_ok_last [OF assms(1) ne]
  have "length (remove1 (last os) os) < NQIDS + 1"
    using thread_ok_length [OF assms(1)] length_remove1 [of "last os" os] by (simp split: if_splits)
  then obtain t' where t': "timeouts_loop (NQIDS + 1) timeout now (last os) t = Some (Ret t')" "keeps_but_stats t t'"
    "thread_ok t' (us @ [last os] @ takeWhile (old timeout now t) (rev (butlast os)))
      (rev (dropWhile (old timeout now t) (rev (butlast os))))"
    "stats t' = (stats t)\<lparr>num_timedout := num_timedout (stats t) + 1 +
      of_nat (length (takeWhile (old timeout now t) (rev (butlast os))))\<rparr>"
    using timeouts_loop_ok [OF assms(1) l(3) _ refl, of "NQIDS + 1" timeout now] l by auto
  have "rev (dropWhile P (rev xs)) = take (length xs - length (takeWhile P (rev xs))) xs" for P and xs :: "nat list"
    by (simp add: dropWhile_eq_drop rev_drop)
  then have "rev (dropWhile (old timeout now t) (rev (butlast os))) = take (length os - length expired) os"
    unfolding ex by (simp add: butlast_conv_take)
  then show ?thesis
    using t' chk by (simp add: process_timeouts_def ex)
qed

text \<open>
  C17.  \<^verbatim>\<open>process_timeouts\<close> returns, and moves to the end of the unused queries exactly the
  queries at the end of the outstanding ones that are too old, up to the first that is not:
  the last one unless it was sent later than now or less than a time-out ago, and before it
  those sent before now and at least a time-out ago.  It counts each of them.
\<close>

theorem process_timeouts_correct:
  assumes "thread_ok t us os"
    and "expired = (if os = [] \<or> timestamp (queries t (last os)) > now \<or>
        now - timestamp (queries t (last os)) < timeout then []
      else last os # takeWhile (old timeout now t) (rev (butlast os)))"
  shows "\<exists>t'. process_timeouts timeout now t = Some (Ret t') \<and>
    thread_ok t' (us @ expired) (take (length os - length expired) os) \<and> keeps_but_stats t t' \<and>
    stats t' = (stats t)\<lparr>num_timedout := num_timedout (stats t) + of_nat (length expired)\<rparr>"
  by (rule process_timeouts_ok [OF assms])

lemma cancel_loop_ok:
  assumes "thread_ok t us os" "length os < fuel"
  shows "\<exists>t'. cancel_loop fuel t = Some (Ret t') \<and> thread_ok t' (us @ rev os) [] \<and>
    stats t' = (stats t)\<lparr>num_interrupted := num_interrupted (stats t) +
      of_nat (length (filter (\<lambda>q. timestamp (queries t q) \<noteq> no_time) os))\<rparr>"
  using assms
proof (induction fuel arbitrary: t us os)
  case 0
  then show ?case by simp
next
  case (Suc fuel)
  note tail = thread_ok_heads(2) [OF Suc.prems(1)]
  show ?case
  proof (cases os rule: rev_cases)
    case Nil
    then show ?thesis using Suc.prems tail by simp
  next
    case (snoc os' q)
    then have l: "remove1 q os = os'" "remove1 q us = us" "q < NQIDS"
      using thread_ok_last [OF Suc.prems(1)] by auto
    obtain t1 where t1: "query_move t q append_unused = Ret t1" "keeps_data t t1" "thread_ok t1 (us @ [q]) os'"
      using move_to_unused [OF Suc.prems(1) l(3), of append_unused] l(1,2) by auto
    note k = keeps_data_simps [OF t1(2)]
    define t2 where "t2 = (if timestamp (queries t1 q) = no_time then t1
      else upd_query q (desc_update (\<lambda>_. None))
        (t1\<lparr>stats := (stats t1)\<lparr>num_interrupted := num_interrupted (stats t1) + 1\<rparr>\<rparr>))"
    have "thread_ok t2 (us @ [q]) os'"
      using t1(3) by (simp add: t2_def thread_ok_upd)
    then obtain t' where "cancel_loop fuel t2 = Some (Ret t')" "thread_ok t' ((us @ [q]) @ rev os') []"
      "stats t' = (stats t2)\<lparr>num_interrupted := num_interrupted (stats t2) +
        of_nat (length (filter (\<lambda>q. timestamp (queries t2 q) \<noteq> no_time) os'))\<rparr>"
      using Suc.IH [of t2 "us @ [q]" os'] Suc.prems(2) snoc by auto
    moreover have "timestamp (queries t2 x) = timestamp (queries t x)" for x
      using k by (simp add: t2_def upd_query_def)
    moreover have "cancel_loop (Suc fuel) t = cancel_loop fuel t2"
      using tail snoc t1(1) by (simp add: t2_def)
    ultimately show ?thesis using snoc k by (auto simp: t2_def upd_query_def)
  qed
qed

text \<open>
  Cancelling ends with no outstanding query, and counts as interrupted the outstanding
  queries that had been sent, leaving out one that was being prepared.
\<close>

theorem cancel_queries_correct:
  assumes "thread_ok t us os"
  shows "\<exists>t'. cancel_queries t = Some (Ret t') \<and> thread_ok t' (us @ rev os) [] \<and>
    stats t' = (stats t)\<lparr>num_interrupted := num_interrupted (stats t) +
      of_nat (length (filter (\<lambda>q. timestamp (queries t q) \<noteq> no_time) os))\<rparr>"
  using cancel_loop_ok [OF assms, of "NQIDS + 1"] thread_ok_length [OF assms]
  by (simp add: cancel_queries_def)

section \<open>Initial state\<close>

lemma init_queries:
  "\<exists>h p. fold init_query [0..<n] (\<lambda>_. blank_query, perf_list_init) = (h, p) \<and> dll h p [0..<n] \<and>
    (\<forall>x. link.more (h x) = link.more blank_query)"
proof (induction n)
  case 0
  then show ?case by (simp add: dll_init)
next
  case (Suc n)
  then obtain h p where h: "fold init_query [0..<n] (\<lambda>_. blank_query, perf_list_init) = (h, p)"
    "dll h p [0..<n]" "\<And>x. link.more (h x) = link.more blank_query" by auto
  have d: "dll (perf_link_init n h) p [0..<n]"
    using h(2) by (rule dll_frame) (auto simp: perf_link_init_def)
  obtain h' p' where h': "perf_list_append (perf_link_init n h) p n = (h', p')" by fastforce
  have "dll h' p' ([0..<n] @ [n])" by (rule append_dll [OF d _ h']) simp
  have m: "link.more (h' x) = link.more blank_query" for x
    using append_more [OF h', of x] h(3) by (simp add: perf_link_init_def)
  have "(h' n)\<lparr>qlist := unused_list\<rparr> = h' n"
    using m [of n] by (cases "h' n") (simp add: blank_query_def)
  then have "init_query n (h, p) = (h', p')" using h' by (simp add: init_query_def fun_upd_idem)
  with \<open>dll h' p' ([0..<n] @ [n])\<close> m show ?case using h(1) by simp
qed

lemma threadinfo_init_ok:
  "thread_ok (threadinfo_init histogram mo mq clients threads offset opensocket so) [0..<NQIDS] []"
proof -
  obtain h p where h: "fold init_query [0..<NQIDS] (\<lambda>_. blank_query, perf_list_init) = (h, p)"
    "dll h p [0..<NQIDS]" "\<And>x. link.more (h x) = link.more blank_query" using init_queries by blast
  have "qlist (h x) = unused_list" for x using more_fields [OF h(3), of x] by (simp add: blank_query_def)
  then show ?thesis
    using h(1,2) dll_init [of h]
    by (auto simp: threadinfo_init_def Let_def thread_ok_def lists_ok_def NQIDS_def word_less_nat_alt not_less)
qed

section \<open>Taking a query\<close>

lemma find_socket_frame:
  assumes "find_socket q rs t all_fail = (t', sock, all_fail')" "0 < nsocks t"
  shows "\<exists>c x. t' = upd_query q (qsock_update (\<lambda>_. x)) (t\<lparr>current_sock := c\<rparr>) \<and>
    (\<forall>s. sock = Some s \<longrightarrow> x = Some s \<and> s < nsocks t)"
  using assms
proof (induction rs arbitrary: t all_fail)
  case Nil
  then show ?case
    by (intro exI [of _ "current_sock t"] exI [of _ "qsock (queries t q)"]) (simp add: upd_query_def)
next
  case (Cons r rs)
  let ?s = "unat (current_sock t) mod nsocks t"
  let ?t = "upd_query q (qsock_update (\<lambda>_. None)) (upd_query q (qsock_update (\<lambda>_. Some ?s))
    (t\<lparr>current_sock := current_sock t + 1\<rparr>))"
  have n: "nsocks ?t = nsocks t" by (simp add: upd_query_def)
  have twice: "upd_query q (qsock_update (\<lambda>_. x)) (?t\<lparr>current_sock := c\<rparr>)
      = upd_query q (qsock_update (\<lambda>_. x)) (t\<lparr>current_sock := c\<rparr>)" for x c
    by (simp add: upd_query_def)
  show ?case
  proof (cases r)
    case is_ready
    then show ?thesis
      using Cons.prems by (intro exI [of _ "current_sock t + 1"] exI [of _ "Some ?s"]) (auto simp: Let_def)
  next
    case not_ready
    then have "find_socket q rs ?t False = (t', sock, all_fail')" using Cons.prems by (simp add: Let_def)
    then show ?thesis using Cons.IH [of ?t] Cons.prems(2) n twice by auto
  next
    case failed
    then have "find_socket q rs ?t all_fail = (t', sock, all_fail')" using Cons.prems by (simp add: Let_def)
    then show ?thesis using Cons.IH [of ?t] Cons.prems(2) n twice by auto
  qed
qed

lemma lists_ok_current_sock [simp]: "lists_ok (t\<lparr>current_sock := c\<rparr>) us os \<longleftrightarrow> lists_ok t us os"
  by (simp add: lists_ok_def)

lemma lists_ok_upd:
  assumes "\<And>r. lprev (f r) = lprev r" "\<And>r. lnext (f r) = lnext r" "\<And>r. qlist (f r) = qlist r"
  shows "lists_ok (upd_query q f t) us os \<longleftrightarrow> lists_ok t us os"
proof -
  have "qlist (queries (upd_query q f t) x) = qlist (queries t x)" for x
    using assms by (simp add: upd_query_def)
  moreover have "dll (queries (upd_query q f t)) l xs \<longleftrightarrow> dll (queries t) l xs" for l xs
    using dll_upd [OF assms(1,2)] by (simp add: upd_query_def)
  ultimately show ?thesis by (simp add: lists_ok_def) (simp add: upd_query_def)
qed

text \<open>The data of all queries but one.\<close>

definition keeps_others :: "nat \<Rightarrow> threadinfo \<Rightarrow> threadinfo \<Rightarrow> bool" where
  "keeps_others q t t' \<longleftrightarrow> stats t' = stats t \<and> nsocks t' = nsocks t \<and> socks t' = socks t \<and>
    max_outstanding t' = max_outstanding t \<and> done_sending t' = done_sending t \<and>
    (\<forall>x. x \<noteq> q \<longrightarrow> timestamp (queries t' x) = timestamp (queries t x) \<and>
      desc (queries t' x) = desc (queries t x) \<and> qsock (queries t' x) = qsock (queries t x))"

lemma take_query_ok:
  assumes ok: "thread_ok t us os" and go: "num_outstanding (stats t) < ucast (max_outstanding t)"
    and us: "us = q # us'"
  shows "take_query ready t = Exit 1 \<or>
    (\<exists>t'. take_query ready t = Ret (NoSocket, t') \<and> thread_ok t' us os \<and> keeps_others q t t') \<or>
    (\<exists>t' s. take_query ready t = Ret (Taken q s, t') \<and> thread_ok t' us' (q # os) \<and> keeps_others q t t' \<and>
      timestamp (queries t' q) = no_time \<and> qsock (queries t' q) = Some s)"
proof -
  have l: "lists_ok t us os" using ok by (simp add: thread_ok_def)
  then have q: "q \<notin> set us'" "q \<notin> set os" using us lists_ok_distinct [OF l] by auto
  obtain t1 where t1: "query_move t q prepend_outstanding = Ret t1" "keeps_data t t1" "lists_ok t1 us' (q # os)"
    using query_move_ok [OF l, of q prepend_outstanding] us q by (auto simp: remove1_idem)
  note k = keeps_data_simps [OF t1(2)]
  define t2 where "t2 = upd_query q (timestamp_update (\<lambda>_. no_time)) t1"
  obtain t3 sock af where f: "find_socket q (map ready [0..<nsocks t2 * 2]) t2 True = (t3, sock, af)"
    by (metis prod_cases3)
  have n2: "nsocks t2 = nsocks t" using k by (simp add: t2_def upd_query_def)
  have take: "take_query ready t = (if af then Exit 1
      else case sock of
        None \<Rightarrow> obind (query_move t3 q prepend_unused) (\<lambda>t. Ret (NoSocket, t))
      | Some s \<Rightarrow> Ret (Taken q s, t3))"
    using go us thread_ok_heads(1) [OF ok] t1(1) f
    by (simp add: take_query_def Let_def not_le [symmetric] flip: t2_def)
  show ?thesis
  proof (cases "nsocks t = 0")
    case True
    then have "af" using f n2 by simp
    then show ?thesis using take by simp
  next
    case False
    then obtain c x where t3: "t3 = upd_query q (qsock_update (\<lambda>_. x)) (t2\<lparr>current_sock := c\<rparr>)"
      and x: "\<And>s. sock = Some s \<Longrightarrow> x = Some s \<and> s < nsocks t"
      using find_socket_frame [OF f] n2 by auto
    have l3: "lists_ok t3 us' (q # os)" unfolding t3 t2_def using t1(3) by (simp add: lists_ok_upd)
    have k3: "keeps_others q t t3" "timestamp (queries t3 q) = no_time" "qsock (queries t3 q) = x"
      using k by (simp_all add: t3 t2_def keeps_others_def upd_query_def)
    have os3: "\<forall>p \<in> set os. \<exists>s < nsocks t. qsock (queries t3 p) = Some s"
      using ok q k3(1) by (auto simp: thread_ok_def keeps_others_def)
    show ?thesis
    proof (cases sock)
      case (Some s)
      have "thread_ok t3 us' (q # os)"
        using ok l3 k3 x [OF Some] os3 us by (auto simp: thread_ok_def keeps_others_def)
      then show ?thesis using take Some k3 x [OF Some] by auto
    next
      case None
      obtain t4 where t4: "query_move t3 q prepend_unused = Ret t4" "keeps_data t3 t4" "lists_ok t4 (q # us') os"
        using query_move_ok [OF l3, of q prepend_unused] q by (auto simp: remove1_idem)
      note k4 = keeps_data_simps [OF t4(2)]
      have "thread_ok t4 us os"
        using ok t4(3) k4 k3(1) os3 us by (auto simp: thread_ok_def keeps_others_def)
      moreover have "keeps_others q t t4" using k3(1) k4 by (simp add: keeps_others_def)
      ultimately show ?thesis using take None t4(1) by auto
    qed
  qed
qed

section \<open>Matching responses\<close>

text \<open>A response that was received on one of the thread's sockets.\<close>

definition received_ok :: "threadinfo \<Rightarrow> received_query \<Rightarrow> bool" where
  "received_ok t r \<longleftrightarrow> r_qid r < NQIDS \<and> r_sock r < nsocks t \<and> r_rcode r < DNSPERF_STATS_RCODECOUNTS \<and>
    \<not> r_unexpected r"

text \<open>The response answers a query that is outstanding, sent, and on the same socket.\<close>

definition expected :: "threadinfo \<Rightarrow> nat list \<Rightarrow> received_query \<Rightarrow> bool" where
  "expected t os r \<longleftrightarrow> \<not> r_short r \<and> r_qid r \<in> set os \<and> timestamp (queries t (r_qid r)) \<noteq> no_time \<and>
    (\<exists>s. qsock (queries t (r_qid r)) = Some s \<and> socks t ! s = socks t ! r_sock r)"

lemma match_response_ok:
  assumes ok: "thread_ok t us os" and r: "received_ok t r"
  shows "\<exists>t' r'. match_response t r = Ret (t', r') \<and> stats t' = stats t \<and>
    nsocks t' = nsocks t \<and> socks t' = socks t \<and> max_outstanding t' = max_outstanding t \<and>
    done_sending t' = done_sending t \<and>
    (\<forall>x. timestamp (queries t' x) = timestamp (queries t x) \<and> qsock (queries t' x) = qsock (queries t x)) \<and>
    r_qid r' = r_qid r \<and> r_short r' = r_short r \<and> r_rcode r' = r_rcode r \<and> r_size r' = r_size r \<and> r_when r' = r_when r \<and>
    (if expected t os r
     then thread_ok t' (us @ [r_qid r]) (remove1 (r_qid r) os) \<and> \<not> r_unexpected r' \<and>
       r_sent r' = timestamp (queries t (r_qid r))
     else thread_ok t' us os \<and> (r_short r' \<or> r_unexpected r'))"
proof -
  let ?q = "r_qid r"
  have q: "?q < NQIDS" using r by (simp add: received_ok_def)
  have mem: "?q \<in> set us \<union> set os" by (rule thread_ok_slot [OF ok q])
  have disj: "set us \<inter> set os = {}" and lst: "\<forall>q \<in> set us. qlist (queries t q) = unused_list"
    "\<forall>q \<in> set os. qlist (queries t q) = outstanding_list"
    using ok by (auto simp: thread_ok_def lists_ok_def)
  have list: "qlist (queries t ?q) = outstanding_list \<longleftrightarrow> ?q \<in> set os"
    using mem lst by (cases "?q \<in> set os") auto
  have sock: "?q \<in> set os \<Longrightarrow> \<exists>s. qsock (queries t ?q) = Some s" using ok by (auto simp: thread_ok_def)
  show ?thesis
  proof (cases "expected t os r")
    case True
    then have "?q \<notin> set us" using disj by (auto simp: expected_def)
    then obtain t1 where t1: "query_move t ?q append_unused = Ret t1" "keeps_data t t1"
      "thread_ok t1 (us @ [?q]) (remove1 ?q os)"
      using move_to_unused [OF ok q, of append_unused] by (auto simp: remove1_idem)
    note k = keeps_data_simps [OF t1(2)]
    let ?t' = "upd_query ?q (desc_update (\<lambda>_. None)) t1"
    let ?r' = "r\<lparr>r_sent := timestamp (queries t1 ?q), r_desc := desc (queries t1 ?q)\<rparr>"
    obtain s where "\<not> r_short r" "qlist (queries t ?q) = outstanding_list"
      "timestamp (queries t ?q) \<noteq> no_time" "qsock (queries t ?q) = Some s" "socks t ! s = socks t ! r_sock r"
      using True list by (auto simp: expected_def)
    then have m: "match_response t r = Ret (?t', ?r')"
      using t1(1) by (simp add: match_response_def perf_net_sockeq_def Let_def)
    show ?thesis
      by (intro exI [of _ ?t'] exI [of _ ?r'])
        (use m True t1(3) k r in \<open>simp add: thread_ok_upd received_ok_def, simp add: upd_query_def\<close>)
  next
    case False
    have "match_response t r = Ret (t, if r_short r then r else r\<lparr>r_unexpected := True\<rparr>)"
    proof (cases "r_short r \<or> ?q \<notin> set os \<or> timestamp (queries t ?q) = no_time")
      case True
      then show ?thesis using list by (auto simp: match_response_def)
    next
      case sent: False
      then obtain s where "qsock (queries t ?q) = Some s" using sock by auto
      moreover have "socks t ! s \<noteq> socks t ! r_sock r"
        using False sent \<open>qsock (queries t ?q) = Some s\<close> by (auto simp: expected_def)
      ultimately show ?thesis using sent list by (simp add: match_response_def perf_net_sockeq_def Let_def)
    qed
    then show ?thesis using False ok by simp
  qed
qed

definition accepted :: "received_query \<Rightarrow> bool" where
  "accepted r \<longleftrightarrow> \<not> r_short r \<and> \<not> r_unexpected r"

text \<open>The identifiers of the accepted responses.\<close>

definition answered :: "received_query list \<Rightarrow> nat list" where
  "answered rs = map r_qid (filter accepted rs)"

lemma answered_simps [simp]: "answered [] = []"
  "answered (r # rs) = (if accepted r then r_qid r # answered rs else answered rs)"
  by (simp_all add: answered_def)

lemma match_responses_ok:
  assumes "thread_ok t us os" "\<forall>r \<in> set rs. received_ok t r"
  shows "\<exists>t' rs'. match_responses t rs = Ret (t', rs') \<and> length rs' = length rs \<and> stats t' = stats t \<and>
    (\<forall>x. timestamp (queries t' x) = timestamp (queries t x)) \<and>
    distinct (answered rs') \<and> set (answered rs') \<subseteq> set os \<and>
    thread_ok t' (us @ answered rs')
      (filter (\<lambda>q. q \<notin> set (answered rs')) os) \<and>
    (\<forall>r \<in> set rs'. accepted r \<longrightarrow> r_sent r = timestamp (queries t (r_qid r)) \<and> r_sent r \<noteq> no_time)"
  using assms
proof (induction rs arbitrary: t us os)
  case Nil
  then show ?case by simp
next
  case (Cons r rs)
  obtain t1 r' where m: "match_response t r = Ret (t1, r')" "stats t1 = stats t" "nsocks t1 = nsocks t"
    "\<And>x. timestamp (queries t1 x) = timestamp (queries t x)" "r_qid r' = r_qid r" "r_short r' = r_short r"
    and c: "if expected t os r
     then thread_ok t1 (us @ [r_qid r]) (remove1 (r_qid r) os) \<and> \<not> r_unexpected r' \<and>
       r_sent r' = timestamp (queries t (r_qid r))
     else thread_ok t1 us os \<and> (r_short r' \<or> r_unexpected r')"
    using match_response_ok [OF Cons.prems(1), of r] Cons.prems(2) by auto
  have rs: "\<forall>r \<in> set rs. received_ok t1 r" using Cons.prems(2) m(3) by (simp add: received_ok_def)
  show ?case
  proof (cases "expected t os r")
    case False
    then have "thread_ok t1 us os" "\<not> accepted r'" using c by (auto simp: accepted_def)
    then obtain t' rs' where "match_responses t1 rs = Ret (t', rs')" "length rs' = length rs" "stats t' = stats t1"
      "\<forall>x. timestamp (queries t' x) = timestamp (queries t1 x)"
      "distinct (answered rs')" "set (answered rs') \<subseteq> set os"
      "thread_ok t' (us @ answered rs')
        (filter (\<lambda>q. q \<notin> set (answered rs')) os)"
      "\<forall>r \<in> set rs'. accepted r \<longrightarrow> r_sent r = timestamp (queries t1 (r_qid r)) \<and> r_sent r \<noteq> no_time"
      using Cons.IH [OF _ rs] by blast
    then show ?thesis using m \<open>\<not> accepted r'\<close> by auto
  next
    case True
    let ?q = "r_qid r"
    have t1: "thread_ok t1 (us @ [?q]) (remove1 ?q os)" and acc: "accepted r'" "r_sent r' = timestamp (queries t ?q)"
      using True c m(6) by (auto simp: accepted_def expected_def)
    obtain t' rs' where ih: "match_responses t1 rs = Ret (t', rs')" "length rs' = length rs" "stats t' = stats t1"
      "\<forall>x. timestamp (queries t' x) = timestamp (queries t1 x)"
      "distinct (answered rs')" "set (answered rs') \<subseteq> set (remove1 ?q os)"
      "thread_ok t' ((us @ [?q]) @ answered rs')
        (filter (\<lambda>q. q \<notin> set (answered rs')) (remove1 ?q os))"
      "\<forall>r \<in> set rs'. accepted r \<longrightarrow> r_sent r = timestamp (queries t1 (r_qid r)) \<and> r_sent r \<noteq> no_time"
      using Cons.IH [OF t1 rs] by blast
    have d: "distinct os" using Cons.prems(1) lists_ok_distinct by (auto simp: thread_ok_def)
    have "filter (\<lambda>q. q \<notin> set (answered (r' # rs'))) os
        = filter (\<lambda>q. q \<notin> set (answered rs')) (remove1 ?q os)"
      using d acc(1) by (auto simp: distinct_remove1_removeAll removeAll_filter_not_eq m(5) intro!: filter_cong)
    moreover have "?q \<notin> set (answered rs')" "?q \<in> set os"
      using ih(6) d True by (auto simp: expected_def)
    moreover have "timestamp (queries t ?q) \<noteq> no_time" using True by (simp add: expected_def)
    ultimately show ?thesis
      using ih m acc d set_remove1_subset [of ?q os]
      by (intro exI [of _ t'] exI [of _ "r' # rs'"]) auto
  qed
qed


section \<open>Sharing the limits\<close>

lemma unat_per_thread:
  assumes "nthreads \<noteq> 0" "offset < 2 ^ 32"
  shows "unat (per_thread tot nthreads offset) =
    unat tot div unat nthreads + (if offset < unat tot mod unat nthreads then 1 else 0)"
proof -
  let ?t = "unat tot" and ?n = "unat nthreads" and ?v = "tot div nthreads"
  have v: "unat ?v = ?t div ?n" by (simp add: unat_div_distrib)
  have "?t div ?n * ?n \<le> ?t" by simp
  then have p: "unat (?v * nthreads) = ?t div ?n * ?n"
    by (metis le_less_trans unat_mult_lem unsigned_less v)
  have t: "?t = ?t div ?n * ?n + ?t mod ?n" by simp
  have temp: "?v * nthreads < tot \<longleftrightarrow> ?t mod ?n \<noteq> 0" "unat (tot - ?v * nthreads) = ?t mod ?n"
  proof -
    have "?t div ?n * ?n < ?t \<longleftrightarrow> ?t mod ?n \<noteq> 0" using t by linarith
    then show "?v * nthreads < tot \<longleftrightarrow> ?t mod ?n \<noteq> 0" by (simp only: word_less_nat_alt p)
    have "?v * nthreads \<le> tot" using t by (simp only: word_le_nat_alt p)
    then show "unat (tot - ?v * nthreads) = ?t mod ?n" using t by (simp only: unat_sub p)
  qed
  have off: "unat (of_nat offset :: u32) = offset"
    using assms(2) by (simp add: unsigned_of_nat take_bit_nat_eq_self)
  have plus: "unat (?v + 1) = ?t div ?n + 1" if "offset < ?t mod ?n"
  proof -
    have "?n \<noteq> 1" using that by auto
    then have "1 < ?n" using assms(1) by (metis One_nat_def Suc_lessI unat_gt_0)
    moreover have "0 < ?t" using that by (metis gr0I mod_0 not_less_zero)
    ultimately have "?t div ?n < ?t" by simp
    then have "unat ?v + unat (1 :: u32) < 2 ^ LENGTH(32)"
      using v unsigned_less [of tot, where ?'a = nat] by simp
    then have "unat (?v + 1) = unat ?v + unat (1 :: u32)" by (simp only: unat_add_lem)
    then show ?thesis using v by simp
  qed
  show ?thesis
    using v temp off plus by (auto simp: per_thread_def Let_def word_less_nat_alt)
qed

text \<open>
  The limits of the threads (sockets, queries per second, outstanding queries) add up to
  the limit that was configured, and differ by at most one.
\<close>

theorem per_thread_sums:
  assumes "nthreads \<noteq> 0"
  shows "(\<Sum>i < unat nthreads. unat (per_thread tot nthreads i)) = unat tot \<and>
    (\<forall>i < unat nthreads. unat (per_thread tot nthreads i) \<in> {unat tot div unat nthreads, unat tot div unat nthreads + 1})"
proof -
  let ?t = "unat tot" and ?n = "unat nthreads"
  have lt: "i < 2 ^ 32" if "i < ?n" for i using that unsigned_less [of nthreads, where ?'a = nat] by simp
  have pos: "0 < ?n" using assms by (simp add: unat_gt_0)
  have "(\<Sum>i < ?n. unat (per_thread tot nthreads i)) = (\<Sum>i < ?n. ?t div ?n + (if i < ?t mod ?n then 1 else 0))"
    using unat_per_thread [OF assms lt] by (intro sum.cong) auto
  also have "\<dots> = ?n * (?t div ?n) + card {i \<in> {..<?n}. i < ?t mod ?n}"
    by (simp add: sum.distrib flip: sum.inter_filter)
  also have "{i \<in> {..<?n}. i < ?t mod ?n} = {..<?t mod ?n}" using mod_less_divisor [OF pos, of ?t] by auto
  finally show ?thesis using unat_per_thread [OF assms lt] by auto
qed

theorem per_thread_sums_witness:
  "(\<Sum>i < unat (4 :: u32). unat (per_thread 10 4 i)) = unat (10 :: u32)"
  using per_thread_sums [of 4 10] by simp

section \<open>An example\<close>

text \<open>One thread with one socket, and the state after its first query has been taken.\<close>

definition example_thread :: threadinfo where
  "example_thread = threadinfo_init False 10 0 1 1 0 (\<lambda>_. 5) 0"

lemma take_query_ready:
  assumes ok: "thread_ok t us os" and go: "num_outstanding (stats t) < ucast (max_outstanding t)"
    and us: "us = q # us'" and ready: "ready 0 = is_ready" "0 < nsocks t"
  shows "\<exists>t' s. take_query ready t = Ret (Taken q s, t') \<and> thread_ok t' us' (q # os) \<and> keeps_others q t t'"
proof -
  obtain t1 where t1: "query_move t q prepend_outstanding = Ret t1" "keeps_data t t1"
    using query_move_ok [of t us os q prepend_outstanding] ok us by (auto simp: thread_ok_def)
  have "[0..<nsocks t * 2] = 0 # [1..<nsocks t * 2]" using ready(2) by (simp add: upt_conv_Cons)
  then have "\<exists>t' s. take_query ready t = Ret (Taken q s, t')"
    using go us thread_ok_heads(1) [OF ok] t1 keeps_data_simps [OF t1(2)] ready(1)
    by (simp add: take_query_def Let_def not_le [symmetric] upd_query_def)
  then show ?thesis using take_query_ok [OF ok go us, of ready] by auto
qed

lemma example_thread_facts:
  "thread_ok example_thread [0..<NQIDS] []" "nsocks example_thread = 1" "stats example_thread = cleared False"
  "max_outstanding example_thread = 10"
proof -
  have "unat (per_thread 1 1 0) = 1" "unat (per_thread 10 1 0) = 10"
    using unat_per_thread [of 1 0 1] unat_per_thread [of 1 0 10] by simp_all
  then have "per_thread 1 1 0 = 1" "per_thread 10 1 0 = 10"
    by (simp_all add: word_unat_eq_iff)
  then show "nsocks example_thread = 1" "stats example_thread = cleared False" "max_outstanding example_thread = 10"
    by (simp_all add: example_thread_def threadinfo_init_def Let_def MAX_SOCKETS_def NQIDS_def split_beta)
qed (simp add: example_thread_def threadinfo_init_ok)

lemma example_taken:
  obtains t where "thread_ok t [1..<NQIDS] [0]" "timestamp (queries t 0) = 5" "stats t = cleared False" "nsocks t = 1"
proof -
  note f = example_thread_facts
  have "0 < NQIDS" by (simp add: NQIDS_def)
  then have split: "[0..<NQIDS] = 0 # [1..<NQIDS]" using upt_conv_Cons [of 0 NQIDS] by simp
  have go: "num_outstanding (stats example_thread) < ucast (max_outstanding example_thread)"
    by (simp add: f num_outstanding_def cleared_def)
  obtain t s where t: "take_query (\<lambda>_. is_ready) example_thread = Ret (Taken 0 s, t)"
    "thread_ok t [1..<NQIDS] [0]" "keeps_others 0 example_thread t"
    using take_query_ready [OF f(1) go split, of "\<lambda>_. is_ready"] f(2) by auto
  show thesis
    by (rule that [of "upd_query 0 (timestamp_update (\<lambda>_. 5)) t"])
      (use t f in \<open>simp_all add: thread_ok_upd keeps_others_def\<close>, simp_all add: upd_query_def)
qed

theorem process_timeouts_correct_witness:
  "\<exists>t t'. thread_ok t [1..<NQIDS] [0] \<and> process_timeouts 10 20 t = Some (Ret t') \<and>
    thread_ok t' ([1..<NQIDS] @ [0]) [] \<and> num_timedout (stats t') = 1"
proof -
  obtain t where t: "thread_ok t [1..<NQIDS] [0]" "timestamp (queries t 0) = 5" "stats t = cleared False"
    using example_taken by blast
  show ?thesis using process_timeouts_correct [OF t(1) refl, of 10 20] t by (auto simp: cleared_def)
qed

theorem cancel_queries_correct_witness:
  "\<exists>t t'. thread_ok t [1..<NQIDS] [0] \<and> cancel_queries t = Some (Ret t') \<and>
    thread_ok t' ([1..<NQIDS] @ [0]) [] \<and> num_interrupted (stats t') = 1"
proof -
  obtain t where t: "thread_ok t [1..<NQIDS] [0]" "timestamp (queries t 0) = 5" "stats t = cleared False"
    using example_taken by blast
  show ?thesis using cancel_queries_correct [OF t(1)] t by (auto simp: cleared_def no_time_def)
qed


end
