(* ===== verification/Workers.thy ===== *)
theory Workers
  imports Threads
begin

text \<open>
  The sender and the receiver of a thread of \<^verbatim>\<open>dnsperf.c\<close> running against each other.  A step
  is what one of them does between two points where the other may come in: a section under
  the lock of the thread, or a change of shared data outside it.  The results of the network,
  of the input file and of the clock are arbitrary.  The component \<open>stale\<close> is not in the
  code: it counts the moves to the unused queries of a query that the other thread has put
  there already.
\<close>

section \<open>Steps\<close>

text \<open>
  Where the sender (\<^verbatim>\<open>do_send\<close>) is: before taking a query, with a taken query, with a query that
  has its time stamp, after a successful \<^verbatim>\<open>perf_net_sendto\<close> of some bytes, or out of its loop
  (with the query in hand when the input has ended).
\<close>

datatype sender_pc = S_idle | S_taken nat | S_stamped nat | S_sent nat u64 | S_done "nat option"

text \<open>
  Where the receiver (\<^verbatim>\<open>do_recv\<close>) is: before a round, having read an expired query at the tail
  without the lock, or counting the responses of a batch.
\<close>

datatype receiver_pc = R_idle | R_expire nat u64 | R_count "received_query list"

record system =
  thr :: threadinfo
  spc :: sender_pc
  rpc :: receiver_pc
  stale :: nat

definition RECV_BATCH_SIZE :: nat where
  "RECV_BATCH_SIZE = 16"

definition is_stale :: "nat \<Rightarrow> threadinfo \<Rightarrow> nat" where
  "is_stale q t = (if qlist (queries t q) = outstanding_list then 0 else 1)"

definition count_sent :: "u64 \<Rightarrow> stats_t \<Rightarrow> stats_t" where
  "count_sent len st = st\<lparr>num_sent := num_sent st + 1, total_request_size := total_request_size st + len\<rparr>"

inductive step :: "u64 \<Rightarrow> system \<Rightarrow> system \<Rightarrow> bool" for timeout :: u64 where
  take_none:
    "spc s = S_idle \<Longrightarrow> take_query ready (thr s) = Ret (r, t) \<Longrightarrow> r \<in> {Limited, NoSocket} \<Longrightarrow>
      step timeout s (s\<lparr>thr := t\<rparr>)"
| take_ok:
    "spc s = S_idle \<Longrightarrow> take_query ready (thr s) = Ret (Taken q sock, t) \<Longrightarrow>
      step timeout s (s\<lparr>thr := t, spc := S_taken q\<rparr>)"
| stop:
    "spc s = S_idle \<Longrightarrow> step timeout s (s\<lparr>spc := S_done None\<rparr>)"
| input_end:
    "spc s = S_taken q \<Longrightarrow> step timeout s (s\<lparr>spc := S_done (Some q)\<rparr>)"
| build_failed:
    "spc s = S_taken q \<Longrightarrow> query_move (thr s) q prepend_unused = Ret t \<Longrightarrow>
      step timeout s (s\<lparr>thr := t, spc := S_idle, stale := stale s + is_stale q (thr s)\<rparr>)"
| stamp:
    "spc s = S_taken q \<Longrightarrow>
      step timeout s (s\<lparr>thr := upd_query q (timestamp_update (\<lambda>_. now) \<circ> desc_update (\<lambda>_. d)) (thr s), spc := S_stamped q\<rparr>)"
| send_ok:
    "spc s = S_stamped q \<Longrightarrow> step timeout s (s\<lparr>spc := S_sent q len\<rparr>)"
| send_failed:
    "spc s = S_stamped q \<Longrightarrow> query_move (thr s) q prepend_unused = Ret t \<Longrightarrow>
      step timeout s (s\<lparr>thr := t, spc := S_idle, stale := stale s + is_stale q (thr s)\<rparr>)"
| sent:
    "spc s = S_sent q len \<Longrightarrow>
      step timeout s (s\<lparr>thr := (thr s)\<lparr>stats := count_sent len (stats (thr s))\<rparr>, spc := S_idle\<rparr>)"
| finish:
    "spc s = S_done h \<Longrightarrow>
      step timeout s (s\<lparr>thr := (thr s)\<lparr>done_send_time := now, done_sending := True\<rparr>\<rparr>)"
| delayed_send:
    "q < NQIDS \<Longrightarrow> step timeout s (s\<lparr>thr := perf__net_sent q now (thr s)\<rparr>)"
| connection:
    "step timeout s (s\<lparr>thr := (thr s)\<lparr>stats := perf__net_event event elapsed (stats (thr s))\<rparr>\<rparr>)"
| expire_check:
    "rpc s = R_idle \<Longrightarrow> timeouts_check timeout now (thr s) = Some q \<Longrightarrow>
      step timeout s (s\<lparr>rpc := R_expire q now\<rparr>)"
| expire:
    "rpc s = R_expire q now \<Longrightarrow> timeouts_loop (NQIDS + 1) timeout now q (thr s) = Some (Ret t) \<Longrightarrow>
      step timeout s (s\<lparr>thr := t, rpc := R_idle, stale := stale s + is_stale q (thr s)\<rparr>)"
| receive:
    "rpc s = R_idle \<Longrightarrow> length rs \<le> RECV_BATCH_SIZE \<Longrightarrow> \<forall>r \<in> set rs. received_ok (thr s) r \<Longrightarrow>
      match_responses (thr s) rs = Ret (t, rs') \<Longrightarrow>
      step timeout s (s\<lparr>thr := t, rpc := R_count rs'\<rparr>)"
| count:
    "rpc s = R_count (r # rs) \<Longrightarrow>
      step timeout s (s\<lparr>thr := (thr s)\<lparr>stats := count_received r (stats (thr s))\<rparr>, rpc := R_count rs\<rparr>)"
| counted:
    "rpc s = R_count [] \<Longrightarrow>
      step timeout s (s\<lparr>thr := (thr s)\<lparr>last_recv := now\<rparr>, rpc := R_idle\<rparr>)"

text \<open>The states reachable from a new thread.\<close>

inductive reachable :: "u64 \<Rightarrow> system \<Rightarrow> bool" for timeout :: u64 where
  start:
    "reachable timeout \<lparr>thr = threadinfo_init histogram mo mq clients threads offset opensocket so,
      spc = S_idle, rpc = R_idle, stale = 0\<rparr>"
| step: "reachable timeout s \<Longrightarrow> step timeout s s' \<Longrightarrow> reachable timeout s'"

section \<open>The invariant\<close>

text \<open>The query the sender has in hand, not yet counted as sent.\<close>

fun in_hand :: "sender_pc \<Rightarrow> nat option" where
  "in_hand S_idle = None"
| "in_hand (S_taken q) = Some q"
| "in_hand (S_stamped q) = Some q"
| "in_hand (S_sent q len) = Some q"
| "in_hand (S_done h) = h"

definition holds :: "sender_pc \<Rightarrow> nat" where
  "holds pc = (if in_hand pc = None then 0 else 1)"

text \<open>The query in hand that has no time stamp yet.\<close>

fun unsent :: "sender_pc \<Rightarrow> nat option" where
  "unsent (S_taken q) = Some q"
| "unsent (S_done h) = h"
| "unsent _ = None"

fun waiting :: "receiver_pc \<Rightarrow> received_query list" where
  "waiting (R_count rs) = rs"
| "waiting _ = []"

definition uncounted :: "receiver_pc \<Rightarrow> nat" where
  "uncounted pc = length (filter accepted (waiting pc))"

definition pcs_ok :: "system \<Rightarrow> nat list \<Rightarrow> bool" where
  "pcs_ok s os \<longleftrightarrow> (\<forall>q. in_hand (spc s) = Some q \<longrightarrow> q < NQIDS) \<and>
    (\<forall>q now. rpc s = R_expire q now \<longrightarrow> q < NQIDS) \<and>
    length (waiting (rpc s)) \<le> RECV_BATCH_SIZE \<and>
    (\<forall>q. unsent (spc s) = Some q \<longrightarrow> timestamp (queries (thr s) q) = no_time \<and>
      (q \<in> set os \<longrightarrow> q = hd os))"

definition balanced :: "system \<Rightarrow> nat list \<Rightarrow> bool" where
  "balanced s os \<longleftrightarrow>
    num_sent (stats (thr s)) + of_nat (holds (spc s) + stale s) =
    of_nat (length os + uncounted (rpc s)) + num_completed (stats (thr s)) + num_timedout (stats (thr s))"

definition system_ok :: "system \<Rightarrow> nat list \<Rightarrow> nat list \<Rightarrow> bool" where
  "system_ok s us os \<longleftrightarrow> thread_ok (thr s) us os \<and> pcs_ok s os \<and> balanced s os"

lemma thread_ok_flags [simp]:
  "thread_ok (t\<lparr>done_send_time := a, done_sending := b\<rparr>) us os \<longleftrightarrow> thread_ok t us os"
  "thread_ok (t\<lparr>last_recv := c\<rparr>) us os \<longleftrightarrow> thread_ok t us os"
  by (simp_all add: thread_ok_def lists_ok_def)

lemma upd_query_simps [simp]:
  "stats (upd_query q f t) = stats t"
  "nsocks (upd_query q f t) = nsocks t"
  "timestamp (queries (upd_query q f t) x) = (if x = q then timestamp (f (queries t q)) else timestamp (queries t x))"
  by (simp_all add: upd_query_def)

lemma is_stale_length:
  assumes "thread_ok t us os" "q < NQIDS"
  shows "is_stale q t + length os = length (remove1 q os) + 1"
proof (cases "q \<in> set os")
  case True
  then have "qlist (queries t q) = outstanding_list" using assms(1) by (auto simp: thread_ok_def lists_ok_def)
  moreover have "0 < length os" using True by (rule length_pos_if_in_set)
  ultimately show ?thesis using True by (simp add: is_stale_def length_remove1 del: length_greater_0_conv)
next
  case False
  then have "qlist (queries t q) = unused_list"
    using assms thread_ok_slot [OF assms] by (auto simp: thread_ok_def lists_ok_def)
  then show ?thesis using False by (simp add: is_stale_def remove1_idem)
qed

text \<open>The counters of the queries under the operations that do not concern them.\<close>

lemma counters_unchanged [simp]:
  "num_sent (perf__net_event e el st) = num_sent st"
  "num_completed (perf__net_event e el st) = num_completed st"
  "num_timedout (perf__net_event e el st) = num_timedout st"
  "num_sent (count_received r st) = num_sent st"
  "num_timedout (count_received r st) = num_timedout st"
  "num_completed (count_received r st) = num_completed st + (if accepted r then 1 else 0)"
  "num_sent (count_sent len st) = num_sent st + 1"
  "num_completed (count_sent len st) = num_completed st"
  "num_timedout (count_sent len st) = num_timedout st"
  by (simp_all add: perf__net_event_def count_connection_def count_received_def count_response_def
      count_sent_def accepted_def Let_def split: perf_socket_event.split)

lemma exchange:
  fixes sent h st len p c t i r k :: u64
  assumes "sent + (h + st) = len + p + c + t" "i + len = r + k"
  shows "sent + (st + i) + h = r + p + c + t + k"
proof -
  have "sent + (st + i) + h = (sent + (h + st)) + i" by (simp add: ac_simps)
  also have "\<dots> = (len + p + c + t) + i" by (simp only: assms(1))
  also have "\<dots> = (i + len) + p + c + t" by (simp add: ac_simps)
  finally show ?thesis by (simp only: assms(2)) (simp add: ac_simps)
qed

lemma move_back_ok:
  assumes ok: "system_ok s us os" and q: "in_hand (spc s) = Some q"
    and t: "query_move (thr s) q prepend_unused = Ret t"
  shows "\<exists>us' os'. system_ok (s\<lparr>thr := t, spc := S_idle, stale := stale s + is_stale q (thr s)\<rparr>) us' os'"
proof -
  have th: "thread_ok (thr s) us os" and qn: "q < NQIDS" using ok q by (auto simp: system_ok_def pcs_ok_def)
  obtain t' where t': "query_move (thr s) q prepend_unused = Ret t'" "keeps_data (thr s) t'"
    "thread_ok t' (q # remove1 q us) (remove1 q os)"
    using move_to_unused [OF th qn, of prepend_unused] by auto
  have len: "of_nat (is_stale q (thr s)) + of_nat (length os) = (of_nat (length (remove1 q os)) + 1 :: u64)"
    using arg_cong [OF is_stale_length [OF th qn], of "of_nat :: nat \<Rightarrow> u64"] by simp
  have "num_sent (stats (thr s)) + (1 + of_nat (stale s)) =
      of_nat (length os) + of_nat (uncounted (rpc s)) + num_completed (stats (thr s)) + num_timedout (stats (thr s))"
    using ok q by (simp add: system_ok_def balanced_def holds_def)
  from exchange [OF this len]
  have "balanced (s\<lparr>thr := t, spc := S_idle, stale := stale s + is_stale q (thr s)\<rparr>) (remove1 q os)"
    using t t'(1) keeps_data_simps(1) [OF t'(2)] by (simp add: balanced_def holds_def)
  then show ?thesis using t' t ok by (auto simp: system_ok_def pcs_ok_def)
qed

lemma take_ok:
  assumes ok: "system_ok s us os" and pc: "spc s = S_idle" and t: "take_query ready (thr s) = Ret (r, t)"
  shows "case r of
      Taken q sock \<Rightarrow> \<exists>us' os'. system_ok (s\<lparr>thr := t, spc := S_taken q\<rparr>) us' os'
    | _ \<Rightarrow> system_ok (s\<lparr>thr := t\<rparr>) us os"
proof -
  have th: "thread_ok (thr s) us os" using ok by (simp add: system_ok_def)
  show ?thesis
  proof (cases "num_outstanding (stats (thr s)) < ucast (max_outstanding (thr s))")
    case False
    then have "r = Limited" "t = thr s" using t by (simp_all add: take_query_def not_less)
    then show ?thesis using ok by simp
  next
    case True
    show ?thesis
    proof (cases us)
      case Nil
      then have "take_query ready (thr s) = UB"
        using True thread_ok_heads(1) [OF th] by (simp add: take_query_def)
      then show ?thesis using t by simp
    next
      case (Cons q us')
      consider t' where "take_query ready (thr s) = Ret (NoSocket, t')" "thread_ok t' us os" "keeps_others q (thr s) t'"
        | t' sock where "take_query ready (thr s) = Ret (Taken q sock, t')" "thread_ok t' us' (q # os)"
          "keeps_others q (thr s) t'" "timestamp (queries t' q) = no_time"
        using take_query_ok [OF th True Cons, of ready] t by auto
      then show ?thesis
      proof cases
        case 1
        then show ?thesis
          using t ok pc by (auto simp: system_ok_def pcs_ok_def balanced_def keeps_others_def)
      next
        case 2
        then have "q < NQIDS" using thread_ok_outstanding [of t' us' "q # os"] by auto
        then have "system_ok (s\<lparr>thr := t', spc := S_taken q\<rparr>) us' (q # os)"
          using 2 ok pc by (auto simp: system_ok_def pcs_ok_def balanced_def keeps_others_def holds_def)
        then show ?thesis using 2(1) t by auto
      qed
    qed
  qed
qed

lemma expire_ok:
  assumes ok: "system_ok s us os" and pc: "rpc s = R_expire q now"
    and t: "timeouts_loop (NQIDS + 1) timeout now q (thr s) = Some (Ret t)"
  shows "\<exists>us' os'. system_ok (s\<lparr>thr := t, rpc := R_idle, stale := stale s + is_stale q (thr s)\<rparr>) us' os'"
proof -
  have th: "thread_ok (thr s) us os" and qn: "q < NQIDS" using ok pc by (auto simp: system_ok_def pcs_ok_def)
  define gone where "gone = takeWhile (old timeout now (thr s)) (rev (remove1 q os))"
  define os' where "os' = rev (dropWhile (old timeout now (thr s)) (rev (remove1 q os)))"
  have split: "remove1 q os = os' @ rev gone"
    unfolding gone_def os'_def by (metis rev_append rev_rev_ident takeWhile_dropWhile_id)
  have "length (remove1 q os) < NQIDS + 1"
    using thread_ok_length [OF th] length_remove1 [of q os] by (simp split: if_splits)
  then have t': "keeps_but_stats (thr s) t" "thread_ok t (remove1 q us @ [q] @ gone) os'"
    "stats t = (stats (thr s))\<lparr>num_timedout := num_timedout (stats (thr s)) + 1 + of_nat (length gone)\<rparr>"
    using timeouts_loop_ok [OF th qn _ gone_def, of "NQIDS + 1"] t unfolding os'_def by auto
  have "is_stale q (thr s) + length os = length os' + (length gone + 1)"
    using is_stale_length [OF th qn] by (simp add: split)
  from arg_cong [OF this, of "of_nat :: nat \<Rightarrow> u64"]
  have len: "of_nat (is_stale q (thr s)) + of_nat (length os) =
      (of_nat (length os') + (of_nat (length gone) + 1) :: u64)" by simp
  have "num_sent (stats (thr s)) + (of_nat (holds (spc s)) + of_nat (stale s)) =
      of_nat (length os) + 0 + num_completed (stats (thr s)) + num_timedout (stats (thr s))"
    using ok pc by (simp add: system_ok_def balanced_def uncounted_def)
  from exchange [OF this len]
  have "balanced (s\<lparr>thr := t, rpc := R_idle, stale := stale s + is_stale q (thr s)\<rparr>) os'"
    using t'(3) by (simp add: balanced_def uncounted_def ac_simps)
  moreover have "u = hd os'" if u: "unsent (spc s) = Some u" "u \<in> set os'" for u
  proof -
    have d: "distinct os" using th lists_ok_distinct by (auto simp: thread_ok_def)
    have "u \<in> set (remove1 q os)" using u(2) by (simp add: split)
    then have "u \<in> set os" "u \<noteq> q" using d by auto
    then have "u = hd os" "os \<noteq> []" using ok u(1) by (auto simp: system_ok_def pcs_ok_def)
    then have "u = hd (remove1 q os)" using \<open>u \<noteq> q\<close> by (cases os) auto
    then show ?thesis using u(2) by (auto simp: split hd_append)
  qed
  ultimately show ?thesis
    using t'(1,2) ok keeps_but_stats_simps(8) [OF t'(1)]
    by (intro exI) (auto simp: system_ok_def pcs_ok_def)
qed

lemma receive_ok:
  assumes ok: "system_ok s us os" and pc: "rpc s = R_idle" and rs: "length rs \<le> RECV_BATCH_SIZE"
    "\<forall>r \<in> set rs. received_ok (thr s) r" and t: "match_responses (thr s) rs = Ret (t, rs')"
  shows "\<exists>us' os'. system_ok (s\<lparr>thr := t, rpc := R_count rs'\<rparr>) us' os'"
proof -
  have th: "thread_ok (thr s) us os" using ok by (simp add: system_ok_def)
  define os' where "os' = filter (\<lambda>q. q \<notin> set (answered rs')) os"
  have m: "length rs' = length rs" "stats t = stats (thr s)"
    "\<And>x. timestamp (queries t x) = timestamp (queries (thr s) x)"
    "distinct (answered rs')" "set (answered rs') \<subseteq> set os" "thread_ok t (us @ answered rs') os'"
    "\<And>r. r \<in> set rs' \<Longrightarrow> accepted r \<Longrightarrow> timestamp (queries (thr s) (r_qid r)) \<noteq> no_time"
    using match_responses_ok [OF th rs(2)] t by (auto simp: os'_def)
  have d: "distinct os" using th lists_ok_distinct by (auto simp: thread_ok_def)
  have "length os = length os' + length (answered rs')"
  proof -
    have "set os' = set os - set (answered rs')" "distinct os'" using d by (auto simp: os'_def)
    then have "length os' = card (set os) - card (set (answered rs'))"
      using card_Diff_subset [OF _ m(5)] distinct_card by fastforce
    moreover have "card (set (answered rs')) \<le> card (set os)" using m(5) by (simp add: card_mono)
    ultimately show ?thesis using distinct_card [OF d] distinct_card [OF m(4)] by simp
  qed
  moreover have "length (answered rs') = uncounted (R_count rs')" by (simp add: answered_def uncounted_def)
  ultimately have "balanced (s\<lparr>thr := t, rpc := R_count rs'\<rparr>) os'"
    using ok pc m(2) by (simp add: system_ok_def balanced_def uncounted_def)
  moreover have "timestamp (queries t u) = no_time \<and> (u \<in> set os' \<longrightarrow> u = hd os')"
    if u: "unsent (spc s) = Some u" for u
  proof -
    have ts: "timestamp (queries (thr s) u) = no_time" and hd: "u \<in> set os \<Longrightarrow> u = hd os"
      using ok u by (auto simp: system_ok_def pcs_ok_def)
    have "u \<notin> set (answered rs')" using m(7) ts by (auto simp: answered_def)
    then have "u = hd os'" if "u \<in> set os'" using hd that by (cases os) (auto simp: os'_def)
    then show ?thesis using ts m(3) by simp
  qed
  ultimately show ?thesis using m(1,6) rs(1) ok by (intro exI) (auto simp: system_ok_def pcs_ok_def)
qed

lemma step_ok:
  assumes "step timeout s s'" "system_ok s us os"
  shows "\<exists>us' os'. system_ok s' us' os'"
  using assms
proof (cases rule: step.cases)
  case (take_none ready r t)
  then show ?thesis using take_ok [OF assms(2), of ready r t] by (cases r) auto
next
  case (take_ok ready q sock t)
  then show ?thesis using Workers.take_ok [OF assms(2), of ready "Taken q sock" t] by auto
next
  case stop
  then show ?thesis using assms(2) by (intro exI [of _ us] exI [of _ os]) (auto simp: system_ok_def pcs_ok_def balanced_def holds_def)
next
  case (input_end q)
  then show ?thesis using assms(2) by (intro exI [of _ us] exI [of _ os]) (auto simp: system_ok_def pcs_ok_def balanced_def holds_def)
next
  case (build_failed q t)
  then show ?thesis using move_back_ok [OF assms(2)] by simp
next
  case (stamp q now d)
  then show ?thesis
    using assms(2) by (intro exI [of _ us] exI [of _ os])
      (auto simp: system_ok_def pcs_ok_def balanced_def holds_def thread_ok_upd)
next
  case (send_ok q len)
  then show ?thesis using assms(2) by (intro exI [of _ us] exI [of _ os]) (auto simp: system_ok_def pcs_ok_def balanced_def holds_def)
next
  case (send_failed q t)
  then show ?thesis using move_back_ok [OF assms(2)] by simp
next
  case (sent q len)
  then show ?thesis
    using assms(2) by (intro exI [of _ us] exI [of _ os]) (auto simp: system_ok_def pcs_ok_def balanced_def holds_def algebra_simps)
next
  case (finish h now)
  then show ?thesis using assms(2) by (intro exI [of _ us] exI [of _ os]) (auto simp: system_ok_def pcs_ok_def balanced_def)
next
  case (delayed_send q now)
  then show ?thesis
    using assms(2) by (intro exI [of _ us] exI [of _ os])
      (auto simp: system_ok_def pcs_ok_def balanced_def perf__net_sent_def thread_ok_upd)
next
  case (connection event elapsed)
  then show ?thesis using assms(2) by (intro exI [of _ us] exI [of _ os]) (auto simp: system_ok_def pcs_ok_def balanced_def)
next
  case (expire_check now q)
  have th: "thread_ok (thr s) us os" using assms(2) by (simp add: system_ok_def)
  then have "os \<noteq> []" "q = last os"
    using expire_check thread_ok_heads(2) [OF th]
    by (auto simp: timeouts_check_def final_def split: option.splits if_splits)
  then have "q < NQIDS" using thread_ok_outstanding [OF th] by simp
  then show ?thesis
    using expire_check assms(2) by (intro exI [of _ us] exI [of _ os]) (auto simp: system_ok_def pcs_ok_def balanced_def uncounted_def)
next
  case (expire q now t)
  then show ?thesis using expire_ok [OF assms(2)] by simp
next
  case (receive rs t rs')
  then show ?thesis using receive_ok [OF assms(2)] by simp
next
  case (count r rs)
  then show ?thesis
    using assms(2) by (intro exI [of _ us] exI [of _ os]) (auto simp: system_ok_def pcs_ok_def balanced_def uncounted_def algebra_simps)
next
  case (counted now)
  then show ?thesis using assms(2) by (intro exI [of _ us] exI [of _ os]) (auto simp: system_ok_def pcs_ok_def balanced_def uncounted_def)
qed

lemma reachable_ok: "reachable timeout s \<Longrightarrow> \<exists>us os. system_ok s us os"
proof (induction rule: reachable.induct)
  case (start histogram mo mq clients threads offset opensocket so)
  let ?t = "threadinfo_init histogram mo mq clients threads offset opensocket so"
  have "stats ?t = cleared histogram" by (simp add: threadinfo_init_def Let_def split_beta)
  then show ?case
    using threadinfo_init_ok [of histogram mo mq clients threads offset opensocket so]
    by (intro exI) (auto simp: system_ok_def pcs_ok_def balanced_def holds_def uncounted_def cleared_def)
next
  case (step s s')
  then show ?case using step_ok by blast
qed

section \<open>Consequences\<close>

text \<open>
  C12.  In every interleaving of sender and receiver each of the 65536 query slots is in exactly
  one of the two lists, every outstanding query has a socket of the thread, and the counters
  balance: the queries sent, the one the sender has in hand and the stale moves are together
  the outstanding queries, the responses taken but not yet counted, the completed and the
  timed-out ones (modulo \<open>2 ^ 64\<close>).
\<close>

theorem queries_balance:
  assumes "reachable timeout s"
  shows "\<exists>us os. thread_ok (thr s) us os \<and> length us + length os = NQIDS \<and>
    num_sent (stats (thr s)) + of_nat (holds (spc s) + stale s) =
    of_nat (length os + uncounted (rpc s)) + num_completed (stats (thr s)) + num_timedout (stats (thr s))"
  using reachable_ok [OF assms] thread_ok_length unfolding system_ok_def balanced_def by blast

definition no_wrap :: "stats_t \<Rightarrow> bool" where
  "no_wrap st \<longleftrightarrow> unat (num_sent st) < 2 ^ 63 \<and> unat (num_completed st) + unat (num_timedout st) < 2 ^ 63"

lemma holds_le: "holds pc \<le> 1"
  by (simp add: holds_def)

lemma balanced_nat:
  assumes ok: "system_ok s us os" and "stale s = 0" "no_wrap (stats (thr s))"
  shows "unat (num_sent (stats (thr s))) + holds (spc s) =
    length os + uncounted (rpc s) + unat (num_completed (stats (thr s))) + unat (num_timedout (stats (thr s)))"
proof -
  let ?st = "stats (thr s)"
  let ?l = "unat (num_sent ?st) + holds (spc s)"
  let ?r = "length os + uncounted (rpc s) + unat (num_completed ?st) + unat (num_timedout ?st)"
  have os: "length os \<le> 65536" using thread_ok_length [of "thr s" us os] ok by (simp add: system_ok_def NQIDS_def)
  have "length (waiting (rpc s)) \<le> 16" using ok by (simp add: system_ok_def pcs_ok_def RECV_BATCH_SIZE_def)
  then have p: "uncounted (rpc s) \<le> 16" unfolding uncounted_def by (rule le_trans [OF length_filter_le])
  have small: "?l < 2 ^ 64" "?r < 2 ^ 64"
    using os p assms(3) holds_le [of "spc s"] by (simp_all add: no_wrap_def)
  have "(of_nat ?l :: u64) = of_nat ?r"
    using ok assms(2) by (simp add: system_ok_def balanced_def)
  then have "unat (of_nat ?l :: u64) = unat (of_nat ?r :: u64)" by simp
  then show ?thesis by (simp only: unat_of_nat64 [OF small(1)] unat_of_nat64 [OF small(2)])
qed

lemma unat_num_outstanding:
  assumes "no_wrap st"
  shows "unat (num_outstanding st) = unat (num_sent st) - (unat (num_completed st) + unat (num_timedout st))"
proof -
  have sum: "unat (num_completed st + num_timedout st) = unat (num_completed st) + unat (num_timedout st)"
    using assms by (subst unat_add_lem [THEN iffD1]) (simp_all add: no_wrap_def)
  show ?thesis
  proof (cases "num_completed st + num_timedout st > num_sent st")
    case True
    then show ?thesis by (simp add: num_outstanding_def word_less_nat_alt sum)
  next
    case False
    then have "num_completed st + num_timedout st \<le> num_sent st" by simp
    then have "unat (num_sent st - (num_completed st + num_timedout st)) =
        unat (num_sent st) - (unat (num_completed st) + unat (num_timedout st))"
      by (simp only: unat_sub sum)
    then show ?thesis using False by (simp add: num_outstanding_def diff_diff_eq)
  qed
qed

lemma num_outstanding_exact:
  assumes "system_ok s us os" "stale s = 0" "no_wrap (stats (thr s))"
  shows "unat (num_outstanding (stats (thr s))) = length os + uncounted (rpc s) - holds (spc s)"
  using balanced_nat [OF assms] unat_num_outstanding [OF assms(3)] by simp



text \<open>
  C15.  In every reachable state the operations that work on the lists return, whatever the
  query and the responses: no assertion of the list macros or of the socket comparison fails,
  no null pointer is followed, and the loops end.
\<close>

theorem list_operations_return:
  assumes "reachable timeout s" "q < NQIDS" "\<forall>r \<in> set rs. received_ok (thr s) r"
  shows "(op \<noteq> prepend_outstanding \<longrightarrow> returns (query_move (thr s) q op)) \<and>
    returns (match_responses (thr s) rs) \<and>
    (\<exists>t. timeouts_loop (NQIDS + 1) timeout now q (thr s) = Some (Ret t)) \<and>
    (\<exists>t. cancel_queries (thr s) = Some (Ret t))"
proof -
  obtain us os where th: "thread_ok (thr s) us os" using reachable_ok [OF assms(1)] by (auto simp: system_ok_def)
  have len: "length (remove1 q os) < NQIDS + 1" "length os < NQIDS + 1"
    using thread_ok_length [OF th] length_remove1 [of q os] by (auto split: if_splits)
  have "op \<noteq> prepend_outstanding \<Longrightarrow> returns (query_move (thr s) q op)"
    using move_to_unused [OF th assms(2), of op] by (auto simp: returns_iff)
  moreover have "returns (match_responses (thr s) rs)"
    using match_responses_ok [OF th assms(3)] by (auto simp: returns_iff)
  moreover have "\<exists>t. timeouts_loop (NQIDS + 1) timeout now q (thr s) = Some (Ret t)"
    using timeouts_loop_ok [OF th assms(2) len(1) refl] by blast
  moreover have "\<exists>t. cancel_queries (thr s) = Some (Ret t)"
    using cancel_loop_ok [OF th len(2)] by (auto simp: cancel_queries_def)
  ultimately show ?thesis by blast
qed

text \<open>
  The number of queries a round of time-outs removes, when only the query in hand is not old.
\<close>

lemma all_but_head_expire:
  assumes "distinct os" "\<And>q. q \<in> set os \<Longrightarrow> q \<noteq> u \<Longrightarrow> old timeout now t q" "u \<in> set os \<Longrightarrow> u = hd os"
    and "expired = (if os = [] \<or> timestamp (queries t (last os)) > now \<or>
        now - timestamp (queries t (last os)) < timeout then []
      else last os # takeWhile (old timeout now t) (rev (butlast os)))"
  shows "length os \<le> length expired + (if u \<in> set os then 1 else 0)"
proof (cases "os = [] \<or> os = [u]")
  case True
  then show ?thesis by auto
next
  case False
  then obtain ys y where os: "os = ys @ [y]" by (cases os rule: rev_cases) auto
  have "y \<noteq> u"
  proof
    assume "y = u"
    then have "y = hd os" using assms(3) os by simp
    then show False using False assms(1) os \<open>y = u\<close> by (cases ys) auto
  qed
  then have "old timeout now t y" using assms(2) os by simp
  then have ex: "expired = y # takeWhile (old timeout now t) (rev ys)"
    using assms(4) os by (auto simp: old_def)
  show ?thesis
  proof (cases "u \<in> set ys")
    case False
    then have all: "takeWhile (old timeout now t) (rev ys) = rev ys"
      using assms(2) os by (auto simp: takeWhile_eq_all_conv)
    show ?thesis by (simp add: ex os all)
  next
    case True
    then obtain zs where ys: "ys = u # zs" using assms(3) os by (cases ys) auto
    then have "u \<notin> set zs" using assms(1) os by simp
    then have "\<And>x. x \<in> set (rev zs) \<Longrightarrow> old timeout now t x" using assms(2) os ys by auto
    then have "takeWhile (old timeout now t) (rev zs @ [u]) = rev zs @ takeWhile (old timeout now t) [u]"
      by (rule takeWhile_append2)
    then show ?thesis by (simp add: ex os ys)
  qed
qed


section \<open>An example run\<close>

definition example_start :: system where
  "example_start = \<lparr>thr = example_thread, spc = S_idle, rpc = R_idle, stale = 0\<rparr>"

lemma example_start_reachable: "reachable timeout example_start"
  unfolding example_start_def example_thread_def by (rule reachable.start)

lemma example_sent:
  obtains s where "reachable timeout s" "spc s = S_done None" "rpc s = R_idle" "stale s = 0"
    "stats (thr s) = count_sent 30 (cleared False)" "thread_ok (thr s) [1..<NQIDS] [0]"
    "timestamp (queries (thr s) 0) = 5" "nsocks (thr s) = 1"
proof -
  note f = example_thread_facts
  have "0 < NQIDS" by (simp add: NQIDS_def)
  then have split: "[0..<NQIDS] = 0 # [1..<NQIDS]" using upt_conv_Cons [of 0 NQIDS] by simp
  have go: "num_outstanding (stats example_thread) < ucast (max_outstanding example_thread)"
    by (simp add: f num_outstanding_def cleared_def)
  obtain t sock where t: "take_query (\<lambda>_. is_ready) example_thread = Ret (Taken 0 sock, t)"
    "thread_ok t [1..<NQIDS] [0]" "keeps_others 0 example_thread t"
    using take_query_ready [OF f(1) go split, of "\<lambda>_. is_ready"] f(2) by auto
  define s1 where "s1 = example_start\<lparr>thr := t, spc := S_taken 0\<rparr>"
  have r1: "reachable timeout s1"
    unfolding s1_def by (rule reachable.step [OF example_start_reachable], rule step.take_ok [where ready = "\<lambda>_. is_ready" and sock = sock])
      (simp_all add: example_start_def t(1))
  define s2 where "s2 = s1\<lparr>thr := upd_query 0 (timestamp_update (\<lambda>_. 5) \<circ> desc_update (\<lambda>_. None)) (thr s1), spc := S_stamped 0\<rparr>"
  have r2: "reachable timeout s2"
    unfolding s2_def by (rule reachable.step [OF r1], rule step.stamp) (simp add: s1_def)
  define s3 where "s3 = s2\<lparr>spc := S_sent 0 30\<rparr>"
  have r3: "reachable timeout s3"
    unfolding s3_def by (rule reachable.step [OF r2], rule step.send_ok) (simp add: s2_def)
  define s4 where "s4 = s3\<lparr>thr := (thr s3)\<lparr>stats := count_sent 30 (stats (thr s3))\<rparr>, spc := S_idle\<rparr>"
  have r4: "reachable timeout s4"
    unfolding s4_def by (rule reachable.step [OF r3], rule step.sent) (simp add: s3_def)
  have r5: "reachable timeout (s4\<lparr>spc := S_done None\<rparr>)"
    by (rule reachable.step [OF r4], rule step.stop) (simp add: s4_def)
  show thesis
    by (rule that [OF r5])
      (use t f in \<open>simp_all add: s4_def s3_def s2_def s1_def example_start_def keeps_others_def thread_ok_upd\<close>)
qed

theorem queries_balance_witness:
  "\<exists>s us os. reachable 10 s \<and> num_sent (stats (thr s)) = 1 \<and> thread_ok (thr s) us os \<and>
    length us + length os = NQIDS \<and>
    num_sent (stats (thr s)) + of_nat (holds (spc s) + stale s) =
    of_nat (length os + uncounted (rpc s)) + num_completed (stats (thr s)) + num_timedout (stats (thr s))"
proof -
  obtain s where s: "reachable 10 s" "stats (thr s) = count_sent 30 (cleared False)" using example_sent by blast
  then have "num_sent (stats (thr s)) = 1" by (simp add: cleared_def count_sent_def)
  then show ?thesis using queries_balance [OF s(1)] s(1) by blast
qed



theorem list_operations_return_witness:
  "\<exists>s t. reachable 10 s \<and> num_sent (stats (thr s)) = 1 \<and>
    timeouts_loop (NQIDS + 1) 10 20 0 (thr s) = Some (Ret t) \<and> returns (match_responses (thr s) [])"
proof -
  obtain s where s: "reachable 10 s" "stats (thr s) = count_sent 30 (cleared False)" using example_sent by blast
  then have "num_sent (stats (thr s)) = 1" "0 < NQIDS" by (simp_all add: cleared_def count_sent_def NQIDS_def)
  then show ?thesis using list_operations_return [OF s(1), of 0 "[]"] s(1) by fastforce
qed


end
