(* ===== verification/Buffer.thy ===== *)
theory Buffer
  imports Prelude
begin

text \<open>
  The message buffer of \<^verbatim>\<open>buffer.h\<close>: a memory block of a fixed length with a count of
  used bytes, written to by appending. Every macro that checks its space with
  \<^verbatim>\<open>assert\<close> is an operation with an \<open>Abort\<close> outcome. The lemmas turn any sequence of
  writes into one write of the concatenated bytes, which is how the clients reason
  about a message, and the locale \<open>byte_sink\<close> states that contract.
\<close>

section \<open>The structure and its macros\<close>

record perf_buffer =
  buf_base :: bytes
  buf_length :: nat
  buf_used :: nat
  buf_current :: nat
  buf_active :: nat

definition perf_buffer_init :: "bytes \<Rightarrow> nat \<Rightarrow> perf_buffer" where
  "perf_buffer_init mem len =
     \<lparr>buf_base = mem, buf_length = len, buf_used = 0, buf_current = 0, buf_active = 0\<rparr>"

definition perf_buffer_add :: "perf_buffer \<Rightarrow> nat \<Rightarrow> perf_buffer outcome" where
  "perf_buffer_add b n =
     (if buf_used b + n \<le> buf_length b then Ret (b\<lparr>buf_used := buf_used b + n\<rparr>) else Abort)"

definition perf_buffer_availablelength :: "perf_buffer \<Rightarrow> nat" where
  "perf_buffer_availablelength b = size_sub (buf_length b) (buf_used b)"

definition perf_buffer_clear :: "perf_buffer \<Rightarrow> perf_buffer" where
  "perf_buffer_clear b = b\<lparr>buf_used := 0, buf_current := 0, buf_active := 0\<rparr>"

text \<open>The bytes are copied to \<^verbatim>\<open>perf_buffer_used(b)\<close>, the first unused byte.\<close>

definition buf_store :: "perf_buffer \<Rightarrow> bytes \<Rightarrow> perf_buffer" where
  "buf_store b bs = b\<lparr>buf_base := mem_write (buf_base b) (buf_used b) bs\<rparr>"

definition perf_buffer_putmem :: "perf_buffer \<Rightarrow> bytes \<Rightarrow> perf_buffer outcome" where
  "perf_buffer_putmem b bs =
     (if perf_buffer_availablelength b \<ge> length bs
      then perf_buffer_add (buf_store b bs) (length bs) else Abort)"

definition perf_buffer_putuint8 :: "perf_buffer \<Rightarrow> u8 \<Rightarrow> perf_buffer outcome" where
  "perf_buffer_putuint8 b v =
     (if perf_buffer_availablelength b \<ge> 1
      then Ret ((buf_store b [v])\<lparr>buf_used := buf_used b + 1\<rparr>) else Abort)"

definition perf_buffer_putuint16 :: "perf_buffer \<Rightarrow> u16 \<Rightarrow> perf_buffer outcome" where
  "perf_buffer_putuint16 b v =
     (if perf_buffer_availablelength b \<ge> 2
      then Ret ((buf_store b [ucast (drop_bit 8 v), ucast v])\<lparr>buf_used := buf_used b + 2\<rparr>)
      else Abort)"

definition perf_buffer_putuint32 :: "perf_buffer \<Rightarrow> u32 \<Rightarrow> perf_buffer outcome" where
  "perf_buffer_putuint32 b v =
     (if perf_buffer_availablelength b \<ge> 4
      then Ret ((buf_store b [ucast (drop_bit 24 v), ucast (drop_bit 16 v),
                              ucast (drop_bit 8 v), ucast v])\<lparr>buf_used := buf_used b + 4\<rparr>)
      else Abort)"

definition perf_buffer_usedregion :: "perf_buffer \<Rightarrow> bytes" where
  "perf_buffer_usedregion b = take (buf_used b) (buf_base b)"

section \<open>Invariant and the effect of a write\<close>

definition buf_wf :: "perf_buffer \<Rightarrow> bool" where
  "buf_wf b \<longleftrightarrow> buf_used b \<le> buf_length b \<and> buf_length b \<le> length (buf_base b)"

text \<open>What a write of \<open>bs\<close> that fits leaves behind.\<close>

definition bput :: "perf_buffer \<Rightarrow> bytes \<Rightarrow> perf_buffer" where
  "bput b bs = b\<lparr>buf_base := mem_write (buf_base b) (buf_used b) bs,
                 buf_used := buf_used b + length bs\<rparr>"

definition fits :: "perf_buffer \<Rightarrow> nat \<Rightarrow> bool" where
  "fits b n \<longleftrightarrow> buf_used b + n \<le> buf_length b"

lemma bput_simps [simp]:
  "buf_used (bput b bs) = buf_used b + length bs"
  "buf_length (bput b bs) = buf_length b"
  "buf_base (bput b bs) = mem_write (buf_base b) (buf_used b) bs"
  by (simp_all add: bput_def)

lemma bput_Nil [simp]: "bput b [] = b"
  by (simp add: bput_def)

lemma fits_bput [simp]: "fits (bput b xs) n \<longleftrightarrow> fits b (length xs + n)"
  by (simp add: fits_def ac_simps)

lemma fits_0 [simp]: "buf_wf b \<Longrightarrow> fits b 0"
  by (simp add: fits_def buf_wf_def)

lemma fits_mono: "fits b n \<Longrightarrow> m \<le> n \<Longrightarrow> fits b m"
  by (simp add: fits_def)

lemma buf_wf_bput [wf_intros]: "buf_wf b \<Longrightarrow> fits b (length bs) \<Longrightarrow> buf_wf (bput b bs)"
  by (simp add: buf_wf_def fits_def)

lemma bput_bput [simp]:
  "buf_wf b \<Longrightarrow> fits b (length xs + length ys) \<Longrightarrow> bput (bput b xs) ys = bput b (xs @ ys)"
  by (simp add: buf_wf_def fits_def bput_def)

lemma usedregion_bput [simp]:
  "buf_wf b \<Longrightarrow> fits b (length bs) \<Longrightarrow>
   perf_buffer_usedregion (bput b bs) = perf_buffer_usedregion b @ bs"
  by (simp add: perf_buffer_usedregion_def buf_wf_def fits_def)

lemma length_usedregion [simp]: "buf_wf b \<Longrightarrow> length (perf_buffer_usedregion b) = buf_used b"
  by (simp add: perf_buffer_usedregion_def buf_wf_def)

lemma availablelength_wf: "buf_wf b \<Longrightarrow> perf_buffer_availablelength b = buf_length b - buf_used b"
  by (simp add: perf_buffer_availablelength_def buf_wf_def)

lemma availablelength_fits: "buf_wf b \<Longrightarrow> n \<le> perf_buffer_availablelength b \<longleftrightarrow> fits b n"
  by (auto simp: availablelength_wf fits_def buf_wf_def)

lemma buf_wf_init: "len \<le> length mem \<Longrightarrow> buf_wf (perf_buffer_init mem len)"
  by (simp add: buf_wf_def perf_buffer_init_def)

lemma buf_wf_clear [wf_intros]: "buf_wf b \<Longrightarrow> buf_wf (perf_buffer_clear b)"
  by (simp add: buf_wf_def perf_buffer_clear_def)

lemma usedregion_clear [simp]: "perf_buffer_usedregion (perf_buffer_clear b) = []"
  by (simp add: perf_buffer_usedregion_def perf_buffer_clear_def)

lemma fits_clear: "fits (perf_buffer_clear b) n \<longleftrightarrow> n \<le> buf_length b"
  by (simp add: fits_def perf_buffer_clear_def)

lemma usedregion_init [simp]: "perf_buffer_usedregion (perf_buffer_init mem len) = []"
  by (simp add: perf_buffer_usedregion_def perf_buffer_init_def)

lemma putmem_wf: "buf_wf b \<Longrightarrow>
  perf_buffer_putmem b bs = (if fits b (length bs) then Ret (bput b bs) else Abort)"
  by (simp add: perf_buffer_putmem_def availablelength_fits perf_buffer_add_def buf_store_def
      bput_def fits_def)

lemma putuint8_wf: "buf_wf b \<Longrightarrow>
  perf_buffer_putuint8 b v = (if fits b 1 then Ret (bput b [v]) else Abort)"
  by (simp add: perf_buffer_putuint8_def availablelength_fits buf_store_def bput_def)

lemma putuint16_wf: "buf_wf b \<Longrightarrow>
  perf_buffer_putuint16 b v = (if fits b 2 then Ret (bput b (be16 v)) else Abort)"
  by (simp add: perf_buffer_putuint16_def availablelength_fits buf_store_def bput_def be16_def)

lemma putuint32_wf: "buf_wf b \<Longrightarrow>
  perf_buffer_putuint32 b v = (if fits b 4 then Ret (bput b (be32 v)) else Abort)"
  by (simp add: perf_buffer_putuint32_def availablelength_fits buf_store_def bput_def be32_def)

lemmas put_wf = putmem_wf putuint8_wf putuint16_wf putuint32_wf

text \<open>
  When the space is there a write succeeds. The rules carry the space as a premise, so
  that the simplifier executes a run of writes into a single \<open>bput\<close>.
\<close>

lemma put_fits [put_simps]:
  assumes "buf_wf b"
  shows "fits b (length bs) \<Longrightarrow> perf_buffer_putmem b bs = Ret (bput b bs)"
    and "fits b 1 \<Longrightarrow> perf_buffer_putuint8 b v = Ret (bput b [v])"
    and "fits b 2 \<Longrightarrow> perf_buffer_putuint16 b w = Ret (bput b (be16 w))"
    and "fits b 4 \<Longrightarrow> perf_buffer_putuint32 b x = Ret (bput b (be32 x))"
  using assms by (simp_all add: put_wf)

text \<open>A zeroed buffer of \<open>n\<close> bytes.\<close>

definition fresh :: "nat \<Rightarrow> perf_buffer" where
  "fresh n = perf_buffer_init (replicate n 0) n"

lemma fresh_simps [simp]:
  "buf_wf (fresh n)" "fits (fresh n) k \<longleftrightarrow> k \<le> n" "buf_used (fresh n) = 0"
  "buf_length (fresh n) = n" "perf_buffer_usedregion (fresh n) = []"
  by (simp_all add: fresh_def buf_wf_init fits_def) (simp_all add: perf_buffer_init_def)

section \<open>Writing into the header of a message\<close>

text \<open>\<^verbatim>\<open>base[i]++\<close> on a byte of the message already written.\<close>

definition buf_incr :: "perf_buffer \<Rightarrow> nat \<Rightarrow> perf_buffer outcome" where
  "buf_incr b i = (if i < length (buf_base b)
     then Ret (b\<lparr>buf_base := (buf_base b)[i := buf_base b ! i + 1]\<rparr>) else UB)"

lemma buf_incr_wf:
  assumes "buf_wf b" and "i < buf_used b"
  shows "\<exists>b'. buf_incr b i = Ret b' \<and> buf_wf b' \<and> buf_used b' = buf_used b \<and>
    buf_length b' = buf_length b \<and>
    perf_buffer_usedregion b' =
      (perf_buffer_usedregion b)[i := perf_buffer_usedregion b ! i + 1]"
  using assms
  by (simp add: buf_incr_def buf_wf_def perf_buffer_usedregion_def take_update_swap)

section \<open>The contract of a byte sink\<close>

text \<open>
  What the message builders rely on: writes append to the contents as long as the space
  lasts and stop the program otherwise. \<open>sink_append\<close> is the law that lets a client
  treat two writes as one.
\<close>

locale byte_sink =
  fixes put :: "'s \<Rightarrow> bytes \<Rightarrow> 's outcome"
    and contents :: "'s \<Rightarrow> bytes"
    and room :: "'s \<Rightarrow> nat \<Rightarrow> bool"
    and invar :: "'s \<Rightarrow> bool"
  assumes put_room: "invar s \<Longrightarrow> room s (length bs) \<Longrightarrow> \<exists>s'. put s bs = Ret s' \<and>
      invar s' \<and> contents s' = contents s @ bs \<and> (\<forall>n. room s' n \<longleftrightarrow> room s (length bs + n))"
    and put_no_room: "invar s \<Longrightarrow> \<not> room s (length bs) \<Longrightarrow> put s bs = Abort"
    and room_mono: "room s n \<Longrightarrow> m \<le> n \<Longrightarrow> room s m"
begin

fun puts :: "'s \<Rightarrow> bytes list \<Rightarrow> 's outcome" where
  "puts s [] = Ret s"
| "puts s (bs # bss) = obind (put s bs) (\<lambda>s. puts s bss)"

lemma puts_contents:
  "invar s \<Longrightarrow> room s (length (concat bss)) \<Longrightarrow>
   \<exists>s'. puts s bss = Ret s' \<and> invar s' \<and> contents s' = contents s @ concat bss"
proof (induction bss arbitrary: s)
  case Nil
  then show ?case by simp
next
  case (Cons bs bss)
  then have "room s (length bs)" by (auto intro: room_mono)
  with Cons.prems obtain s1 where s1: "put s bs = Ret s1" "invar s1"
      "contents s1 = contents s @ bs" "\<forall>n. room s1 n \<longleftrightarrow> room s (length bs + n)"
    using put_room by blast
  with Cons.prems have "room s1 (length (concat bss))" by simp
  with Cons.IH [OF s1(2)] s1 show ?case by auto
qed

lemma puts_abort_iff:
  "invar s \<Longrightarrow> room s 0 \<Longrightarrow> puts s bss = Abort \<longleftrightarrow> \<not> room s (length (concat bss))"
proof (induction bss arbitrary: s)
  case Nil
  then show ?case by simp
next
  case (Cons bs bss)
  show ?case
  proof (cases "room s (length bs)")
    case True
    with Cons.prems obtain s1 where s1: "put s bs = Ret s1" "invar s1"
        "\<forall>n. room s1 n \<longleftrightarrow> room s (length bs + n)"
      using put_room by blast
    moreover from s1 True have "room s1 0" by simp
    ultimately show ?thesis using Cons.IH by simp
  next
    case False
    with Cons.prems have "put s bs = Abort" by (simp add: put_no_room)
    moreover have "\<not> room s (length (concat (bs # bss)))"
      using False room_mono [of s "length (concat (bs # bss))" "length bs"] by auto
    ultimately show ?thesis by simp
  qed
qed

end

interpretation pb: byte_sink perf_buffer_putmem perf_buffer_usedregion fits buf_wf
  by unfold_locales (auto simp: putmem_wf wf_intros fits_def)

end
