(* ===== verification/Dname.thy ===== *)
theory Dname
  imports Buffer
begin

text \<open>
  Domain names: \<^verbatim>\<open>perf_dname_fromstring\<close> of \<^verbatim>\<open>dns.c\<close>, which turns a name in
  presentation format, with \<^verbatim>\<open>\DDD\<close> and \<^verbatim>\<open>\.\<close> escapes, into wire format. The
  model keeps the two passes of the code over each label: a scan that measures it and a
  copy. The specification \<open>dname_spec\<close> unescapes a name into a list of labels in one pass,
  \<open>wire_name\<close> is the wire format of a list of labels and \<open>unwire\<close> an independent
  decoder of it.
\<close>

section \<open>The code\<close>

text \<open>
  The first loop over a label: the number of bytes of the label and whether it holds an
  escape, or \<open>None\<close> where the code returns \<^verbatim>\<open>PERF_R_FAILURE\<close>.
\<close>

fun scan_label :: "bytes \<Rightarrow> nat \<Rightarrow> bool \<Rightarrow> (nat \<times> bool) option" where
  "scan_label [] label_len is_quoted = Some (label_len, is_quoted)"
| "scan_label (c # cs) label_len is_quoted =
     (if c = ch CHR 0x5C then
        (case cs of [] \<Rightarrow> None
         | d # ds \<Rightarrow>
             if isdigit d then
               (case ds of [] \<Rightarrow> None
                | e # es \<Rightarrow>
                    if \<not> isdigit e then None
                    else (case es of [] \<Rightarrow> None
                          | f # fs \<Rightarrow> if \<not> isdigit f then None
                                     else scan_label fs (label_len + 1) True))
             else scan_label ds (label_len + 1) True)
      else if c = ch CHR ''.'' then Some (label_len, is_quoted)
      else scan_label cs (label_len + 1) is_quoted)"

text \<open>
  Both loops look at a label in the same seven ways; the induction rule follows them.
\<close>

lemma label_induct [case_names Nil Trunc BadNum Num Esc Dot Plain]:
  assumes "P []" and "P [ch CHR 0x5C]"
    and "\<And>d ds. isdigit d \<Longrightarrow> \<not> (\<exists>e f fs. ds = e # f # fs \<and> isdigit e \<and> isdigit f) \<Longrightarrow> P (ch CHR 0x5C # d # ds)"
    and "\<And>d e f fs. isdigit d \<Longrightarrow> isdigit e \<Longrightarrow> isdigit f \<Longrightarrow> P fs \<Longrightarrow> P (ch CHR 0x5C # d # e # f # fs)"
    and "\<And>d ds. \<not> isdigit d \<Longrightarrow> P ds \<Longrightarrow> P (ch CHR 0x5C # d # ds)"
    and "\<And>cs. P (ch CHR ''.'' # cs)"
    and "\<And>c cs. c \<noteq> ch CHR 0x5C \<Longrightarrow> c \<noteq> ch CHR ''.'' \<Longrightarrow> P cs \<Longrightarrow> P (c # cs)"
  shows "P str"
proof (induction str rule: length_induct)
  case (1 str)
  have IH: "length s < length str \<Longrightarrow> P s" for s using "1.IH" by blast
  show ?case
  proof (cases str)
    case Nil
    with assms(1) show ?thesis by simp
  next
    case (Cons c cs)
    show ?thesis
    proof (cases "c = ch CHR 0x5C \<and> cs \<noteq> []")
      case True
      then obtain d ds where cs: "cs = d # ds" by (cases cs) auto
      show ?thesis
      proof (cases "isdigit d \<and> (\<exists>e f fs. ds = e # f # fs \<and> isdigit e \<and> isdigit f)")
        case num: True
        then show ?thesis using True Cons cs IH assms(4) by auto
      next
        case False
        then show ?thesis using True Cons cs IH assms(3,5) by (cases "isdigit d") auto
      qed
    next
      case False
      then show ?thesis using Cons IH assms(2,6,7) by (cases "c = ch CHR ''.''"; cases "c = ch CHR 0x5C") auto
    qed
  qed
qed

lemma backslash_not_dot [simp]: "ch CHR 0x5C \<noteq> ch CHR ''.''" "ch CHR ''.'' \<noteq> ch CHR 0x5C"
  by (simp_all add: ch_def)

text \<open>
  The loop that copies a label with escapes. It stops at a dot or at the end; the result
  is a code, the bytes not consumed and the buffer. The number of an escape is read by
  \<^verbatim>\<open>strtol(b, 0, 7)\<close>.
\<close>

fun copy_quoted :: "bytes \<Rightarrow> perf_buffer \<Rightarrow> (perf_result \<times> bytes \<times> perf_buffer) outcome" where
  "copy_quoted [] b = Ret (PERF_R_SUCCESS, [], b)"
| "copy_quoted (c # cs) b =
     (if c = ch CHR 0x5C then
        (case cs of [] \<Rightarrow> UB
         | d # ds \<Rightarrow>
             if isdigit d then
               (case ds of
                  e # f # fs \<Rightarrow>
                    (let v = strtol 7 [d, e, f] in
                     if v < 0 \<or> v > 255 then Ret (PERF_R_FAILURE, fs, b)
                     else obind (perf_buffer_putuint8 b (of_int v)) (copy_quoted fs))
                | _ \<Rightarrow> UB)
             else obind (perf_buffer_putmem b [d]) (copy_quoted ds))
      else if c = ch CHR ''.'' then Ret (PERF_R_SUCCESS, c # cs, b)
      else obind (perf_buffer_putmem b [c]) (copy_quoted cs))"

definition copy_label :: "bool \<Rightarrow> nat \<Rightarrow> bytes \<Rightarrow> perf_buffer \<Rightarrow> (perf_result \<times> bytes \<times> perf_buffer) outcome" where
  "copy_label is_quoted label_len str b =
     (if is_quoted then copy_quoted str b
      else obind (perf_buffer_putmem b (take label_len str))
             (\<lambda>b. Ret (PERF_R_SUCCESS, drop label_len str, b)))"

lemma copy_quoted_rest:
  "copy_quoted str b = Ret (r, rest, b') \<Longrightarrow> length rest \<le> length str"
proof (induction str arbitrary: b r rest b' rule: length_induct)
  case (1 str)
  show ?case
  proof (cases str)
    case Nil
    with "1.prems" show ?thesis by simp
  next
    case (Cons c cs)
    have IH: "copy_quoted s b = Ret (r, rest, b') \<Longrightarrow> length s < length str \<Longrightarrow>
        length rest \<le> length str" for s b
      using "1.IH" by (meson less_or_eq_imp_le order_le_less_trans)
    from "1.prems" show ?thesis unfolding Cons
      by (auto simp: Let_def Cons split: if_splits list.splits dest: IH)
  qed
qed

lemma copy_label_rest:
  "copy_label q n str b = Ret (r, rest, b') \<Longrightarrow> length rest \<le> length str"
  by (auto simp: copy_label_def dest: copy_quoted_rest split: if_splits)

text \<open>
  The loop over the labels. \<open>first\<close> is the test \<^verbatim>\<open>str == orig_str\<close>, which holds in
  the first round only, since every round that continues moves \<^verbatim>\<open>str\<close> forward.
\<close>

function dname_loop :: "bool \<Rightarrow> bytes \<Rightarrow> int \<Rightarrow> perf_buffer \<Rightarrow> (perf_result \<times> perf_buffer) outcome" where
  "dname_loop first str mx b =
     (if str = [] then Ret (PERF_R_SUCCESS, b)
      else
        (case scan_label str 0 False of
           None \<Rightarrow> Ret (PERF_R_FAILURE, b)
         | Some (label_len, is_quoted) \<Rightarrow>
             if label_len = 0 then
               (if length str > 1 then Ret (PERF_R_FAILURE, b)
                else if \<not> first then Ret (PERF_R_FAILURE, b)
                else obind (perf_buffer_putuint8 b 0) (\<lambda>b. Ret (PERF_R_SUCCESS, b)))
             else if label_len > 63 then Ret (PERF_R_FAILURE, b)
             else if mx - int (label_len + 1) < 0 then Ret (PERF_R_FAILURE, b)
             else
               obind (perf_buffer_putuint8 b (of_nat label_len)) (\<lambda>b.
               obind (copy_label is_quoted label_len str b) (\<lambda>(r, rest, b).
                 if r \<noteq> PERF_R_SUCCESS then Ret (r, b)
                 else if length rest < 2 then
                   obind (perf_buffer_putuint8 b 0) (\<lambda>b. Ret (PERF_R_SUCCESS, b))
                 else dname_loop False (tl rest) (mx - int (label_len + 1)) b))))"
  by pat_completeness auto
termination
proof (relation "measure (\<lambda>(first, str, mx, b). length str)", goal_cases)
  case 1
  then show ?case by simp
next
  case (2 first str mx b a label_len is_quoted b' x r y rest b'')
  then have "length rest \<le> length str" by (auto dest: copy_label_rest)
  with 2 show ?case by (auto simp: less_Suc_eq_le)
qed

declare dname_loop.simps [simp del]

definition perf_dname_fromstring :: "bytes \<Rightarrow> perf_buffer \<Rightarrow> (perf_result \<times> perf_buffer) outcome" where
  "perf_dname_fromstring str target =
     (if perf_buffer_availablelength target < length str then Ret (PERF_R_NOSPACE, target)
      else dname_loop True str 255 target)"

section \<open>Specification\<close>

text \<open>
  One pass over a label: its bytes after unescaping and the text from the dot that ends
  it, or \<open>None\<close> when an escape is malformed or its number is above 255.
\<close>

definition esc_value :: "u8 \<Rightarrow> u8 \<Rightarrow> u8 \<Rightarrow> int" where
  "esc_value d e f = strtol 7 [d, e, f]"

fun unescape :: "bytes \<Rightarrow> (bytes \<times> bytes) option" where
  "unescape [] = Some ([], [])"
| "unescape (c # cs) =
     (if c = ch CHR 0x5C then
        (case cs of [] \<Rightarrow> None
         | d # ds \<Rightarrow>
             if isdigit d then
               (case ds of
                  e # f # fs \<Rightarrow>
                    if isdigit e \<and> isdigit f \<and> esc_value d e f \<le> 255
                    then map_option (apfst ((#) (of_int (esc_value d e f)))) (unescape fs)
                    else None
                | _ \<Rightarrow> None)
             else map_option (apfst ((#) d)) (unescape ds))
      else if c = ch CHR ''.'' then Some ([], c # cs)
      else map_option (apfst ((#) c)) (unescape cs))"

lemma unescape_BadNum:
  "isdigit d \<Longrightarrow> \<not> (\<exists>e f fs. ds = e # f # fs \<and> isdigit e \<and> isdigit f) \<Longrightarrow>
   unescape (ch CHR 0x5C # d # ds) = None"
  by (auto split: list.splits)

lemma unescape_length:
  "unescape str = Some (lab, rest) \<Longrightarrow> length lab + length rest \<le> length str"
proof (induction str arbitrary: lab rule: label_induct)
  case (BadNum d ds)
  then show ?case by (simp add: unescape_BadNum del: unescape.simps)
next
  case (Num d e f fs)
  then show ?case by (force split: if_splits)
next
  case (Esc d ds)
  then show ?case by force
next
  case (Plain c cs)
  then show ?case by force
qed auto

text \<open>The labels of a name; the text after a label is empty, a final dot, or a dot and more.\<close>

function parse_labels :: "bytes \<Rightarrow> bytes list option" where
  "parse_labels str =
     (case unescape str of
        None \<Rightarrow> None
      | Some (lab, rest) \<Rightarrow>
          if lab = [] then None
          else if length rest < 2 then Some [lab]
          else map_option ((#) lab) (parse_labels (tl rest)))"
  by pat_completeness auto
termination
proof (relation "measure length", goal_cases)
  case 1
  then show ?case by simp
next
  case (2 str p lab rest)
  then have "length lab + length rest \<le> length str" by (auto dest: unescape_length)
  with 2 show ?case by (cases rest) auto
qed

declare parse_labels.simps [simp del]

text \<open>A list of labels that the code accepts when \<open>n\<close> octets are left for them.\<close>

definition labels_within :: "int \<Rightarrow> bytes list \<Rightarrow> bool" where
  "labels_within n ls \<longleftrightarrow> (\<forall>l \<in> set ls. 1 \<le> length l \<and> length l \<le> 63) \<and>
     int (sum_list (map (\<lambda>l. length l + 1) ls)) \<le> n"

definition dname_within :: "bool \<Rightarrow> bytes \<Rightarrow> int \<Rightarrow> bytes list option" where
  "dname_within first str n =
     (if first \<and> str = [ch CHR ''.''] then Some []
      else case parse_labels str of
             None \<Rightarrow> None
           | Some ls \<Rightarrow> if labels_within n ls then Some ls else None)"

definition dname_spec :: "bytes \<Rightarrow> bytes list option" where
  "dname_spec str = dname_within True str 255"

definition wire_labels :: "bytes list \<Rightarrow> bytes" where
  "wire_labels ls = concat (map (\<lambda>l. of_nat (length l) # l) ls)"

definition wire_name :: "bytes list \<Rightarrow> bytes" where
  "wire_name ls = wire_labels ls @ [0]"

lemma wire_labels_simps [simp]:
  "wire_labels [] = []"
  "wire_labels (l # ls) = of_nat (length l) # l @ wire_labels ls"
  by (simp_all add: wire_labels_def)

lemma length_wire_labels: "length (wire_labels ls) = sum_list (map (\<lambda>l. length l + 1) ls)"
  by (induction ls) auto

lemma length_wire_name: "length (wire_name ls) = sum_list (map (\<lambda>l. length l + 1) ls) + 1"
  by (simp add: wire_name_def length_wire_labels)

lemma labels_within_Cons [simp]:
  "labels_within n (l # ls) \<longleftrightarrow> 1 \<le> length l \<and> length l \<le> 63 \<and> labels_within (n - int (length l + 1)) ls"
  by (auto simp: labels_within_def)

lemma labels_within_Nil [simp]: "labels_within n [] \<longleftrightarrow> 0 \<le> n"
  by (simp add: labels_within_def)

text \<open>A decoder of the uncompressed wire format (RFC 1035, section 3.1).\<close>

fun unwire :: "nat \<Rightarrow> bytes \<Rightarrow> (bytes list \<times> bytes) option" where
  "unwire 0 bs = None"
| "unwire (Suc n) [] = None"
| "unwire (Suc n) (k # bs) =
     (if k = 0 then Some ([], bs)
      else if unat k > 63 \<or> unat k > length bs then None
      else map_option (apfst ((#) (take (unat k) bs))) (unwire n (drop (unat k) bs)))"

lemma unwire_wire_name:
  "labels_within n ls \<Longrightarrow> length ls < m \<Longrightarrow> unwire m (wire_name ls @ rest) = Some (ls, rest)"
proof (induction ls arbitrary: m n)
  case Nil
  then show ?case by (cases m) (auto simp: wire_name_def)
next
  case (Cons l ls)
  then obtain k where m: "m = Suc k" and k: "length ls < k" by (cases m) auto
  have len: "unat (of_nat (length l) :: u8) = length l"
    using Cons.prems by (simp add: unat_of_nat)
  moreover have "(of_nat (length l) :: u8) \<noteq> 0"
    using len Cons.prems by (metis labels_within_Cons not_one_le_zero unat_0)
  ultimately show ?case
    using Cons.IH [OF _ k] Cons.prems by (auto simp: m wire_name_def)
qed

section \<open>The scan, the copy and the specification agree\<close>

lemma strtol3_nonneg: "isdigit d \<Longrightarrow> 0 \<le> strtol 7 [d, e, f]"
proof -
  assume d: "isdigit d"
  then have "\<not> isspace d" "d \<noteq> 45" "d \<noteq> 43"
    by (auto simp: isdigit_def isspace_def word_le_nat_alt)
  then show ?thesis
    by (simp add: strtol_def strto_scan_def strto_sign_def Let_def strto_prefix_def split: prod.splits)
qed

text \<open>The scan succeeds on every label the specification accepts, and measures it.\<close>

lemma scan_label_BadNum:
  "isdigit d \<Longrightarrow> \<not> (\<exists>e f fs. ds = e # f # fs \<and> isdigit e \<and> isdigit f) \<Longrightarrow>
   scan_label (ch CHR 0x5C # d # ds) n q = None"
  by (auto split: list.splits)

lemma scan_label_unescape:
  "unescape str = Some (lab, rest) \<Longrightarrow> \<exists>q'. scan_label str n q = Some (n + length lab, q')"
proof (induction str arbitrary: lab n q rule: label_induct)
  case (BadNum d ds)
  then show ?case by (simp add: unescape_BadNum del: unescape.simps)
next
  case (Num d e f fs)
  then obtain l where "unescape fs = Some (l, rest)" "length lab = Suc (length l)"
    by (auto split: if_splits)
  with Num.IH [of l "n + 1" True] Num.hyps show ?case by simp
next
  case (Esc d ds)
  then obtain l where "unescape ds = Some (l, rest)" "length lab = Suc (length l)" by auto
  with Esc.IH [of l "n + 1" True] Esc.hyps show ?case by simp
next
  case (Plain c cs)
  then obtain l where "unescape cs = Some (l, rest)" "length lab = Suc (length l)" by auto
  with Plain.IH [of l "n + 1" q] Plain.hyps show ?case by simp
qed auto

text \<open>A label without escapes is copied as it stands.\<close>

lemma scan_label_quoted: "scan_label str n True = Some (n', q) \<Longrightarrow> q"
proof (induction str arbitrary: n rule: label_induct)
  case (BadNum d ds)
  then show ?case by (simp add: scan_label_BadNum del: scan_label.simps)
qed auto

lemma scan_label_unquoted:
  "scan_label str n q = Some (n', False) \<Longrightarrow>
   n \<le> n' \<and> unescape str = Some (take (n' - n) str, drop (n' - n) str)"
proof (induction str arbitrary: n q rule: label_induct)
  case (BadNum d ds)
  then show ?case by (simp add: scan_label_BadNum del: scan_label.simps)
next
  case (Num d e f fs)
  then show ?case using scan_label_quoted by fastforce
next
  case (Esc d ds)
  then show ?case using scan_label_quoted by fastforce
next
  case (Plain c cs)
  then have "scan_label cs (n + 1) q = Some (n', False)" by simp
  with Plain.IH [of "n + 1" q] have le: "n + 1 \<le> n'"
    and eq: "unescape cs = Some (take (n' - (n + 1)) cs, drop (n' - (n + 1)) cs)" by auto
  from le obtain k where "n' = n + 1 + k" using le_Suc_ex by blast
  with Plain.hyps eq show ?case by simp
qed auto

text \<open>A call that reports a failure and leaves a usable buffer.\<close>

definition failing :: "(perf_result \<times> perf_buffer) outcome \<Rightarrow> perf_buffer \<Rightarrow> bool" where
  "failing m b \<longleftrightarrow> (\<exists>b'. m = Ret (PERF_R_FAILURE, b') \<and> buf_wf b' \<and> buf_length b' = buf_length b)"

lemma failing_now: "buf_wf b \<Longrightarrow> failing (Ret (PERF_R_FAILURE, b)) b"
  by (simp add: failing_def)

lemma failing_bput: "failing m (bput b bs) \<Longrightarrow> failing m b"
  by (simp add: failing_def)

lemma scan_label_ge: "scan_label str n q = Some (n', q') \<Longrightarrow> n \<le> n'"
proof (induction str arbitrary: n q rule: label_induct)
  case (BadNum d ds)
  then show ?case by (simp add: scan_label_BadNum del: scan_label.simps)
qed (auto intro: Suc_leD)

text \<open>
  What a copy does on a label the scan accepted: the specification's bytes, or a failure
  on a number above 255.
\<close>

definition copies :: "bytes \<Rightarrow> perf_buffer \<Rightarrow> (perf_result \<times> bytes \<times> perf_buffer) outcome \<Rightarrow> bool" where
  "copies str b m \<longleftrightarrow>
     (case unescape str of
        Some (lab, rest) \<Rightarrow> m = Ret (PERF_R_SUCCESS, rest, bput b lab)
      | None \<Rightarrow> (\<exists>rest b'. m = Ret (PERF_R_FAILURE, rest, b') \<and> buf_wf b' \<and> buf_length b' = buf_length b))"

lemma room_step:
  "fits b (n' - n) \<Longrightarrow> n + 1 \<le> n' \<Longrightarrow> fits b 1 \<and> fits (bput b [c]) (n' - (n + 1))"
  by (auto simp: fits_def)

lemma copy_quoted_copies:
  "scan_label str n q = Some (n', q') \<Longrightarrow> buf_wf b \<Longrightarrow> fits b (n' - n) \<Longrightarrow>
   copies str b (copy_quoted str b)"
proof (induction str arbitrary: n q b rule: label_induct)
  case (BadNum d ds)
  then show ?case by (simp add: scan_label_BadNum del: scan_label.simps)
next
  case (Num d e f fs)
  then have sc: "scan_label fs (n + 1) True = Some (n', q')" by simp
  with scan_label_ge have ge: "n + 1 \<le> n'" by blast
  have one: "fits b 1" using room_step [OF Num.prems(3) ge] by blast
  have wf: "buf_wf (bput b [c])" for c using Num.prems one by (simp add: wf_intros)
  have room: "fits (bput b [c]) (n' - (n + 1))" for c using room_step [OF Num.prems(3) ge] by blast
  have nn: "0 \<le> esc_value d e f" using Num.hyps by (simp add: esc_value_def strtol3_nonneg)
  show ?case
  proof (cases "esc_value d e f \<le> 255")
    case True
    let ?c = "of_int (esc_value d e f) :: u8"
    have "copies fs (bput b [?c]) (copy_quoted fs (bput b [?c]))"
      by (rule Num.IH [OF sc wf room])
    moreover have "fits b (Suc (length lab))" if "unescape fs = Some (lab, rest)" for lab rest
      using scan_label_unescape [OF that, of "n + 1" True] sc Num.prems(3) ge by auto
    ultimately show ?thesis
      using True nn Num.hyps Num.prems(2) one
      by (auto simp: copies_def esc_value_def put_simps split: option.splits)
  next
    case False
    then show ?thesis
      using nn Num.hyps Num.prems(2) by (auto simp: copies_def esc_value_def)
  qed
next
  case (Esc d ds)
  then have sc: "scan_label ds (n + 1) True = Some (n', q')" by simp
  with scan_label_ge have ge: "n + 1 \<le> n'" by blast
  have one: "fits b 1" and room: "fits (bput b [d]) (n' - (n + 1))"
    using room_step [OF Esc.prems(3) ge] by blast+
  have "copies ds (bput b [d]) (copy_quoted ds (bput b [d]))"
    using Esc.prems one by (intro Esc.IH [OF sc _ room]) (simp add: wf_intros)
  moreover have "fits b (Suc (length lab))" if "unescape ds = Some (lab, rest)" for lab rest
    using scan_label_unescape [OF that, of "n + 1" True] sc Esc.prems(3) ge by auto
  ultimately show ?case
    using Esc.hyps Esc.prems(2) one by (auto simp: copies_def put_simps split: option.splits)
next
  case (Plain c cs)
  then have sc: "scan_label cs (n + 1) q = Some (n', q')" by simp
  with scan_label_ge have ge: "n + 1 \<le> n'" by blast
  have one: "fits b 1" and room: "fits (bput b [c]) (n' - (n + 1))"
    using room_step [OF Plain.prems(3) ge] by blast+
  have "copies cs (bput b [c]) (copy_quoted cs (bput b [c]))"
    using Plain.prems one by (intro Plain.IH [OF sc _ room]) (simp add: wf_intros)
  moreover have "fits b (Suc (length lab))" if "unescape cs = Some (lab, rest)" for lab rest
    using scan_label_unescape [OF that, of "n + 1" q] sc Plain.prems(3) ge by auto
  ultimately show ?case
    using Plain.hyps Plain.prems(2) one by (auto simp: copies_def put_simps split: option.splits)
qed (auto simp: copies_def)

lemma copy_label_copies:
  assumes "scan_label str 0 False = Some (n, q)" and "buf_wf b" and "fits b n"
  shows "copies str b (copy_label q n str b)"
proof (cases q)
  case True
  with assms copy_quoted_copies [of str 0 False n q b] show ?thesis by (simp add: copy_label_def)
next
  case False
  with assms scan_label_unquoted [of str 0 False n]
  have un: "unescape str = Some (take n str, drop n str)" by simp
  moreover have "fits b (length (take n str))" using assms(3) by (rule fits_mono) simp
  ultimately show ?thesis using False assms(2)
    by (simp add: copy_label_def copies_def put_simps)
qed

lemma scan_label_0:
  "scan_label str 0 False = Some (0, q) \<Longrightarrow> str \<noteq> [] \<Longrightarrow> hd str = ch CHR ''.''"
  by (induction str rule: label_induct)
    (auto simp: scan_label_BadNum simp del: scan_label.simps(2) dest: scan_label_ge, auto dest: scan_label_ge)

section \<open>The code computes the specification\<close>

definition dname_achieves :: "bytes list option \<Rightarrow> perf_buffer \<Rightarrow> (perf_result \<times> perf_buffer) outcome \<Rightarrow> bool" where
  "dname_achieves spec b m \<longleftrightarrow>
     (case spec of Some ls \<Rightarrow> m = Ret (PERF_R_SUCCESS, bput b (wire_name ls)) | None \<Rightarrow> failing m b)"

text \<open>One round of the loop on a label of admissible length.\<close>

lemma dname_loop_round:
  assumes "scan_label str 0 False = Some (n, q)" and "0 < n" and "n \<le> 63" and "int n + 1 \<le> mx"
    and "buf_wf b" and "fits b (n + 1)" and "unescape str = Some (lab, rest)"
  shows "dname_loop first str mx b =
    (let b' = bput b (of_nat n # lab)
     in if length rest < 2 then obind (perf_buffer_putuint8 b' 0) (\<lambda>b. Ret (PERF_R_SUCCESS, b))
        else dname_loop False (tl rest) (mx - int (n + 1)) b')"
proof -
  let ?b1 = "bput b [of_nat n]"
  have n: "length lab = n"
    using scan_label_unescape [OF assms(7), of 0 False] assms(1) by auto
  have one: "fits b 1" using assms(6) by (rule fits_mono) simp
  then have "buf_wf ?b1" using assms(5) by (simp add: wf_intros)
  moreover have "fits ?b1 n" using assms(6) by simp
  ultimately have "copies str ?b1 (copy_label q n str ?b1)"
    using assms(1) by (intro copy_label_copies)
  then have "copy_label q n str ?b1 = Ret (PERF_R_SUCCESS, rest, bput b (of_nat n # lab))"
    using assms(5,6,7) n by (simp add: copies_def)
  moreover have "str \<noteq> []" using assms(1,2) by auto
  ultimately show ?thesis
    using assms(1-6) one by (simp add: dname_loop.simps [of first str] put_simps)
qed

lemma dname_loop_bad_label:
  assumes "scan_label str 0 False = Some (n, q)" and "0 < n"
    and "buf_wf b" and "n \<le> 63 \<and> int n + 1 \<le> mx \<longrightarrow> fits b (n + 1) \<and> unescape str = None"
  shows "failing (dname_loop first str mx b) b"
proof (cases "n \<le> 63 \<and> int n + 1 \<le> mx")
  case True
  let ?b1 = "bput b [of_nat n]"
  have one: "fits b 1" using assms(4) True fits_mono by fastforce
  then have wf: "buf_wf ?b1" using assms(3) by (simp add: wf_intros)
  have "copies str ?b1 (copy_label q n str ?b1)"
    using assms True wf by (intro copy_label_copies) auto
  then obtain rest b' where "copy_label q n str ?b1 = Ret (PERF_R_FAILURE, rest, b')"
      "buf_wf b'" "buf_length b' = buf_length b"
    using assms True by (auto simp: copies_def)
  moreover have "str \<noteq> []" using assms(1,2) by auto
  ultimately show ?thesis
    using assms(1-3) True one by (simp add: dname_loop.simps [of first str] put_simps failing_def)
next
  case False
  with assms(1-3) show ?thesis
    by (auto simp: dname_loop.simps [of first str] failing_def)
qed

lemma labels_within_nonneg: "labels_within n ls \<Longrightarrow> 0 \<le> n"
  by (auto simp: labels_within_def)

lemma dname_within_step:
  assumes "unescape str = Some (lab, rest)" and "0 < length lab"
  shows "dname_within first str mx =
    (if length lab > 63 \<or> mx < int (length lab) + 1 then None
     else if length rest < 2 then Some [lab]
     else map_option ((#) lab) (dname_within False (tl rest) (mx - int (length lab + 1))))"
proof -
  have "str \<noteq> [ch CHR ''.'']" using assms by auto
  then show ?thesis using assms
    by (auto simp: dname_within_def parse_labels.simps [of str] not_le Suc_le_eq
        dest: labels_within_nonneg split: option.splits)
qed

lemma wire_name_Cons: "wire_name (l # ls) = of_nat (length l) # l @ wire_name ls"
  by (simp add: wire_name_def)

lemma dname_achieves_Cons:
  assumes "dname_achieves spec (bput b (of_nat (length l) # l)) m" and "buf_wf b"
    and "\<And>ls. spec = Some ls \<Longrightarrow> fits b (length (wire_name (l # ls)))"
  shows "dname_achieves (map_option ((#) l) spec) b m"
  using assms by (auto simp: dname_achieves_def wire_name_Cons failing_def split: option.splits)

text \<open>The wire format of a name is at most two bytes longer than its text.\<close>

lemma parse_labels_wire_length:
  "parse_labels str = Some ls \<Longrightarrow> length (wire_name ls) \<le> length str + 2"
proof (induction str arbitrary: ls rule: length_induct)
  case (1 str)
  from "1.prems" obtain lab rest where un: "unescape str = Some (lab, rest)" and "lab \<noteq> []"
    by (auto simp: parse_labels.simps [of str] split: option.splits if_splits)
  have len: "length lab + length rest \<le> length str" using un by (rule unescape_length)
  show ?case
  proof (cases "length rest < 2")
    case True
    with "1.prems" un \<open>lab \<noteq> []\<close> len show ?thesis
      by (auto simp: parse_labels.simps [of str] length_wire_name)
  next
    case False
    with "1.prems" un \<open>lab \<noteq> []\<close> obtain ls' where ls': "parse_labels (tl rest) = Some ls'"
        and ls: "ls = lab # ls'"
      by (auto simp: parse_labels.simps [of str])
    have "length (tl rest) < length str" using len False by (cases rest) auto
    with "1.IH" ls' have "length (wire_name ls') \<le> length (tl rest) + 2" by blast
    with ls len False show ?thesis by (simp add: wire_name_Cons)
  qed
qed

lemma dname_within_room:
  assumes "dname_within first str mx = Some ls" and "0 \<le> mx"
    and "fits b (min (length str + 2) (nat mx + 1))"
  shows "fits b (length (wire_name ls))"
proof (rule fits_mono [OF assms(3)])
  show "length (wire_name ls) \<le> min (length str + 2) (nat mx + 1)"
  proof (cases "first \<and> str = [ch CHR ''.'']")
    case True
    with assms(1) show ?thesis by (simp add: dname_within_def wire_name_def)
  next
    case False
    with assms(1) have ls: "parse_labels str = Some ls" and within: "labels_within mx ls"
      by (simp_all add: dname_within_def split: option.splits if_splits)
    from ls have "length (wire_name ls) \<le> length str + 2" by (rule parse_labels_wire_length)
    moreover from within have "int (length (wire_name ls)) \<le> mx + 1"
      by (simp add: labels_within_def length_wire_name)
    ultimately show ?thesis using assms(2) by simp
  qed
qed

lemma scan_label_le: "scan_label str n q = Some (n', q') \<Longrightarrow> n' \<le> n + length str"
proof (induction str arbitrary: n q rule: label_induct)
  case (BadNum d ds)
  then show ?case by (simp add: scan_label_BadNum del: scan_label.simps)
qed force+

lemma dname_loop_achieves:
  "str \<noteq> [] \<Longrightarrow> buf_wf b \<Longrightarrow> 0 \<le> mx \<Longrightarrow> fits b (min (length str + 2) (nat mx + 1)) \<Longrightarrow>
   dname_achieves (dname_within first str mx) b (dname_loop first str mx b)"
proof (induction str arbitrary: first mx b rule: length_induct)
  case (1 str)
  show ?case
  proof (cases "scan_label str 0 False")
    case None
    have un: "unescape str = None"
    proof (rule ccontr)
      assume "unescape str \<noteq> None"
      then obtain lab rest where "unescape str = Some (lab, rest)" by auto
      with scan_label_unescape [of str lab rest 0 False] None show False by simp
    qed
    have "str \<noteq> [ch CHR ''.'']" using None by auto
    with un None "1.prems" show ?thesis
      by (simp add: dname_loop.simps [of first str] dname_achieves_def dname_within_def
          parse_labels.simps [of str] failing_now)
  next
    case (Some p)
    then obtain n q where sc: "scan_label str 0 False = Some (n, q)" by (cases p) auto
    show ?thesis
    proof (cases "n = 0")
      case True
      with sc scan_label_0 "1.prems"(1) have "hd str = ch CHR ''.''" by blast
      with "1.prems"(1) obtain cs where str: "str = ch CHR ''.'' # cs" by (cases str) auto
      have "fits b 1" using "1.prems"(4) by (rule fits_mono) simp
      with True sc "1.prems" show ?thesis unfolding str
        by (auto simp: dname_loop.simps [of _ "ch CHR ''.'' # cs"] dname_achieves_def dname_within_def
            parse_labels.simps [of "ch CHR ''.'' # cs"] failing_now wire_name_def put_simps)
    next
      case False
      have room: "n \<le> 63 \<and> int n + 1 \<le> mx \<longrightarrow> fits b (n + 1)"
        using "1.prems"(4) scan_label_le [OF sc] by (auto intro: fits_mono)
      show ?thesis
      proof (cases "unescape str")
        case None
        then have "dname_within first str mx = None"
          by (auto simp: dname_within_def parse_labels.simps [of str])
        then show ?thesis
          using False None room "1.prems"(2)
          by (auto simp: dname_achieves_def intro!: dname_loop_bad_label [OF sc])
      next
        case (Some p)
        then obtain lab rest where un: "unescape str = Some (lab, rest)" by (cases p) auto
        have n: "length lab = n" using scan_label_unescape [OF un, of 0 False] sc by auto
        have len: "length lab + length rest \<le> length str" using un by (rule unescape_length)
        note step = dname_within_step [OF un, of first mx]
        show ?thesis
        proof (cases "n \<le> 63 \<and> int n + 1 \<le> mx")
          case False
          then show ?thesis
            using step n \<open>n \<noteq> 0\<close> "1.prems"(2)
            by (auto simp: dname_achieves_def intro!: dname_loop_bad_label [OF sc])
        next
          case True
          let ?b = "bput b (of_nat n # lab)"
          have b: "buf_wf ?b" using "1.prems"(2) room True n by (simp add: wf_intros)
          have round: "dname_loop first str mx b =
             (if length rest < 2 then obind (perf_buffer_putuint8 ?b 0) (\<lambda>b. Ret (PERF_R_SUCCESS, b))
              else dname_loop False (tl rest) (mx - int (n + 1)) ?b)"
            using dname_loop_round [OF sc _ _ _ "1.prems"(2) _ un] False True room by simp
          show ?thesis
          proof (cases "length rest < 2")
            case short: True
            have "fits b (n + 2)" using "1.prems"(3,4) True len n by (auto intro: fits_mono)
            with b short round step n True False "1.prems"(2) show ?thesis
              by (simp add: dname_achieves_def wire_name_def put_simps fits_def)
          next
            case long: False
            have "fits ?b (min (length (tl rest) + 2) (nat (mx - int (n + 1)) + 1))"
              using "1.prems"(4) long len n True by (auto simp: fits_def)
            moreover have "length (tl rest) < length str" "tl rest \<noteq> []"
              using long len by (cases rest; auto)+
            ultimately have "dname_achieves (dname_within False (tl rest) (mx - int (n + 1))) ?b
                (dname_loop False (tl rest) (mx - int (n + 1)) ?b)"
              using "1.IH" b True by simp
            then show ?thesis
              using long round step n True False "1.prems" dname_within_room [of first str mx _ b]
              by (auto intro!: dname_achieves_Cons)
          qed
        qed
      qed
    qed
  qed
qed

section \<open>Printing a name\<close>

text \<open>The presentation format of a list of labels, with dots and backslashes escaped.\<close>

definition esc_byte :: "u8 \<Rightarrow> bytes" where
  "esc_byte c = (if c = ch CHR ''.'' \<or> c = ch CHR 0x5C then [ch CHR 0x5C, c] else [c])"

definition label_text :: "bytes \<Rightarrow> bytes" where
  "label_text l = concat (map esc_byte l)"

fun name_text :: "bytes list \<Rightarrow> bytes" where
  "name_text [] = [ch CHR ''.'']"
| "name_text [l] = label_text l"
| "name_text (l # ls) = label_text l @ ch CHR ''.'' # name_text ls"

lemma special_not_digit [simp]: "\<not> isdigit (ch CHR ''.'')" "\<not> isdigit (ch CHR 0x5C)"
  by (simp_all add: isdigit_def ch_def word_le_nat_alt)

lemma unescape_label_text:
  "rest = [] \<or> hd rest = ch CHR ''.'' \<Longrightarrow> unescape (label_text l @ rest) = Some (l, rest)"
proof (induction l)
  case Nil
  then show ?case by (cases rest) (auto simp: label_text_def)
next
  case (Cons c l)
  have "label_text (c # l) @ rest = esc_byte c @ label_text l @ rest"
    by (simp add: label_text_def)
  with Cons show ?case by (auto simp: esc_byte_def)
qed

lemma parse_labels_name_text:
  "ls \<noteq> [] \<Longrightarrow> \<forall>l \<in> set ls. l \<noteq> [] \<Longrightarrow> parse_labels (name_text ls) = Some ls"
proof (induction ls rule: name_text.induct)
  case 1
  then show ?case by simp
next
  case (2 l)
  then show ?case
    using unescape_label_text [of "[]" l] by (simp add: parse_labels.simps)
next
  case (3 l l' ls)
  have "name_text (l' # ls) \<noteq> []"
    using "3.prems" by (cases ls; cases l') (auto simp: label_text_def esc_byte_def)
  then have "\<not> length (ch CHR ''.'' # name_text (l' # ls)) < 2"
    by (cases "name_text (l' # ls)") auto
  with 3 unescape_label_text [of "ch CHR ''.'' # name_text (l' # ls)" l] show ?case
    by (simp add: parse_labels.simps [of "label_text l @ ch CHR ''.'' # name_text (l' # ls)"])
qed

lemma dname_spec_name_text:
  "labels_within 255 ls \<Longrightarrow> dname_spec (name_text ls) = Some ls"
proof (cases "ls = []")
  case True
  then show ?thesis by (simp add: dname_spec_def dname_within_def)
next
  case False
  assume within: "labels_within 255 ls"
  then have "\<forall>l \<in> set ls. l \<noteq> []" by (auto simp: labels_within_def)
  with False have pl: "parse_labels (name_text ls) = Some ls" by (rule parse_labels_name_text)
  moreover have "parse_labels [ch CHR ''.''] = None" by (simp add: parse_labels.simps)
  ultimately show ?thesis using within by (auto simp: dname_spec_def dname_within_def)
qed

lemma name_text_not_Nil: "labels_within n ls \<Longrightarrow> name_text ls \<noteq> []"
proof (induction ls arbitrary: n rule: name_text.induct)
  case (2 l)
  then show ?case by (cases l) (auto simp: label_text_def esc_byte_def)
qed auto

section \<open>Properties\<close>

lemma perf_dname_fromstring_wf:
  "buf_wf b \<Longrightarrow> perf_dname_fromstring str b =
     (if fits b (length str) then dname_loop True str 255 b else Ret (PERF_R_NOSPACE, b))"
  using availablelength_fits [of b "length str"] by (auto simp: perf_dname_fromstring_def)

lemma dname_fromstring_min:
  assumes "buf_wf b" and "str \<noteq> []" and "fits b (length str)" and "fits b (min (length str + 2) 256)"
  shows "dname_achieves (dname_spec str) b (perf_dname_fromstring str b)"
proof -
  have room: "fits b (min (length str + 2) (nat 255 + 1))" using assms(4) by simp
  from assms(1,3) have "perf_dname_fromstring str b = dname_loop True str 255 b"
    by (simp add: perf_dname_fromstring_wf)
  with dname_loop_achieves [OF assms(2,1) _ room, of True] show ?thesis
    by (simp add: dname_spec_def)
qed

lemma dname_fromstring_achieves:
  assumes "buf_wf b" and "str \<noteq> []" and "fits b (max (length str) 256)"
  shows "dname_achieves (dname_spec str) b (perf_dname_fromstring str b)"
  using assms(1,2) by (rule dname_fromstring_min) (rule fits_mono [OF assms(3)], simp)+

text \<open>
  Two bytes more than the text are enough: the wire format is at most that much longer.
\<close>

lemma dname_fromstring_tight:
  assumes "buf_wf b" and "str \<noteq> []" and "fits b (length str + 2)"
  shows "dname_achieves (dname_spec str) b (perf_dname_fromstring str b)"
  using assms(1,2) by (rule dname_fromstring_min) (rule fits_mono [OF assms(3)], simp)+

text \<open>
  C2. On every non-empty string, and a buffer with room for the string and for 256 bytes,
  \<^verbatim>\<open>perf_dname_fromstring\<close> computes the one-pass specification: it succeeds exactly when
  the string is the root or unescapes to labels of 1 to 63 bytes that need at most 255
  octets together, and it then has appended their wire format and nothing else; otherwise
  it returns a failure. It neither aborts nor reads past the string.
\<close>

theorem dname_fromstring_correct:
  assumes "buf_wf b" and "str \<noteq> []" and "fits b (max (length str) 256)"
  shows "case dname_spec str of
           Some ls \<Rightarrow> perf_dname_fromstring str b = Ret (PERF_R_SUCCESS, bput b (wire_name ls))
         | None \<Rightarrow> failing (perf_dname_fromstring str b) b"
  using dname_fromstring_achieves [OF assms] by (simp only: dname_achieves_def)

definition example_name :: bytes where
  "example_name = cstr ''www.example.com''"

theorem dname_fromstring_correct_witness:
  "perf_dname_fromstring example_name (fresh 512) =
     Ret (PERF_R_SUCCESS, bput (fresh 512) (wire_name [cstr ''www'', cstr ''example'', cstr ''com'']))"
proof -
  have "example_name \<noteq> []" and "fits (fresh 512) (max (length example_name) 256)"
    by (simp_all add: example_name_def cstr_def)
  moreover have "dname_spec example_name = Some [cstr ''www'', cstr ''example'', cstr ''com'']"
    by code_simp
  ultimately show ?thesis using dname_fromstring_correct [of "fresh 512" example_name] by simp
qed

lemma labels_within_wire: "labels_within 255 ls \<Longrightarrow> length (wire_name ls) \<le> 256"
  by (simp add: length_wire_name labels_within_def)

lemma dname_spec_wire: "dname_spec str = Some ls \<Longrightarrow> length (wire_name ls) \<le> 256"
  by (auto simp: dname_spec_def dname_within_def wire_name_def [of "[]"] labels_within_wire
      split: if_splits option.splits)

lemma dname_spec_text: "dname_spec str = Some ls \<Longrightarrow> length (wire_name ls) \<le> length str + 2"
  by (auto simp: dname_spec_def dname_within_def wire_name_def [of "[]"] parse_labels_wire_length
      split: if_splits option.splits)

lemma dname_spec_Nil [simp]: "dname_spec [] = None"
  by (simp add: dname_spec_def dname_within_def parse_labels.simps)

text \<open>A name that the specification accepts, in a buffer with two bytes more than its text.\<close>

lemma dname_fits [put_simps]:
  assumes "buf_wf b" and "dname_spec str = Some ls" and "fits b (length str + 2)"
  shows "perf_dname_fromstring str b = Ret (PERF_R_SUCCESS, bput b (wire_name ls))"
proof -
  have "str \<noteq> []" using assms(2) by auto
  then show ?thesis
    using dname_fromstring_tight [OF assms(1) _ assms(3)] assms(2) by (simp add: dname_achieves_def)
qed

text \<open>
  C7. A list of labels of any bytes, printed with escaped dots and backslashes, goes
  through \<^verbatim>\<open>perf_dname_fromstring\<close> into bytes that a decoder of the DNS wire format
  reads back as the same labels, with nothing left over.
\<close>

theorem dname_roundtrip:
  assumes "labels_within 255 ls" and "buf_wf b" and "fits b (max (length (name_text ls)) 256)"
  shows "\<exists>b'. perf_dname_fromstring (name_text ls) b = Ret (PERF_R_SUCCESS, b') \<and>
    unwire 128 (drop (buf_used b) (perf_buffer_usedregion b')) = Some (ls, [])"
proof -
  have "perf_dname_fromstring (name_text ls) b = Ret (PERF_R_SUCCESS, bput b (wire_name ls))"
    using dname_fromstring_achieves [OF assms(2) name_text_not_Nil [OF assms(1)] assms(3)]
      dname_spec_name_text [OF assms(1)] by (simp add: dname_achieves_def)
  moreover have room: "fits b (length (wire_name ls))"
    using labels_within_wire [OF assms(1)] by (intro fits_mono [OF assms(3)]) simp
  moreover have "length ls < 128"
  proof -
    have "2 * length ls \<le> sum_list (map (\<lambda>l. length l + 1) ls)"
      using assms(1) by (induction ls arbitrary: ) (auto simp: labels_within_def)
    then show ?thesis using assms(1) by (simp add: labels_within_def)
  qed
  ultimately show ?thesis
    using unwire_wire_name [OF assms(1), of 128 "[]"] assms(2) by simp
qed

theorem dname_roundtrip_witness:
  "\<exists>b'. perf_dname_fromstring (name_text [cstr ''a.b'', cstr ''org'']) (fresh 300) = Ret (PERF_R_SUCCESS, b') \<and>
    unwire 128 (perf_buffer_usedregion b') = Some ([cstr ''a.b'', cstr ''org''], [])"
proof -
  have "labels_within 255 [cstr ''a.b'', cstr ''org'']" by (simp add: cstr_def)
  moreover have "length (name_text [cstr ''a.b'', cstr ''org'']) = 8" by code_simp
  ultimately show ?thesis
    using dname_roundtrip [of "[cstr ''a.b'', cstr ''org'']" "fresh 300"] by simp
qed

text \<open>
  C8. With 256 bytes of room no input makes \<^verbatim>\<open>perf_dname_fromstring\<close> abort or read out of
  bounds: every call returns, the buffer keeps its invariant and its size, and a successful
  call has used at most 256 bytes.
\<close>

theorem dname_fromstring_returns:
  assumes "buf_wf b" and "fits b 256"
  shows "\<exists>r b'. perf_dname_fromstring str b = Ret (r, b') \<and> buf_wf b' \<and> buf_length b' = buf_length b \<and>
    r \<in> {PERF_R_SUCCESS, PERF_R_FAILURE, PERF_R_NOSPACE} \<and>
    (r = PERF_R_SUCCESS \<longrightarrow> buf_used b' \<le> buf_used b + 256)"
proof (cases "str = [] \<or> \<not> fits b (length str)")
  case True
  then show ?thesis
    using assms by (auto simp: perf_dname_fromstring_wf dname_loop.simps)
next
  case False
  then have room: "fits b (max (length str) 256)" using assms(2) by (simp add: max_def)
  show ?thesis
  proof (cases "dname_spec str")
    case None
    with dname_fromstring_achieves [OF assms(1) _ room] False show ?thesis
      by (auto simp: dname_achieves_def failing_def)
  next
    case (Some ls)
    have "length (wire_name ls) \<le> 256" using Some by (rule dname_spec_wire)
    moreover from this have "fits b (length (wire_name ls))" by (rule fits_mono [OF assms(2)])
    ultimately show ?thesis
      using dname_fromstring_achieves [OF assms(1) _ room] False Some assms(1)
      by (auto simp: dname_achieves_def wf_intros)
  qed
qed

theorem dname_fromstring_returns_witness:
  "\<exists>r b'. perf_dname_fromstring (cstr ''a..b'') (fresh 256) = Ret (r, b') \<and>
    buf_wf b' \<and> buf_length b' = 256 \<and> r \<in> {PERF_R_SUCCESS, PERF_R_FAILURE, PERF_R_NOSPACE} \<and>
    (r = PERF_R_SUCCESS \<longrightarrow> buf_used b' \<le> 256)"
  using dname_fromstring_returns [of "fresh 256" "cstr ''a..b''"] by simp

text \<open>Three labels of 63 bytes and one of 62.\<close>

definition longest_labels :: "bytes list" where
  "longest_labels = map (\<lambda>n. replicate n (ch CHR ''a'')) [63, 63, 63, 62]"

text \<open>
  The code accepts names of 256 octets, one more than the limit of 255 octets of the
  DNS: the check counts the labels and not the root label that is appended to them.
\<close>

theorem dname_accepts_256_octets:
  "\<exists>b'. perf_dname_fromstring (name_text longest_labels) (fresh 512) =
     Ret (PERF_R_SUCCESS, b') \<and> length (perf_buffer_usedregion b') = 256"
proof -
  let ?b = "fresh 512"
  have within: "labels_within 255 longest_labels" by (simp add: longest_labels_def)
  have "length (label_text (replicate n (ch CHR ''a''))) = n" for n
    by (induction n) (auto simp: label_text_def esc_byte_def ch_def)
  then have len: "length (name_text longest_labels) = 254" by (simp add: longest_labels_def)
  have wf: "buf_wf ?b" and "fits ?b (max (length (name_text longest_labels)) 256)"
    by (simp_all add: len)
  then have "perf_dname_fromstring (name_text longest_labels) ?b =
      Ret (PERF_R_SUCCESS, bput ?b (wire_name longest_labels))"
    using dname_fromstring_achieves [OF wf name_text_not_Nil [OF within]]
      dname_spec_name_text [OF within] by (simp add: dname_achieves_def)
  moreover have "length (wire_name longest_labels) = 256"
    by (simp add: length_wire_name longest_labels_def)
  ultimately show ?thesis by simp
qed

lemma digit_byte:
  assumes "d < 7"
  shows "isdigit (48 + of_nat d)" "\<not> isspace (48 + of_nat d)" "digit_val (48 + of_nat d) = d"
    "48 + of_nat d \<noteq> (45::u8)" "48 + of_nat d \<noteq> (43::u8)"
proof -
  have "d \<in> {0, 1, 2, 3, 4, 5, 6}" using assms by auto
  then show "isdigit (48 + of_nat d)" "\<not> isspace (48 + of_nat d)" "digit_val (48 + of_nat d) = d"
    "48 + of_nat d \<noteq> (45::u8)" "48 + of_nat d \<noteq> (43::u8)"
    by (auto simp: isdigit_def isspace_def digit_val_def ch_def)
qed

lemma esc_value_base_7:
  assumes "d < 7" and "e < 7" and "f < 7"
  shows "esc_value (48 + of_nat d) (48 + of_nat e) (48 + of_nat f) = int (49 * d + 7 * e + f)"
  using assms
  by (simp add: esc_value_def strtol_def strto_scan_def strto_sign_def strto_prefix_def Let_def
      digit_byte is_base_digit_def digits_val_def)

text \<open>
  A decimal escape \<^verbatim>\<open>\DDD\<close> with digits below 7 is written as the byte the three
  digits denote in base 7, not in base 10: \<^verbatim>\<open>strtol\<close> is called with base 7.
\<close>

theorem escape_is_base_7:
  assumes "d < 7" and "e < 7" and "f < 7" and "49 * d + 7 * e + f \<le> 255"
    and "buf_wf b" and "fits b 256"
  shows "perf_dname_fromstring [ch CHR 0x5C, 48 + of_nat d, 48 + of_nat e, 48 + of_nat f] b =
    Ret (PERF_R_SUCCESS, bput b [1, of_nat (49 * d + 7 * e + f), 0])"
proof -
  let ?str = "[ch CHR 0x5C, 48 + of_nat d, 48 + of_nat e, 48 + of_nat f]"
  have "unescape ?str = Some ([of_nat (49 * d + 7 * e + f)], [])"
    using assms(1-4) by (simp add: digit_byte esc_value_base_7)
  then have "dname_spec ?str = Some [[of_nat (49 * d + 7 * e + f)]]"
    by (simp add: dname_spec_def dname_within_def parse_labels.simps [of ?str])
  moreover have "fits b (max (length ?str) 256)" using assms(6) by simp
  ultimately show ?thesis
    using dname_fromstring_achieves [of b ?str] assms(5) by (simp add: dname_achieves_def wire_name_def)
qed

theorem escape_is_base_7_witness:
  "perf_dname_fromstring (cstr [CHR 0x5C, CHR ''0'', CHR ''6'', CHR ''5'']) (fresh 256) =
    Ret (PERF_R_SUCCESS, bput (fresh 256) [1, 47, 0])"
  using escape_is_base_7 [of 0 6 5 "fresh 256"] by (simp add: cstr_def ch_def)

end
