(* ===== verification/Query.thy ===== *)
theory Query
  imports Dname
begin

text \<open>
  The question section of a request: the table of \<^verbatim>\<open>qtype.c\<close>, and
  \<^verbatim>\<open>perf_qtype_fromstring\<close> and \<^verbatim>\<open>build_query\<close> of \<^verbatim>\<open>dns.c\<close>. A line is the
  C string \<^verbatim>\<open>line->base\<close>. The specification \<open>question_spec\<close> reads a line into its
  labels and query type without a buffer.
\<close>

section \<open>Query types\<close>

definition qtype_names :: "(string \<times> u16) list" where
  "qtype_names = [
     (''A'', 1), (''NS'', 2), (''MD'', 3), (''MF'', 4), (''CNAME'', 5), (''SOA'', 6),
     (''MB'', 7), (''MG'', 8), (''MR'', 9), (''NULL'', 10), (''WKS'', 11), (''PTR'', 12),
     (''HINFO'', 13), (''MINFO'', 14), (''MX'', 15), (''TXT'', 16), (''RP'', 17),
     (''AFSDB'', 18), (''X25'', 19), (''ISDN'', 20), (''RT'', 21), (''NSAP'', 22),
     (''NSAP-PTR'', 23), (''SIG'', 24), (''KEY'', 25), (''PX'', 26), (''GPOS'', 27),
     (''AAAA'', 28), (''LOC'', 29), (''NXT'', 30), (''EID'', 31), (''NIMLOC'', 32),
     (''SRV'', 33), (''ATMA'', 34), (''NAPTR'', 35), (''KX'', 36), (''CERT'', 37),
     (''A6'', 38), (''DNAME'', 39), (''SINK'', 40), (''OPT'', 41), (''APL'', 42),
     (''DS'', 43), (''SSHFP'', 44), (''IPSECKEY'', 45), (''RRSIG'', 46), (''NSEC'', 47),
     (''DNSKEY'', 48), (''DHCID'', 49), (''NSEC3'', 50), (''NSEC3PARAM'', 51), (''TLSA'', 52),
     (''SMIMEA'', 53), (''HIP'', 55), (''NINFO'', 56), (''RKEY'', 57), (''TALINK'', 58),
     (''CDS'', 59), (''CDNSKEY'', 60), (''OPENPGPKEY'', 61), (''CSYNC'', 62),
     (''ZONEMD'', 63), (''SVCB'', 64), (''HTTPS'', 65), (''SPF'', 99), (''UINFO'', 100),
     (''UID'', 101), (''GID'', 102), (''UNSPEC'', 103), (''NID'', 104), (''L32'', 105),
     (''L64'', 106), (''LP'', 107), (''EUI48'', 108), (''EUI64'', 109), (''TKEY'', 249),
     (''TSIG'', 250), (''IXFR'', 251), (''AXFR'', 252), (''MAILB'', 253), (''MAILA'', 254),
     (''ANY'', 255), (''URI'', 256), (''CAA'', 257), (''AVC'', 258), (''DOA'', 259),
     (''AMTRELAY'', 260), (''TA'', 32768), (''DLV'', 32769)]"

definition qtype_table :: "(bytes \<times> u16) list" where
  "qtype_table = map (apfst cstr) qtype_names"

fun qtype_scan :: "(bytes \<times> u16) list \<Rightarrow> bytes \<Rightarrow> nat \<Rightarrow> perf_buffer \<Rightarrow> (perf_result \<times> perf_buffer) outcome" where
  "qtype_scan [] str len target = Ret (PERF_R_FAILURE, target)"
| "qtype_scan ((type, val) # q) str len target =
     (if strncasecmp_eq type str len
      then obind (perf_buffer_putuint16 target val) (\<lambda>target. Ret (PERF_R_SUCCESS, target))
      else qtype_scan q str len target)"

text \<open>
  \<open>str\<close> is the text from the query type to the end of the line, of which the first \<open>len\<close>
  bytes are the type; \<^verbatim>\<open>endptr\<close> is compared by the number of bytes from it to the end.
\<close>

definition perf_qtype_fromstring :: "bytes \<Rightarrow> nat \<Rightarrow> perf_buffer \<Rightarrow> (perf_result \<times> perf_buffer) outcome" where
  "perf_qtype_fromstring str len target =
     (if len > 4 \<and> strncasecmp_eq str (cstr ''TYPE'') 4 then
        (case strtoul 10 (drop 4 str) of (u, endptr, _) \<Rightarrow>
           if length endptr \<noteq> length str - len \<or> u = ULONG_MAX \<or> u > 65535
           then Ret (PERF_R_FAILURE, target)
           else obind (perf_buffer_putuint16 target (of_nat u)) (\<lambda>target. Ret (PERF_R_SUCCESS, target)))
      else qtype_scan qtype_table str len target)"

section \<open>The question of a line\<close>

definition WHITESPACE :: bytes where
  "WHITESPACE = [32, 9, 10]"

definition build_query :: "bytes \<Rightarrow> perf_buffer \<Rightarrow> (perf_result \<times> perf_buffer) outcome" where
  "build_query line msg =
     (let domain_len = strcspn line WHITESPACE;
          qtype_str = dropWhile isspace (drop domain_len line);
          qtype_len = strcspn qtype_str WHITESPACE
      in if domain_len = 0 then Ret (PERF_R_FAILURE, msg)
         else
           obind (perf_dname_fromstring (take domain_len line) msg) (\<lambda>(result, msg).
             if result \<noteq> PERF_R_SUCCESS then Ret (result, msg)
             else if qtype_len = 0 then Ret (PERF_R_FAILURE, msg)
             else
               obind (perf_qtype_fromstring qtype_str qtype_len msg) (\<lambda>(result, msg).
                 if result \<noteq> PERF_R_SUCCESS then Ret (result, msg)
                 else obind (perf_buffer_putuint16 msg 1) (\<lambda>msg. Ret (PERF_R_SUCCESS, msg)))))"

section \<open>Specification\<close>

text \<open>
  The value of a query type: the number after \<^verbatim>\<open>TYPE\<close>, or the first entry of the
  table that has the text as a prefix, in any letter case.
\<close>

definition qtype_match :: "bytes \<Rightarrow> (bytes \<times> u16) list \<Rightarrow> u16 option" where
  "qtype_match name table =
     map_option snd (find (\<lambda>(type, val). map tolower (take (length name) type) = name) table)"

definition qtype_spec :: "bytes \<Rightarrow> bytes \<Rightarrow> u16 option" where
  "qtype_spec name rest =
     (if length name > 4 \<and> map tolower (take 4 name) = cstr ''type'' then
        (case strtoul 10 (drop 4 name @ rest) of (u, endptr, _) \<Rightarrow>
           if length endptr = length rest \<and> u \<le> 65535 then Some (of_nat u) else None)
      else qtype_match (map tolower name) qtype_table)"

definition question_spec :: "bytes \<Rightarrow> (bytes list \<times> u16) option" where
  "question_spec line =
     (let dn = takeWhile (\<lambda>b. b \<noteq> 0 \<and> b \<notin> set WHITESPACE) line;
          rest = dropWhile isspace (drop (length dn) line);
          qt = takeWhile (\<lambda>b. b \<noteq> 0 \<and> b \<notin> set WHITESPACE) rest
      in if dn = [] \<or> qt = [] then None
         else case (dname_spec dn, qtype_spec qt (drop (length qt) rest)) of
                (Some ls, Some v) \<Rightarrow> Some (ls, v)
              | _ \<Rightarrow> None)"

definition question_bytes :: "bytes list \<Rightarrow> u16 \<Rightarrow> bytes" where
  "question_bytes ls v = wire_name ls @ be16 v @ be16 1"

section \<open>The code computes the specification\<close>

lemma qtype_scan_match:
  assumes "buf_wf b" and "fits b 2" and "len \<le> length str"
  shows "qtype_scan table str len b =
    (case qtype_match (map tolower (take len str)) table of
       Some v \<Rightarrow> Ret (PERF_R_SUCCESS, bput b (be16 v))
     | None \<Rightarrow> Ret (PERF_R_FAILURE, b))"
  using assms
  by (induction table)
    (auto simp: qtype_match_def strncasecmp_eq_def strn_eq_iff put_simps min_def split: option.splits)

lemma is_TYPE: "strncasecmp_eq str (cstr ''TYPE'') 4 \<longleftrightarrow> map tolower (take 4 str) = cstr ''type''"
proof -
  have "map tolower (take 4 (cstr ''TYPE'')) = cstr ''type''" by code_simp
  then show ?thesis by (simp add: strncasecmp_eq_def strn_eq_iff)
qed

lemma qtype_fromstring_spec:
  assumes "buf_wf b" and "fits b 2" and "len \<le> length str"
  shows "perf_qtype_fromstring str len b =
    (case qtype_spec (take len str) (drop len str) of
       Some v \<Rightarrow> Ret (PERF_R_SUCCESS, bput b (be16 v))
     | None \<Rightarrow> Ret (PERF_R_FAILURE, b))"
proof (cases "len > 4 \<and> map tolower (take 4 str) = cstr ''type''")
  case True
  have "drop 4 (take len str @ drop len str) = drop 4 (take len str) @ drop len str"
    using True assms(3) by (simp del: append_take_drop_id)
  then have "drop 4 (take len str) @ drop len str = drop 4 str" by simp
  moreover have "take 4 (take len str) = take 4 str" using True by simp
  moreover obtain u e x where "strtoul 10 (drop 4 str) = (u, e, x)" by (metis prod_cases3)
  ultimately show ?thesis
    using True assms by (auto simp: perf_qtype_fromstring_def qtype_spec_def is_TYPE put_simps ULONG_MAX_def)
next
  case False
  then show ?thesis
    using assms by (auto simp: perf_qtype_fromstring_def qtype_spec_def is_TYPE qtype_scan_match)
qed

lemma length_question_bytes: "dname_spec dn = Some ls \<Longrightarrow> length (question_bytes ls v) \<le> 260"
  using dname_spec_wire [of dn ls] by (simp add: question_bytes_def)

lemma build_query_spec:
  assumes wf: "buf_wf b" and room: "fits b 260"
    and dn: "dn = takeWhile (\<lambda>b. b \<noteq> 0 \<and> b \<notin> set WHITESPACE) line"
  shows "case question_spec line of
       Some (ls, v) \<Rightarrow> build_query line b =
         (if fits b (length dn) then Ret (PERF_R_SUCCESS, bput b (question_bytes ls v))
          else Ret (PERF_R_NOSPACE, b))
     | None \<Rightarrow> \<exists>r b'. build_query line b = Ret (r, b') \<and> r \<noteq> PERF_R_SUCCESS \<and> buf_wf b' \<and>
         buf_length b' = buf_length b"
proof -
  have ln: "strcspn line WHITESPACE = length dn" "take (length dn) line = dn"
    using dn takeWhile_eq_take [of "\<lambda>b. b \<noteq> 0 \<and> b \<notin> set WHITESPACE" line]
    by (simp_all add: strcspn_def)
  have early: ?thesis if none: "dn = []"
  proof -
    have "question_spec line = None" using dn none by (simp add: question_spec_def Let_def)
    with wf ln(1) none show ?thesis by (simp add: build_query_def Let_def)
  qed
  have nospace: ?thesis if big: "\<not> fits b (length dn)" and "dn \<noteq> []"
  proof -
    have "build_query line b = Ret (PERF_R_NOSPACE, b)"
      using that wf by (simp add: build_query_def ln Let_def perf_dname_fromstring_wf)
    with big wf show ?thesis by (auto split: option.splits)
  qed
  show ?thesis
  proof (cases "dn = [] \<or> \<not> fits b (length dn)")
    case True
    then show ?thesis using early nospace by blast
  next
    case False
    define rest where "rest = dropWhile isspace (drop (length dn) line)"
    define n where "n = strcspn rest WHITESPACE"
    have n: "n \<le> length rest" and qt: "takeWhile (\<lambda>b. b \<noteq> 0 \<and> b \<notin> set WHITESPACE) rest = take n rest"
      using takeWhile_eq_take [of "\<lambda>b. b \<noteq> 0 \<and> b \<notin> set WHITESPACE" rest]
      by (simp_all add: n_def strcspn_def length_takeWhile_le)
    have code: "build_query line b = obind (perf_dname_fromstring dn b) (\<lambda>(result, msg).
               if result \<noteq> PERF_R_SUCCESS then Ret (result, msg)
               else if n = 0 then Ret (PERF_R_FAILURE, msg)
               else
                 obind (perf_qtype_fromstring rest n msg) (\<lambda>(result, msg).
                   if result \<noteq> PERF_R_SUCCESS then Ret (result, msg)
                   else obind (perf_buffer_putuint16 msg 1) (\<lambda>msg. Ret (PERF_R_SUCCESS, msg))))"
      using False unfolding build_query_def Let_def ln rest_def n_def by simp
    have spec: "question_spec line = (if n = 0 then None
        else case (dname_spec dn, qtype_spec (take n rest) (drop n rest)) of
               (Some ls, Some v) \<Rightarrow> Some (ls, v) | _ \<Rightarrow> None)"
      using False n by (auto simp: question_spec_def Let_def dn [symmetric] rest_def [symmetric] qt min_def)
    have "fits b (max (length dn) 256)" using False fits_mono [OF room, of 256] by (simp add: max_def)
    then have ach: "dname_achieves (dname_spec dn) b (perf_dname_fromstring dn b)"
      using False wf by (intro dname_fromstring_achieves) auto
    show ?thesis
    proof (cases "dname_spec dn")
      case None
      with ach show ?thesis by (auto simp: dname_achieves_def failing_def code spec)
    next
      case (Some ls)
      let ?b = "bput b (wire_name ls)"
      have len: "length (wire_name ls) \<le> 256" using Some by (rule dname_spec_wire)
      then have fits: "fits b (length (wire_name ls) + 4)" by (intro fits_mono [OF room]) simp
      then have b: "buf_wf ?b" "fits ?b 2" "fits ?b 4"
        using wf fits_mono [OF fits] by (simp_all add: wf_intros)
      have name: "perf_dname_fromstring dn b = Ret (PERF_R_SUCCESS, ?b)"
        using ach Some by (simp add: dname_achieves_def)
      note q = qtype_fromstring_spec [OF b(1,2) n]
      show ?thesis
      proof (cases "qtype_spec (take n rest) (drop n rest)")
        case None
        with name q b Some show ?thesis by (auto simp: code spec)
      next
        case (Some v)
        have "perf_buffer_putuint16 (bput ?b (be16 v)) 1 = Ret (bput b (question_bytes ls v))"
          using wf fits b by (simp add: put_simps wf_intros question_bytes_def fits_def)
        with name q b Some \<open>dname_spec dn = Some ls\<close> False show ?thesis
          by (cases "n = 0") (auto simp: code spec)
      qed
    qed
  qed
qed

section \<open>Properties\<close>

lemma qtype_match_names:
  "capital n \<Longrightarrow> list_all (capital \<circ> fst) names \<Longrightarrow>
   qtype_match (map tolower (cstr n)) (map (apfst cstr) names) =
   map_option snd (find (\<lambda>(t, v). take (length n) t = n) names)"
proof (induction names)
  case Nil
  then show ?case by (simp add: qtype_match_def)
next
  case (Cons p names)
  obtain t v where p: "p = (t, v)" by (cases p)
  have "capital (take (length n) t)" using Cons.prems p by (auto simp: capital_def dest: in_set_takeD)
  then have "map tolower (take (length n) (cstr t)) = map tolower (cstr n) \<longleftrightarrow> take (length n) t = n"
    using tolower_cstr_inj [OF _ Cons.prems(1)] by (simp add: cstr_def take_map)
  with Cons p show ?case by (simp add: qtype_match_def)
qed

text \<open>Every name of the table but \<^verbatim>\<open>TA\<close> is found at its own entry.\<close>

lemma qtype_names_capital: "list_all (capital \<circ> fst) qtype_names"
  unfolding capital_def Ball_set by code_simp

lemma qtype_names_unambiguous:
  "list_all (\<lambda>(n, v). n = ''TA'' \<or>
     map_option snd (find (\<lambda>(t, w). take (length n) t = n) qtype_names) = Some v) qtype_names"
  by code_simp

lemma qtype_names_not_TYPE: "list_all (\<lambda>(n, v). take 4 n \<noteq> ''TYPE'') qtype_names"
  by code_simp

lemma capital_TYPE: "capital ''TYPE''" "map tolower (cstr ''TYPE'') = cstr ''type''"
  unfolding capital_def Ball_set by code_simp+

lemma qtype_match_entry:
  assumes "(name, v) \<in> set qtype_table" and "name \<noteq> cstr ''TA''"
  shows "qtype_match (map tolower name) qtype_table = Some v" and "map tolower (take 4 name) \<noteq> cstr ''type''"
proof -
  from assms obtain n where n: "(n, v) \<in> set qtype_names" "name = cstr n" "n \<noteq> ''TA''"
    unfolding qtype_table_def by fastforce
  then have cap: "capital n" using qtype_names_capital by (auto simp: list_all_iff)
  show "qtype_match (map tolower name) qtype_table = Some v"
    using qtype_match_names [OF cap qtype_names_capital] qtype_names_unambiguous n
    by (auto simp: list_all_iff qtype_table_def)
  have "capital (take 4 n)" using cap by (auto simp: capital_def dest: in_set_takeD)
  moreover have "take 4 n \<noteq> ''TYPE''" using n qtype_names_not_TYPE by (auto simp: list_all_iff)
  ultimately show "map tolower (take 4 name) \<noteq> cstr ''type''"
    using tolower_cstr_inj [of "take 4 n" "''TYPE''"] capital_TYPE n(2) by (simp add: cstr_def take_map)
qed

lemma qtype_spec_entry:
  assumes "(name, v) \<in> set qtype_table" and "name \<noteq> cstr ''TA''" and "map tolower str = map tolower name"
  shows "qtype_spec str rest = Some v"
proof -
  have "map tolower (take 4 str) = map tolower (take 4 name)"
    using assms(3) by (simp add: take_map [symmetric])
  then show ?thesis
    using qtype_match_entry [OF assms(1,2)] assms(3) by (simp add: qtype_spec_def)
qed

text \<open>
  Every mnemonic of \<^verbatim>\<open>qtype_table\<close> except \<^verbatim>\<open>TA\<close>, in any mix of upper and lower
  case and followed by anything, is written as its own number, although the code accepts
  the first entry that the text is a prefix of.
\<close>

theorem qtype_mnemonics_resolve:
  assumes "(name, v) \<in> set qtype_table" and "name \<noteq> cstr ''TA''"
    and "map tolower str = map tolower name" and "buf_wf b" and "fits b 2"
  shows "perf_qtype_fromstring (str @ rest) (length str) b = Ret (PERF_R_SUCCESS, bput b (be16 v))"
  using qtype_fromstring_spec [OF assms(4,5), of "length str" "str @ rest"] qtype_spec_entry [OF assms(1-3)]
  by simp

theorem qtype_mnemonics_resolve_witness:
  "perf_qtype_fromstring (cstr ''aaaa '') 4 (fresh 2) = Ret (PERF_R_SUCCESS, bput (fresh 2) (be16 28))"
proof -
  have "(''AAAA'', 28) \<in> set qtype_names" by (simp add: qtype_names_def)
  then have "(cstr ''AAAA'', 28) \<in> set qtype_table" by (force simp: qtype_table_def)
  moreover have "cstr ''AAAA'' \<noteq> cstr ''TA''" "map tolower (cstr ''aaaa'') = map tolower (cstr ''AAAA'')"
    by code_simp+
  ultimately show ?thesis
    using qtype_mnemonics_resolve [of "cstr ''AAAA''" 28 "cstr ''aaaa''" "fresh 2" "cstr '' ''"]
    by (simp add: cstr_def eval_nat_numeral)
qed

text \<open>A line for the witnesses.\<close>

lemma question_example:
  "question_spec (cstr ''example.com AAAA'') = Some ([cstr ''example'', cstr ''com''], 28)"
proof -
  have "(''AAAA'', 28) \<in> set qtype_names" by (simp add: qtype_names_def)
  then have "(cstr ''AAAA'', 28) \<in> set qtype_table" by (force simp: qtype_table_def)
  then have "qtype_spec (cstr ''AAAA'') [] = Some 28"
    by (rule qtype_spec_entry) (simp_all add: cstr_eq_iff)
  moreover have "dname_spec (cstr ''example.com'') = Some [cstr ''example'', cstr ''com'']" by code_simp
  ultimately show ?thesis
    by (simp add: question_spec_def cstr_def WHITESPACE_def Let_def ch_def isspace_def)
qed

text \<open>
  The mnemonic \<^verbatim>\<open>TA\<close> of the table (32768) can not be queried by its name: the
  comparison over the length of the input finds \<^verbatim>\<open>TALINK\<close> (58) first.
\<close>

theorem qtype_TA_is_TALINK:
  "perf_qtype_fromstring (cstr ''TA'') 2 (fresh 2) = Ret (PERF_R_SUCCESS, bput (fresh 2) (be16 58)) \<and>
   (cstr ''TA'', 32768) \<in> set qtype_table"
proof
  have cap: "capital ''TA''" unfolding capital_def Ball_set by code_simp
  have "map_option snd (find (\<lambda>(t, w). take 2 t = ''TA'') qtype_names) = Some 58" by code_simp
  then have "qtype_spec (cstr ''TA'') [] = Some 58"
    using qtype_match_names [OF cap qtype_names_capital] by (simp add: qtype_spec_def qtype_table_def numeral_2_eq_2)
  then show "perf_qtype_fromstring (cstr ''TA'') 2 (fresh 2) = Ret (PERF_R_SUCCESS, bput (fresh 2) (be16 58))"
    using qtype_fromstring_spec [of "fresh 2" 2 "cstr ''TA''"] by simp
  have "(''TA'', 32768) \<in> set qtype_names" by (simp add: qtype_names_def)
  then show "(cstr ''TA'', 32768) \<in> set qtype_table" by (force simp: qtype_table_def)
qed

end
