(* ===== verification/Edns.thy ===== *)
theory Edns
  imports Buffer
begin

text \<open>
  EDNS (\<^verbatim>\<open>edns.c\<close>): parsing of an option given as \<^verbatim>\<open>code:hex\<close> on the command
  line and the OPT record that is appended to a request.
\<close>

section \<open>The code\<close>

text \<open>\<^verbatim>\<open>perf_ednsoption_t\<close> is its buffer; the flexible array member is the memory of it.\<close>

record perf_ednsoption =
  option_buffer :: perf_buffer

definition EDNSLEN :: nat where
  "EDNSLEN = 11"

definition MAX_EDNS_PACKET :: nat where
  "MAX_EDNS_PACKET = 4096"

text \<open>The loop over the value, two characters a round.\<close>

fun parse_hex :: "bytes \<Rightarrow> perf_buffer \<Rightarrow> perf_buffer outcome" where
  "parse_hex [] b = Ret b"
| "parse_hex [x] b = UB"
| "parse_hex (x # y # value) b =
     (case strtoul 16 [x, y] of (u, endptr, _) \<Rightarrow>
        if endptr \<noteq> [] \<or> u = ULONG_MAX then Exit 1
        else obind (perf_buffer_putuint8 b (of_nat u)) (parse_hex value))"

text \<open>
  The copy \<^verbatim>\<open>save\<close> of the buffer structure shares its memory with the option's buffer;
  the length is written through it at the end.
\<close>

definition perf_edns_parseoption :: "bytes \<Rightarrow> perf_ednsoption outcome" where
  "perf_edns_parseoption arg =
     (case strchr arg (ch CHR '':'') of
        None \<Rightarrow> Exit 1
      | Some (copy, value) \<Rightarrow>
          if length value = 0 then Exit 1
          else if odd (length value) then Exit 1
          else
            (let data_len = length value div 2 + 4;
                 buffer = perf_buffer_init (replicate data_len 0) data_len
             in case strtoul 10 copy of (u, endptr, _) \<Rightarrow>
               if endptr \<noteq> [] \<or> u = ULONG_MAX then Exit 1
               else
                 obind (perf_buffer_putuint16 buffer (of_nat u)) (\<lambda>buffer.
                 let save = buffer in
                 obind (perf_buffer_add buffer 2) (\<lambda>buffer.
                 obind (parse_hex value buffer) (\<lambda>buffer.
                 obind (perf_buffer_putuint16 (save\<lparr>buf_base := buf_base buffer\<rparr>)
                          (of_nat (size_sub (buf_used buffer) 4))) (\<lambda>save.
                 Ret \<lparr>option_buffer = buffer\<lparr>buf_base := buf_base save\<rparr>\<rparr>))))))"

definition perf_add_edns :: "perf_buffer \<Rightarrow> bool \<Rightarrow> perf_ednsoption option \<Rightarrow> (perf_result \<times> perf_buffer) outcome" where
  "perf_add_edns packet dnssec option =
     (let option_length = (case option of None \<Rightarrow> 0 | Some opt \<Rightarrow> buf_used (option_buffer opt));
          total_length = EDNSLEN + option_length
      in if perf_buffer_availablelength packet < total_length then Ret (PERF_R_NOSPACE, packet)
         else
           obind (perf_buffer_putuint8 packet 0) (\<lambda>packet.
           obind (perf_buffer_putuint16 packet 41) (\<lambda>packet.
           obind (perf_buffer_putuint16 packet (of_nat MAX_EDNS_PACKET)) (\<lambda>packet.
           obind (perf_buffer_putuint8 packet 0) (\<lambda>packet.
           obind (perf_buffer_putuint8 packet 0) (\<lambda>packet.
           obind (perf_buffer_putuint16 packet (if dnssec then 0x8000 else 0)) (\<lambda>packet.
           obind (perf_buffer_putuint16 packet (of_nat option_length)) (\<lambda>packet.
           obind (case option of None \<Rightarrow> Ret packet
                  | Some opt \<Rightarrow> perf_buffer_putmem packet (take option_length (buf_base (option_buffer opt)))) (\<lambda>packet.
           obind (buf_incr packet 11) (\<lambda>packet.
           Ret (PERF_R_SUCCESS, packet)))))))))))"

section \<open>Specification\<close>

definition hexch :: "nat \<Rightarrow> u8" where
  "hexch n = (if n < 10 then 48 + of_nat n else 87 + of_nat n)"

definition hex_of :: "bytes \<Rightarrow> bytes" where
  "hex_of bs = concat (map (\<lambda>b. [hexch (unat b div 16), hexch (unat b mod 16)]) bs)"

definition opt_rr :: "bool \<Rightarrow> bytes \<Rightarrow> bytes" where
  "opt_rr dnssec opts =
     [0] @ be16 41 @ be16 4096 @ [0, 0] @ be16 (if dnssec then 0x8000 else 0) @
     be16 (of_nat (length opts)) @ opts"

definition option_bytes :: "perf_ednsoption option \<Rightarrow> bytes" where
  "option_bytes option = (case option of None \<Rightarrow> [] | Some opt \<Rightarrow> perf_buffer_usedregion (option_buffer opt))"

definition option_wf :: "perf_ednsoption option \<Rightarrow> bool" where
  "option_wf option \<longleftrightarrow> (case option of None \<Rightarrow> True | Some opt \<Rightarrow> buf_wf (option_buffer opt))"

text \<open>The message with the count in its byte 11 one higher, and a record appended.\<close>

definition add_record :: "bytes \<Rightarrow> bytes \<Rightarrow> bytes" where
  "add_record msg rr = msg[11 := msg ! 11 + 1] @ rr"

lemma length_add_record [simp]: "length (add_record msg rr) = length msg + length rr"
  by (simp add: add_record_def)

lemma length_opt_rr [simp]: "length (opt_rr dnssec opts) = EDNSLEN + length opts"
  by (simp add: opt_rr_def EDNSLEN_def)

section \<open>The OPT record\<close>

text \<open>Appending a record and counting it, for OPT and TSIG alike.\<close>

lemma incr_after_bput:
  assumes "buf_wf b" and "12 \<le> buf_used b" and "fits b (length rr)"
  shows "\<exists>b'. buf_incr (bput b rr) 11 = Ret b' \<and> buf_wf b' \<and> buf_length b' = buf_length b \<and>
    perf_buffer_usedregion b' = add_record (perf_buffer_usedregion b) rr"
proof -
  have "buf_wf (bput b rr)" "11 < buf_used (bput b rr)" using assms by (simp_all add: wf_intros)
  moreover have "perf_buffer_usedregion (bput b rr) = perf_buffer_usedregion b @ rr"
    "11 < length (perf_buffer_usedregion b)"
    using assms by simp_all
  ultimately show ?thesis
    using buf_incr_wf [of "bput b rr" 11]
    by (auto simp: add_record_def nth_append list_update_append1)
qed

lemma option_length:
  "option_wf option \<Longrightarrow>
   (case option of None \<Rightarrow> 0 | Some opt \<Rightarrow> buf_used (option_buffer opt)) = length (option_bytes option)"
  by (auto simp: option_wf_def option_bytes_def split: option.splits)

lemma add_edns_bput:
  assumes "buf_wf b" and "option_wf option" and "fits b (EDNSLEN + length (option_bytes option))"
  shows "perf_add_edns b dnssec option =
    obind (buf_incr (bput b (opt_rr dnssec (option_bytes option))) 11) (\<lambda>b. Ret (PERF_R_SUCCESS, b))"
proof -
  note len = option_length [OF assms(2)]
  have "\<not> perf_buffer_availablelength b < EDNSLEN + length (option_bytes option)"
    using availablelength_fits [OF assms(1)] assms(3) by (simp add: not_less)
  moreover have "(case option of None \<Rightarrow> Ret p
      | Some opt \<Rightarrow> perf_buffer_putmem p (take (length (option_bytes option)) (buf_base (option_buffer opt)))) =
      perf_buffer_putmem p (option_bytes option)"
    if "buf_wf p" "fits p (length (option_bytes option))" for p
    using that assms(2) by (auto simp: option_bytes_def option_wf_def perf_buffer_usedregion_def buf_wf_def
        put_simps min_def split: option.splits)
  ultimately show ?thesis
    using assms(1,3)
    by (simp add: perf_add_edns_def len Let_def put_simps wf_intros fits_def EDNSLEN_def
        MAX_EDNS_PACKET_def opt_rr_def)
qed

lemma add_edns_appends:
  assumes "buf_wf b" and "option_wf option" and "12 \<le> buf_used b"
    and "fits b (EDNSLEN + length (option_bytes option))"
  shows "\<exists>b'. perf_add_edns b dnssec option = Ret (PERF_R_SUCCESS, b') \<and> buf_wf b' \<and>
    buf_length b' = buf_length b \<and>
    perf_buffer_usedregion b' = add_record (perf_buffer_usedregion b) (opt_rr dnssec (option_bytes option))"
  using incr_after_bput [OF assms(1,3), of "opt_rr dnssec (option_bytes option)"] assms(4)
  by (auto simp: add_edns_bput [OF assms(1,2,4)])

lemma add_edns_nospace:
  assumes "buf_wf b" and "option_wf option" and "\<not> fits b (EDNSLEN + length (option_bytes option))"
  shows "perf_add_edns b dnssec option = Ret (PERF_R_NOSPACE, b)"
  using availablelength_fits [OF assms(1)] assms(3)
  by (simp add: perf_add_edns_def option_length [OF assms(2)] not_le [symmetric])

section \<open>Options of the command line\<close>

lemma hexch_props:
  assumes "n < 16"
  shows "digit_val (hexch n) = n" "\<not> isspace (hexch n)" "hexch n \<noteq> 45" "hexch n \<noteq> 43"
proof -
  have "n \<in> {0,1,2,3,4,5,6,7,8,9,10,11,12,13,14,15}" using assms by (simp only: insert_iff empty_iff) presburger
  then have "digit_val (hexch n) = n \<and> \<not> isspace (hexch n) \<and> hexch n \<noteq> 45 \<and> hexch n \<noteq> 43"
    by (elim insertE emptyE) (simp_all add: hexch_def digit_val_def isspace_def isdigit_def tolower_def)
  then show "digit_val (hexch n) = n" "\<not> isspace (hexch n)" "hexch n \<noteq> 45" "hexch n \<noteq> 43"
    by simp_all
qed

lemma strtoul_hex:
  assumes "m < 16" and "n < 16"
  shows "strtoul 16 [hexch m, hexch n] = (m * 16 + n, [], False)"
proof -
  have "strto_scan 16 [hexch m, hexch n] = (False, [hexch m, hexch n], [])"
    using assms by (simp add: strto_scan_def strto_sign_def strto_prefix_def hexch_props is_base_digit_def)
  moreover have "digits_val 16 [hexch m, hexch n] = m * 16 + n"
    using assms by (simp add: digits_val_def hexch_props)
  ultimately show ?thesis using assms by (simp add: strtoul_def ULONG_MAX_def)
qed

lemma parse_hex_of:
  "buf_wf b \<Longrightarrow> fits b (length data) \<Longrightarrow> parse_hex (hex_of data) b = Ret (bput b data)"
proof (induction data arbitrary: b)
  case Nil
  then show ?case by (simp add: hex_of_def)
next
  case (Cons d data)
  have d: "unat d < 256" using unsigned_less [of d] by simp
  then have "strtoul 16 [hexch (unat d div 16), hexch (unat d mod 16)] = (unat d, [], False)"
    using strtoul_hex [of "unat d div 16" "unat d mod 16"] by simp
  moreover have "hex_of (d # data) = hexch (unat d div 16) # hexch (unat d mod 16) # hex_of data"
    by (simp add: hex_of_def)
  ultimately show ?case
    using Cons d by (simp add: put_simps wf_intros ULONG_MAX_def fits_def)
qed

lemma length_hex_of [simp]: "length (hex_of data) = 2 * length data"
  by (induction data) (simp_all add: hex_of_def)

lemma strchr_split: "c \<notin> set xs \<Longrightarrow> strchr (xs @ c # ys) c = Some (xs, ys)"
  by (simp add: strchr_def takeWhile_append dropWhile_append)

text \<open>The three writes to the memory of an option: the code, the data, then the length.\<close>

lemma option_memory:
  "take (length data + 4)
     (mem_write (mem_write (mem_write (replicate (length data + 4) 0) 0 (be16 u)) 4 data) 2 (be16 w)) =
   be16 u @ be16 w @ data"
  by (simp add: mem_write_def be16_def numeral_eq_Suc)

lemma parseoption_hex:
  assumes "ds \<noteq> []" and "\<forall>d \<in> set ds. isdigit d" and "digits_val 10 ds < ULONG_MAX" and "data \<noteq> []"
  shows "\<exists>opt. perf_edns_parseoption (ds @ ch CHR '':'' # hex_of data) = Ret opt \<and>
    buf_wf (option_buffer opt) \<and>
    perf_buffer_usedregion (option_buffer opt) =
      be16 (of_nat (digits_val 10 ds)) @ be16 (of_nat (length data)) @ data"
proof -
  let ?n = "length data + 4" and ?u = "of_nat (digits_val 10 ds) :: u16"
  let ?b1 = "bput (fresh ?n) (be16 ?u)"
  let ?b2 = "?b1\<lparr>buf_used := 4\<rparr>"
  let ?b3 = "bput ?b2 data"
  have colon: "\<not> isdigit (ch CHR '':'')" by (simp add: isdigit_def ch_def word_le_nat_alt)
  then have "ch CHR '':'' \<notin> set ds" using assms(2) by blast
  then have sep: "strchr (ds @ ch CHR '':'' # hex_of data) (ch CHR '':'') = Some (ds, hex_of data)"
    by (rule strchr_split)
  have num: "strtoul 10 ds = (digits_val 10 ds, [], False)"
    using strtoul_digits [of ds "[]"] assms(1-3) by simp
  have put1: "perf_buffer_putuint16 (fresh ?n) ?u = Ret ?b1" by (simp add: put_simps)
  have add: "perf_buffer_add ?b1 2 = Ret ?b2" by (simp add: perf_buffer_add_def)
  have wf2: "buf_wf ?b2" "fits ?b2 (length data)"
    by (simp_all add: buf_wf_def fits_def) (simp_all add: fresh_def perf_buffer_init_def)
  then have hex: "parse_hex (hex_of data) ?b2 = Ret ?b3" by (simp add: parse_hex_of)
  let ?s = "?b1\<lparr>buf_base := buf_base ?b3\<rparr>"
  have wf3: "buf_wf ?s" "fits ?s 2" "buf_wf ?b3"
    using wf2 by (simp_all add: buf_wf_def fits_def)
  then have put2: "perf_buffer_putuint16 ?s (of_nat (length data)) = Ret (bput ?s (be16 (of_nat (length data))))"
    by (simp add: put_simps)
  let ?opt = "?b3\<lparr>buf_base := buf_base (bput ?s (be16 (of_nat (length data))))\<rparr>"
  have "hex_of data \<noteq> []" using assms(4) by (cases data) (simp_all add: hex_of_def)
  then have "perf_edns_parseoption (ds @ ch CHR '':'' # hex_of data) = Ret \<lparr>option_buffer = ?opt\<rparr>"
    using assms(3) sep num put1 add hex put2
    by (simp add: perf_edns_parseoption_def Let_def fresh_def)
  moreover have "buf_wf ?opt" using wf3 by (simp add: buf_wf_def)
  moreover have "perf_buffer_usedregion ?opt = be16 ?u @ be16 (of_nat (length data)) @ data"
    using option_memory [of data ?u] by (simp add: perf_buffer_usedregion_def fresh_def perf_buffer_init_def)
  ultimately show ?thesis by auto
qed

section \<open>Properties\<close>

text \<open>
  C9. \<^verbatim>\<open>perf_add_edns\<close> on a message with its header: when the eleven bytes of the
  record and the option fit, the message is the old one with ARCOUNT one higher, followed
  by an OPT record for 4096 byte answers that carries the DO bit exactly when DNSSEC is
  asked for and the option as its data; otherwise the message is left alone and
  \<^verbatim>\<open>PERF_R_NOSPACE\<close> returned. No assertion fails.
\<close>

theorem add_edns_correct:
  assumes "buf_wf b" and "option_wf option" and "12 \<le> buf_used b"
  shows "if fits b (11 + length (option_bytes option))
     then \<exists>b'. perf_add_edns b dnssec option = Ret (PERF_R_SUCCESS, b') \<and> buf_wf b' \<and>
       buf_length b' = buf_length b \<and>
       perf_buffer_usedregion b' = add_record (perf_buffer_usedregion b) (opt_rr dnssec (option_bytes option))
     else perf_add_edns b dnssec option = Ret (PERF_R_NOSPACE, b)"
  using add_edns_appends [OF assms] add_edns_nospace [OF assms(1,2)] by (simp add: EDNSLEN_def)

theorem add_edns_correct_witness:
  "\<exists>b'. perf_add_edns (bput (fresh 512) (replicate 20 0)) True None = Ret (PERF_R_SUCCESS, b') \<and>
    perf_buffer_usedregion b' = replicate 11 0 @ [1] @ replicate 8 0 @ opt_rr True []"
proof -
  let ?b = "bput (fresh 512) (replicate 20 0)"
  have "buf_wf ?b" "option_wf None" "12 \<le> buf_used ?b" "fits ?b 11"
    by (simp_all add: wf_intros option_wf_def)
  moreover have "add_record (replicate 20 0) rr = replicate 11 0 @ [1] @ replicate 8 0 @ rr" for rr
    by (simp add: add_record_def numeral_eq_Suc)
  ultimately show ?thesis
    using add_edns_correct [of ?b None True] by (auto simp: option_bytes_def)
qed

text \<open>
  C10. An option given as a decimal code, a colon and the hex digits of some data is parsed
  into a buffer that holds the code, the length of the data and the data, each length and
  code modulo \<open>2 ^ 16\<close>; parsing neither aborts nor exits.
\<close>

theorem parseoption_roundtrip:
  assumes "ds \<noteq> []" and "\<forall>d \<in> set ds. isdigit d" and "digits_val 10 ds < ULONG_MAX" and "data \<noteq> []"
  shows "\<exists>opt. perf_edns_parseoption (ds @ ch CHR '':'' # hex_of data) = Ret opt \<and>
    option_wf (Some opt) \<and>
    option_bytes (Some opt) = be16 (of_nat (digits_val 10 ds)) @ be16 (of_nat (length data)) @ data"
  using parseoption_hex [OF assms] by (simp add: option_wf_def option_bytes_def)

theorem parseoption_roundtrip_witness:
  "\<exists>opt. perf_edns_parseoption (cstr ''10:d0ff'') = Ret opt \<and>
    option_bytes (Some opt) = [0, 10, 0, 2, 0xd0, 0xff]"
proof -
  have "hex_of [0xd0, 0xff] = cstr ''d0ff''" "digits_val 10 (cstr ''10'') = 10"
    "\<forall>d \<in> set (cstr ''10''). isdigit d" "digits_val 10 (cstr ''10'') < ULONG_MAX"
    by (simp_all add: hex_of_def hexch_def cstr_def ch_def digits_val_def digit_val_def isdigit_def ULONG_MAX_def)
  then show ?thesis
    using parseoption_roundtrip [of "cstr ''10''" "[0xd0, 0xff]"]
    by (auto simp: cstr_def be16_def)
qed

end
