(* ===== verification/Tsig.thy ===== *)
theory Tsig
  imports Dname Edns
begin

text \<open>
  TSIG (\<^verbatim>\<open>tsig.c\<close>): parsing of a key \<^verbatim>\<open>[alg:]name:secret\<close> and the TSIG record
  that signs a request. OpenSSL is a parameter, the record \<open>openssl\<close> of its calls, each of
  which may fail; every failure of it ends the program. The hypothesis \<open>is_mac\<close> states
  what is documented of an HMAC context: reinitialised, fed with two pieces and finished,
  it yields the code of their concatenation, of at most \<^verbatim>\<open>EVP_MAX_MD_SIZE\<close> bytes.
\<close>

section \<open>The code\<close>

datatype evp_md = EVP_md5 | EVP_sha1 | EVP_sha224 | EVP_sha256 | EVP_sha384 | EVP_sha512

record 'c openssl =
  evp_decode :: "bytes \<Rightarrow> (int \<times> bytes) option"
  evp_setup :: "evp_md \<Rightarrow> bytes \<Rightarrow> 'c option"
  evp_reinit :: "'c \<Rightarrow> 'c option"
  evp_update :: "'c \<Rightarrow> bytes \<Rightarrow> 'c option"
  evp_final :: "'c \<Rightarrow> (bytes \<times> 'c) option"

text \<open>The name is held in its first \<^verbatim>\<open>namelen\<close> bytes.\<close>

record 'c perf_tsigkey =
  tsig_name :: bytes
  tsig_alg :: bytes
  tsig_ctx :: 'c

text \<open>A call whose failure is \<^verbatim>\<open>perf_log_fatal\<close>.\<close>

fun or_fatal :: "'a option \<Rightarrow> ('a \<Rightarrow> 'b outcome) \<Rightarrow> 'b outcome" where
  "or_fatal None f = Exit 1"
| "or_fatal (Some x) f = f x"

text \<open>
  A return code of \<^verbatim>\<open>EVP_DecodeUpdate\<close> other than zero is taken as a failure.
\<close>

definition decode64 :: "'c openssl \<Rightarrow> bytes \<Rightarrow> bytes option outcome" where
  "decode64 ssl base64 =
     (if base64 = [] then Abort
      else case evp_decode ssl base64 of
             None \<Rightarrow> Ret None
           | Some (rc, out) \<Rightarrow> if rc \<noteq> 0 then Ret None else Ret (Some out))"

definition tsig_algorithm :: "bytes option \<Rightarrow> (evp_md \<times> bytes) option" where
  "tsig_algorithm alg =
     (case alg of
        None \<Rightarrow> Some (EVP_md5, cstr ''hmac-md5.sig-alg.reg.int'')
      | Some alg \<Rightarrow>
          if strncasecmp_eq alg (cstr ''hmac-md5:'') 9 then Some (EVP_md5, cstr ''hmac-md5.sig-alg.reg.int'')
          else if strncasecmp_eq alg (cstr ''hmac-sha1:'') 10 then Some (EVP_sha1, cstr ''hmac-sha1'')
          else if strncasecmp_eq alg (cstr ''hmac-sha224:'') 12 then Some (EVP_sha224, cstr ''hmac-sha224'')
          else if strncasecmp_eq alg (cstr ''hmac-sha256:'') 12 then Some (EVP_sha256, cstr ''hmac-sha256'')
          else if strncasecmp_eq alg (cstr ''hmac-sha384:'') 12 then Some (EVP_sha384, cstr ''hmac-sha384'')
          else if strncasecmp_eq alg (cstr ''hmac-sha512:'') 12 then Some (EVP_sha512, cstr ''hmac-sha512'')
          else None)"

text \<open>\<^verbatim>\<open>alg\<close> points to the start of the argument, \<^verbatim>\<open>name\<close> and \<^verbatim>\<open>secret\<close> into it.\<close>

definition perf_tsig_parsekey :: "'c openssl \<Rightarrow> bytes \<Rightarrow> 'c perf_tsigkey outcome" where
  "perf_tsig_parsekey ssl arg =
     (case strchr arg (ch CHR '':'') of
        None \<Rightarrow> Exit 1
      | Some (pre, post) \<Rightarrow>
          (let (alg, name, secret) =
             (case strchr post (ch CHR '':'') of
                None \<Rightarrow> (None, pre, post)
              | Some (name, secret) \<Rightarrow> (Some arg, name, secret))
           in case tsig_algorithm alg of
                None \<Rightarrow> Exit 1
              | Some (md, algname) \<Rightarrow>
                  if length name > 256 then Exit 1
                  else if secret = [] then Exit 1
                  else
                    obind (decode64 ssl secret) (\<lambda>key.
                    or_fatal key (\<lambda>key.
                    or_fatal (evp_setup ssl md key) (\<lambda>ctx.
                    Ret \<lparr>tsig_name = map tolower name, tsig_alg = algname, tsig_ctx = ctx\<rparr>)))))"

text \<open>
  The record that is digested is built in a buffer of its own. The results are a code, the
  packet and the key, whose context the calls have changed.
\<close>

definition perf_add_tsig :: "'c openssl \<Rightarrow> u32 \<Rightarrow> perf_buffer \<Rightarrow> 'c perf_tsigkey \<Rightarrow>
    (perf_result \<times> perf_buffer \<times> 'c perf_tsigkey) outcome" where
  "perf_add_tsig ssl now packet tsigkey =
     or_fatal (evp_reinit ssl (tsig_ctx tsigkey)) (\<lambda>ctx.
     or_fatal (evp_update ssl ctx (perf_buffer_usedregion packet)) (\<lambda>ctx.
     obind (perf_dname_fromstring (tsig_name tsigkey) (perf_buffer_init (replicate 512 0) 512)) (\<lambda>(result, tmp).
     if result \<noteq> PERF_R_SUCCESS then Ret (result, packet, tsigkey\<lparr>tsig_ctx := ctx\<rparr>) else
     obind (perf_buffer_putuint16 tmp 255) (\<lambda>tmp.
     obind (perf_buffer_putuint32 tmp 0) (\<lambda>tmp.
     obind (perf_dname_fromstring (tsig_alg tsigkey) tmp) (\<lambda>(result, tmp).
     if result \<noteq> PERF_R_SUCCESS then Ret (result, packet, tsigkey\<lparr>tsig_ctx := ctx\<rparr>) else
     obind (perf_buffer_putuint16 tmp 0) (\<lambda>tmp.
     obind (perf_buffer_putuint32 tmp now) (\<lambda>tmp.
     obind (perf_buffer_putuint16 tmp 300) (\<lambda>tmp.
     obind (perf_buffer_putuint16 tmp 0) (\<lambda>tmp.
     obind (perf_buffer_putuint16 tmp 0) (\<lambda>tmp.
     or_fatal (evp_update ssl ctx (perf_buffer_usedregion tmp)) (\<lambda>ctx.
     or_fatal (evp_final ssl ctx) (\<lambda>(md, ctx).
     let tsigkey = tsigkey\<lparr>tsig_ctx := ctx\<rparr>;
         rdlen = length (tsig_alg tsigkey) + 18 + length md;
         totallen = length (tsig_name tsigkey) + 12 + rdlen in
     if totallen > perf_buffer_availablelength packet then Ret (PERF_R_NOSPACE, packet, tsigkey) else
     obind (perf_dname_fromstring (tsig_name tsigkey) packet) (\<lambda>(result, packet).
     if result \<noteq> PERF_R_SUCCESS then Ret (result, packet, tsigkey) else
     obind (perf_buffer_putuint16 packet 250) (\<lambda>packet.
     obind (perf_buffer_putuint16 packet 255) (\<lambda>packet.
     obind (perf_buffer_putuint32 packet 0) (\<lambda>packet.
     obind (perf_buffer_putuint16 packet (of_nat rdlen)) (\<lambda>packet.
     obind (perf_dname_fromstring (tsig_alg tsigkey) packet) (\<lambda>(result, packet).
     if result \<noteq> PERF_R_SUCCESS then Ret (result, packet, tsigkey) else
     obind (perf_buffer_putuint16 packet 0) (\<lambda>packet.
     obind (perf_buffer_putuint32 packet now) (\<lambda>packet.
     obind (perf_buffer_putuint16 packet 300) (\<lambda>packet.
     obind (perf_buffer_putuint16 packet (of_nat (length md))) (\<lambda>packet.
     obind (perf_buffer_putmem packet md) (\<lambda>packet.
     obind (perf_buffer_putmem packet (take 2 (buf_base packet))) (\<lambda>packet.
     obind (perf_buffer_putuint16 packet 0) (\<lambda>packet.
     obind (perf_buffer_putuint16 packet 0) (\<lambda>packet.
     obind (buf_incr packet 11) (\<lambda>packet.
     Ret (PERF_R_SUCCESS, packet, tsigkey)))))))))))))))))))))))))))))"

section \<open>Specification\<close>

definition is_mac :: "'c openssl \<Rightarrow> ('c \<Rightarrow> bool) \<Rightarrow> (bytes \<Rightarrow> bytes) \<Rightarrow> bool" where
  "is_mac ssl keyed mac \<longleftrightarrow>
     (\<forall>c. keyed c \<longrightarrow> (\<exists>c0. evp_reinit ssl c = Some c0 \<and>
        (\<forall>x. \<exists>c1. evp_update ssl c0 x = Some c1 \<and> keyed c1 \<and>
           (\<forall>y. \<exists>c2 c3. evp_update ssl c1 y = Some c2 \<and>
                evp_final ssl c2 = Some (mac (x @ y), c3) \<and> keyed c3)))) \<and>
     (\<forall>m. length (mac m) \<le> 64)"

text \<open>The owner name is given in wire format.\<close>

definition tsig_variables :: "bytes \<Rightarrow> bytes list \<Rightarrow> u32 \<Rightarrow> bytes" where
  "tsig_variables name alg now =
     name @ be16 255 @ be32 0 @ wire_name alg @
     be16 0 @ be32 now @ be16 300 @ be16 0 @ be16 0"

definition tsig_rdata :: "bytes list \<Rightarrow> u32 \<Rightarrow> bytes \<Rightarrow> bytes \<Rightarrow> bytes" where
  "tsig_rdata alg now md orig_id =
     wire_name alg @ be16 0 @ be32 now @ be16 300 @ be16 (of_nat (length md)) @ md @ orig_id @
     be16 0 @ be16 0"

definition tsig_rr :: "bytes \<Rightarrow> bytes list \<Rightarrow> u32 \<Rightarrow> bytes \<Rightarrow> bytes \<Rightarrow> bytes" where
  "tsig_rr name alg now md orig_id =
     (let rdata = tsig_rdata alg now md orig_id
      in name @ be16 250 @ be16 255 @ be32 0 @ be16 (of_nat (length rdata)) @ rdata)"

definition tsig_names :: "bytes list" where
  "tsig_names = map cstr [''hmac-md5.sig-alg.reg.int'', ''hmac-sha1'', ''hmac-sha224'',
     ''hmac-sha256'', ''hmac-sha384'', ''hmac-sha512'']"

section \<open>The TSIG record\<close>

lemma tsig_names_spec:
  "list_all (\<lambda>a. case dname_spec a of Some ls \<Rightarrow> length (wire_name ls) = length a + 2 | None \<Rightarrow> False) tsig_names"
  "list_all (\<lambda>a. length a \<le> 24) tsig_names"
  by code_simp+

lemma tsig_alg_name:
  assumes "alg \<in> set tsig_names"
  obtains als where "dname_spec alg = Some als" "length (wire_name als) = length alg + 2" "length alg \<le> 24"
  using assms tsig_names_spec by (auto simp: list_all_iff split: option.splits)

lemma length_tsig_rdata:
  "length (tsig_rdata alg now md orig_id) = length (wire_name alg) + 14 + length md + length orig_id"
  by (simp add: tsig_rdata_def)

lemma length_tsig_rr:
  "length (tsig_rr name alg now md orig_id) =
   length name + 10 + length (wire_name alg) + 14 + length md + length orig_id"
  by (simp add: tsig_rr_def Let_def length_tsig_rdata)

text \<open>
  The bytes that \<^verbatim>\<open>perf_dname_fromstring\<close> appends for a string: those of the
  specification, and none for the empty string.
\<close>

definition dname_bytes :: "bytes \<Rightarrow> bytes option" where
  "dname_bytes str = (if str = [] then Some [] else map_option wire_name (dname_spec str))"

lemma dname_bytes_fits:
  assumes "buf_wf b" and "dname_bytes str = Some nb" and "fits b (length str + 2)"
  shows "perf_dname_fromstring str b = Ret (PERF_R_SUCCESS, bput b nb)"
proof (cases "str = []")
  case True
  with assms show ?thesis by (simp add: dname_bytes_def perf_dname_fromstring_wf dname_loop.simps)
next
  case False
  with assms show ?thesis by (auto simp: dname_bytes_def put_simps)
qed

lemma dname_bytes_length: "dname_bytes str = Some nb \<Longrightarrow> length nb \<le> 256 \<and> length nb \<le> length str + 2"
  by (auto simp: dname_bytes_def dname_spec_wire dname_spec_text split: if_splits)

lemma dname_bytes_None:
  assumes "dname_bytes str = None" and "buf_wf b" and "fits b (length str + 2)"
  shows "\<exists>b'. perf_dname_fromstring str b = Ret (PERF_R_FAILURE, b')"
proof -
  have "str \<noteq> []" "dname_spec str = None" using assms(1) by (auto simp: dname_bytes_def split: if_splits)
  then show ?thesis
    using dname_fromstring_tight [OF assms(2) _ assms(3)] by (auto simp: dname_achieves_def failing_def)
qed

lemma add_tsig_result:
  assumes mac: "is_mac ssl keyed mac" and key: "keyed (tsig_ctx key)"
    and name: "dname_bytes (tsig_name key) = Some nb" "length (tsig_name key) \<le> 256"
    and alg: "dname_spec (tsig_alg key) = Some als" "length (wire_name als) = length (tsig_alg key) + 2"
      "length (tsig_alg key) \<le> 24"
    and b: "buf_wf b" "12 \<le> buf_used b"
    and md: "md = mac (perf_buffer_usedregion b @ tsig_variables nb als now)"
  shows "\<exists>ctx. keyed ctx \<and> perf_add_tsig ssl now b key =
    (if fits b (length (tsig_name key) + length (tsig_alg key) + 30 + length md)
     then obind (buf_incr (bput b (tsig_rr nb als now md (take 2 (perf_buffer_usedregion b)))) 11)
            (\<lambda>b. Ret (PERF_R_SUCCESS, b, key\<lparr>tsig_ctx := ctx\<rparr>))
     else Ret (PERF_R_NOSPACE, b, key\<lparr>tsig_ctx := ctx\<rparr>))"
proof -
  from mac key obtain c0 c1 c2 ctx where ssl: "evp_reinit ssl (tsig_ctx key) = Some c0"
      "evp_update ssl c0 (perf_buffer_usedregion b) = Some c1"
      "evp_update ssl c1 (tsig_variables nb als now) = Some c2"
      "evp_final ssl c2 = Some (md, ctx)" "keyed ctx"
    unfolding is_mac_def md by metis
  have lens: "length nb \<le> 256" "length nb \<le> length (tsig_name key) + 2"
    using dname_bytes_length [OF name(1)] by simp_all
  have vars: "perf_buffer_usedregion (bput (fresh 512) (tsig_variables nb als now)) = tsig_variables nb als now"
    using lens alg(2,3) by (simp add: tsig_variables_def fits_def)
  have avail: "perf_buffer_availablelength b < n \<longleftrightarrow> \<not> fits b n" for n
    using availablelength_fits [OF b(1), of n] by auto
  have id: "take 2 (mem_write (buf_base b) (buf_used b) bs) = take 2 (perf_buffer_usedregion b)" for bs
    using b by (simp add: mem_write_def perf_buffer_usedregion_def buf_wf_def min_def)
  show ?thesis
    using ssl lens name alg b vars
    by (intro exI [of _ ctx])
      (simp add: perf_add_tsig_def fresh_def [symmetric] put_simps dname_bytes_fits wf_intros fits_def avail id
        tsig_variables_def tsig_rr_def tsig_rdata_def Let_def ac_simps)
qed

text \<open>A key as \<^verbatim>\<open>perf_tsig_parsekey\<close> makes it.\<close>

definition tsigkey_wf :: "('c \<Rightarrow> bool) \<Rightarrow> 'c perf_tsigkey \<Rightarrow> bool" where
  "tsigkey_wf keyed key \<longleftrightarrow>
     length (tsig_name key) \<le> 256 \<and> tsig_alg key \<in> set tsig_names \<and> keyed (tsig_ctx key)"

text \<open>The room the code asks for, and the record it appends when it is there.\<close>

definition tsig_room :: "'c perf_tsigkey \<Rightarrow> bytes \<Rightarrow> nat" where
  "tsig_room key md = length (tsig_name key) + length (tsig_alg key) + 30 + length md"

lemma add_tsig_cases:
  assumes mac: "is_mac ssl keyed mac" and key: "tsigkey_wf keyed key"
    and name: "dname_bytes (tsig_name key) = Some nb" and als: "dname_spec (tsig_alg key) = Some als"
    and b: "buf_wf b" "12 \<le> buf_used b"
    and md: "md = mac (perf_buffer_usedregion b @ tsig_variables nb als now)"
  shows "\<exists>b' ctx. keyed ctx \<and>
    perf_add_tsig ssl now b key =
      Ret (if fits b (tsig_room key md) then PERF_R_SUCCESS else PERF_R_NOSPACE, b', key\<lparr>tsig_ctx := ctx\<rparr>) \<and>
    buf_wf b' \<and> buf_length b' = buf_length b \<and>
    perf_buffer_usedregion b' =
      (if fits b (tsig_room key md)
       then add_record (perf_buffer_usedregion b) (tsig_rr nb als now md (take 2 (perf_buffer_usedregion b)))
       else perf_buffer_usedregion b)"
proof -
  from key have "tsig_alg key \<in> set tsig_names" by (simp add: tsigkey_wf_def)
  with als have alg: "length (wire_name als) = length (tsig_alg key) + 2" "length (tsig_alg key) \<le> 24"
    by (auto elim: tsig_alg_name)
  from key have k: "keyed (tsig_ctx key)" "length (tsig_name key) \<le> 256" by (simp_all add: tsigkey_wf_def)
  obtain ctx where ctx: "keyed ctx" and code: "perf_add_tsig ssl now b key =
    (if fits b (tsig_room key md)
     then obind (buf_incr (bput b (tsig_rr nb als now md (take 2 (perf_buffer_usedregion b)))) 11)
            (\<lambda>b. Ret (PERF_R_SUCCESS, b, key\<lparr>tsig_ctx := ctx\<rparr>))
     else Ret (PERF_R_NOSPACE, b, key\<lparr>tsig_ctx := ctx\<rparr>))"
    using add_tsig_result [OF mac k(1) name k(2) als alg b md] unfolding tsig_room_def by blast
  show ?thesis
  proof (cases "fits b (tsig_room key md)")
    case True
    let ?rr = "tsig_rr nb als now md (take 2 (perf_buffer_usedregion b))"
    have "length ?rr \<le> tsig_room key md"
      using dname_bytes_length [OF name] alg b by (simp add: length_tsig_rr tsig_room_def)
    then have "fits b (length ?rr)" by (rule fits_mono [OF True])
    with True ctx code incr_after_bput [OF b, of ?rr] show ?thesis by fastforce
  next
    case False
    with ctx code b show ?thesis by auto
  qed
qed

lemma add_tsig_bad_name:
  assumes mac: "is_mac ssl keyed mac" and key: "tsigkey_wf keyed key"
    and name: "dname_bytes (tsig_name key) = None"
  shows "\<exists>ctx. keyed ctx \<and> perf_add_tsig ssl now b key = Ret (PERF_R_FAILURE, b, key\<lparr>tsig_ctx := ctx\<rparr>)"
proof -
  from mac key obtain c0 c1 where "evp_reinit ssl (tsig_ctx key) = Some c0"
      "evp_update ssl c0 (perf_buffer_usedregion b) = Some c1" "keyed c1"
    unfolding is_mac_def tsigkey_wf_def by metis
  moreover obtain b' where "perf_dname_fromstring (tsig_name key) (fresh 512) = Ret (PERF_R_FAILURE, b')"
    using dname_bytes_None [OF name, of "fresh 512"] key by (auto simp: tsigkey_wf_def)
  ultimately show ?thesis
    by (intro exI [of _ c1]) (simp add: perf_add_tsig_def fresh_def [symmetric])
qed

section \<open>Keys\<close>

lemma tsig_algorithm_names: "tsig_algorithm alg = Some (md, name) \<Longrightarrow> name \<in> set tsig_names"
  by (auto simp: tsig_algorithm_def tsig_names_def split: option.splits if_splits)

lemma or_fatal_eq_Ret [simp]: "or_fatal m f = Ret y \<longleftrightarrow> (\<exists>x. m = Some x \<and> f x = Ret y)"
  by (cases m) auto

lemma parsekey_wf:
  assumes "perf_tsig_parsekey ssl arg = Ret key"
    and "\<And>md k c. evp_setup ssl md k = Some c \<Longrightarrow> keyed c"
  shows "tsigkey_wf keyed key"
  using assms
  by (auto simp: perf_tsig_parsekey_def tsigkey_wf_def Let_def tsig_algorithm_names
      split: option.splits prod.splits if_splits)

lemma tsig_alg_Some: "tsigkey_wf keyed key \<Longrightarrow> \<exists>als. dname_spec (tsig_alg key) = Some als"
  by (auto simp: tsigkey_wf_def elim: tsig_alg_name)

lemma tsigkey_wf_ctx [wf_intros]:
  "tsigkey_wf keyed key \<Longrightarrow> keyed ctx \<Longrightarrow> tsigkey_wf keyed (key\<lparr>tsig_ctx := ctx\<rparr>)"
  by (simp add: tsigkey_wf_def)

lemma add_tsig_returns:
  assumes mac: "is_mac ssl keyed mac" and key: "tsigkey_wf keyed key"
    and b: "buf_wf b" "12 \<le> buf_used b"
  shows "\<exists>r b' key'. perf_add_tsig ssl now b key = Ret (r, b', key') \<and>
    r \<in> {PERF_R_SUCCESS, PERF_R_FAILURE, PERF_R_NOSPACE} \<and> buf_wf b' \<and> buf_length b' = buf_length b \<and>
    tsigkey_wf keyed key' \<and>
    (r \<noteq> PERF_R_SUCCESS \<longrightarrow> perf_buffer_usedregion b' = perf_buffer_usedregion b)"
proof (cases "dname_bytes (tsig_name key)")
  case None
  with add_tsig_bad_name [OF mac key None] key b show ?thesis by (fastforce intro: wf_intros)
next
  case (Some nb)
  obtain als where als: "dname_spec (tsig_alg key) = Some als" using tsig_alg_Some [OF key] by blast
  show ?thesis
    using add_tsig_cases [OF mac key Some als b refl, of now] tsigkey_wf_ctx [OF key] by fastforce
qed

section \<open>Properties\<close>

text \<open>
  An instance of the parameter for the witnesses: a context is the bytes fed to it, the
  code their first 16.
\<close>

definition plain_ssl :: "bytes openssl" where
  "plain_ssl = \<lparr>evp_decode = \<lambda>s. Some (0, s), evp_setup = \<lambda>md k. Some [], evp_reinit = \<lambda>c. Some [],
     evp_update = \<lambda>c x. Some (c @ x), evp_final = \<lambda>c. Some (take 16 c, [])\<rparr>"

lemma plain_ssl_mac: "is_mac plain_ssl (\<lambda>c. True) (take 16)"
  by (simp add: is_mac_def plain_ssl_def min_def)

definition plain_key :: "bytes perf_tsigkey" where
  "plain_key = \<lparr>tsig_name = cstr ''k'', tsig_alg = cstr ''hmac-sha1'', tsig_ctx = []\<rparr>"

text \<open>
  C5. Signing a message with a well-formed key whose name is a domain name: the code digests
  the message followed by the TSIG variables, and when the record fits it appends exactly a
  TSIG record with that code, a data length that is the length of its data, and the
  message's own identifier, and counts it in ARCOUNT; otherwise the message is left alone
  and \<^verbatim>\<open>PERF_R_NOSPACE\<close> returned. No assertion fails in either case.
\<close>

theorem add_tsig_correct:
  assumes "is_mac ssl keyed mac" and "tsigkey_wf keyed key"
    and "dname_spec (tsig_name key) = Some ls" and "dname_spec (tsig_alg key) = Some als"
    and "buf_wf b" and "12 \<le> buf_used b"
    and "md = mac (perf_buffer_usedregion b @ tsig_variables (wire_name ls) als now)"
  shows "\<exists>b' ctx. keyed ctx \<and>
    perf_add_tsig ssl now b key =
      Ret (if fits b (tsig_room key md) then PERF_R_SUCCESS else PERF_R_NOSPACE, b', key\<lparr>tsig_ctx := ctx\<rparr>) \<and>
    buf_wf b' \<and> buf_length b' = buf_length b \<and>
    perf_buffer_usedregion b' =
      (if fits b (tsig_room key md)
       then add_record (perf_buffer_usedregion b)
              (tsig_rr (wire_name ls) als now md (take 2 (perf_buffer_usedregion b)))
       else perf_buffer_usedregion b)"
proof -
  have "dname_bytes (tsig_name key) = Some (wire_name ls)"
    using assms(3) by (auto simp: dname_bytes_def)
  from add_tsig_cases [OF assms(1,2) this assms(4-7)] show ?thesis .
qed

theorem add_tsig_correct_witness:
  "\<exists>b' ctx. perf_add_tsig plain_ssl 7 (bput (fresh 512) (replicate 20 0)) plain_key =
      Ret (PERF_R_SUCCESS, b', plain_key\<lparr>tsig_ctx := ctx\<rparr>) \<and>
    perf_buffer_usedregion b' = add_record (replicate 20 0)
      (tsig_rr (wire_name [cstr ''k'']) [cstr ''hmac-sha1''] 7 (replicate 16 0) [0, 0])"
proof -
  let ?b = "bput (fresh 512) (replicate 20 0)"
  have key: "tsigkey_wf (\<lambda>c. True) plain_key"
    by (simp add: tsigkey_wf_def plain_key_def tsig_names_def)
  have names: "dname_spec (tsig_name plain_key) = Some [cstr ''k'']"
    "dname_spec (tsig_alg plain_key) = Some [cstr ''hmac-sha1'']"
    by code_simp+
  have b: "buf_wf ?b" "12 \<le> buf_used ?b" by (simp_all add: wf_intros)
  have md: "replicate 16 0 = take 16 (perf_buffer_usedregion ?b @ tsig_variables (wire_name [cstr ''k'']) [cstr ''hmac-sha1''] 7)"
    by simp
  have "fits ?b (tsig_room plain_key (replicate 16 0))"
    by (simp add: tsig_room_def plain_key_def)
  moreover have "take 2 (perf_buffer_usedregion ?b) = [0, 0]" by (simp add: numeral_eq_Suc)
  ultimately show ?thesis
    using add_tsig_correct [OF plain_ssl_mac key names b md] by auto
qed



text \<open>The algorithms: the name on the command line, the digest and the name on the wire.\<close>

definition tsig_algs :: "(string \<times> evp_md \<times> string) list" where
  "tsig_algs = [(''hmac-md5'', EVP_md5, ''hmac-md5.sig-alg.reg.int''),
      (''hmac-sha1'', EVP_sha1, ''hmac-sha1''), (''hmac-sha224'', EVP_sha224, ''hmac-sha224''),
      (''hmac-sha256'', EVP_sha256, ''hmac-sha256''), (''hmac-sha384'', EVP_sha384, ''hmac-sha384''),
      (''hmac-sha512'', EVP_sha512, ''hmac-sha512'')]"

lemma tolower_colon: "tolower (ch CHR '':'') = ch CHR '':''"
  by (simp add: tolower_def ch_def)

lemma alg_prefix:
  assumes "map tolower a = cstr alg" and "length p = n" and "n \<le> length alg + 1" and "map tolower (cstr p) = cstr p"
  shows "strncasecmp_eq (a @ ch CHR '':'' # rest) (cstr p) n \<longleftrightarrow> take n (alg @ '':'') = p"
proof -
  have "length a = length alg" using assms(1) by (metis length_cstr length_map)
  then have "map tolower (take n (a @ ch CHR '':'' # rest)) = take n (cstr (alg @ '':''))"
    using assms(1,3) by (cases "n = length alg + 1") (simp_all add: take_map [symmetric] cstr_def tolower_colon)
  also have "\<dots> = cstr (take n (alg @ '':''))" by (simp only: cstr_def take_map)
  finally show ?thesis using assms(2,4) by (simp add: strncasecmp_eq_def strn_eq_iff cstr_eq_iff)
qed

lemma alg_prefixes_lower:
  "map tolower (cstr ''hmac-md5:'') = cstr ''hmac-md5:''" "map tolower (cstr ''hmac-sha1:'') = cstr ''hmac-sha1:''"
  "map tolower (cstr ''hmac-sha224:'') = cstr ''hmac-sha224:''" "map tolower (cstr ''hmac-sha256:'') = cstr ''hmac-sha256:''"
  "map tolower (cstr ''hmac-sha384:'') = cstr ''hmac-sha384:''" "map tolower (cstr ''hmac-sha512:'') = cstr ''hmac-sha512:''"
  by code_simp+

lemma tsig_algorithm_found:
  assumes "(alg, md, wire) \<in> set tsig_algs" and "map tolower a = cstr alg"
  shows "tsig_algorithm (Some (a @ ch CHR '':'' # rest)) = Some (md, cstr wire)"
proof -
  note cmp = alg_prefix [OF assms(2) _ _ alg_prefixes_lower(1), of 9 rest]
    alg_prefix [OF assms(2) _ _ alg_prefixes_lower(2), of 10 rest]
    alg_prefix [OF assms(2) _ _ alg_prefixes_lower(3), of 12 rest]
    alg_prefix [OF assms(2) _ _ alg_prefixes_lower(4), of 12 rest]
    alg_prefix [OF assms(2) _ _ alg_prefixes_lower(5), of 12 rest]
    alg_prefix [OF assms(2) _ _ alg_prefixes_lower(6), of 12 rest]
  have "alg \<in> {''hmac-md5'', ''hmac-sha1'', ''hmac-sha224'', ''hmac-sha256'', ''hmac-sha384'', ''hmac-sha512''}"
    using assms(1) by (auto simp: tsig_algs_def)
  then show ?thesis
    using assms(1) cmp
    by (elim insertE emptyE) (simp_all add: tsig_algs_def tsig_algorithm_def)
qed

lemma colon_not_in_alg:
  assumes "(alg, md, wire) \<in> set tsig_algs" and "map tolower a = cstr alg"
  shows "ch CHR '':'' \<notin> set a"
proof
  assume "ch CHR '':'' \<in> set a"
  then have "tolower (ch CHR '':'') \<in> set (cstr alg)" unfolding assms(2) [symmetric] by simp
  moreover have "list_all (\<lambda>(alg, md, wire). ch CHR '':'' \<notin> set (cstr alg)) tsig_algs"
    by (simp add: tsig_algs_def cstr_def ch_def)
  ultimately show False using assms(1) by (auto simp: list_all_iff tolower_colon)
qed

text \<open>
  A key argument \<^verbatim>\<open>alg:name:secret\<close> with one of the six algorithms, in any letter
  case, gives a key with the name in lower case, the wire name of the algorithm, and the
  context set up for that algorithm with the decoded secret.
\<close>

theorem parsekey_with_algorithm:
  assumes "(alg, md, wire) \<in> set tsig_algs"
    and "map tolower a = cstr alg" and "ch CHR '':'' \<notin> set name" and "length name \<le> 256"
    and "secret \<noteq> []" and "evp_decode ssl secret = Some (0, key)" and "evp_setup ssl md key = Some ctx"
  shows "perf_tsig_parsekey ssl (a @ ch CHR '':'' # name @ ch CHR '':'' # secret) =
    Ret \<lparr>tsig_name = map tolower name, tsig_alg = cstr wire, tsig_ctx = ctx\<rparr>"
proof -
  let ?arg = "a @ ch CHR '':'' # name @ ch CHR '':'' # secret"
  have "strchr ?arg (ch CHR '':'') = Some (a, name @ ch CHR '':'' # secret)"
    using colon_not_in_alg [OF assms(1,2)] by (rule strchr_split)
  moreover have "strchr (name @ ch CHR '':'' # secret) (ch CHR '':'') = Some (name, secret)"
    using assms(3) by (rule strchr_split)
  moreover have "tsig_algorithm (Some ?arg) = Some (md, cstr wire)"
    using assms(1,2) by (rule tsig_algorithm_found)
  ultimately show ?thesis
    using assms(4-7) by (simp add: perf_tsig_parsekey_def decode64_def)
qed

theorem parsekey_with_algorithm_witness:
  "perf_tsig_parsekey plain_ssl (cstr ''HMAC-sha256:Key.Example:c2VjcmV0'') =
    Ret \<lparr>tsig_name = cstr ''key.example'', tsig_alg = cstr ''hmac-sha256'', tsig_ctx = []\<rparr>"
proof -
  have "(''hmac-sha256'', EVP_sha256, ''hmac-sha256'') \<in> set tsig_algs" by (simp add: tsig_algs_def)
  moreover have "map tolower (cstr ''HMAC-sha256'') = cstr ''hmac-sha256''"
    "ch CHR '':'' \<notin> set (cstr ''Key.Example'')" "map tolower (cstr ''Key.Example'') = cstr ''key.example''"
    by (simp_all add: cstr_def ch_def tolower_def)
  ultimately show ?thesis
    using parsekey_with_algorithm [of "''hmac-sha256''" EVP_sha256 "''hmac-sha256''" "cstr ''HMAC-sha256''"
        "cstr ''Key.Example''" "cstr ''c2VjcmV0''" plain_ssl "cstr ''c2VjcmV0''" "[]"]
    by (simp add: plain_ssl_def cstr_def)
qed

end
