(* ===== verification/Dns.thy ===== *)
theory Dns
  imports Query Tsig
begin

text \<open>
  Requests: \<^verbatim>\<open>perf_dns_buildrequest\<close> of \<^verbatim>\<open>dns.c\<close>, which writes the header and
  composes the question, the OPT record and the TSIG record. The function that builds
  dynamic updates exists only when the program is built with LDNS; it is an argument,
  \<open>None\<close> for a build without it.
\<close>

section \<open>The code\<close>

definition perf_dns_buildrequest :: "'c openssl \<Rightarrow> u32 \<Rightarrow>
    (bytes \<Rightarrow> perf_buffer \<Rightarrow> (perf_result \<times> perf_buffer) outcome) option \<Rightarrow>
    bytes \<Rightarrow> u16 \<Rightarrow> bool \<Rightarrow> bool \<Rightarrow> bool \<Rightarrow> 'c perf_tsigkey option \<Rightarrow> perf_ednsoption option \<Rightarrow> perf_buffer \<Rightarrow>
    (perf_result \<times> perf_buffer \<times> 'c perf_tsigkey option) outcome" where
  "perf_dns_buildrequest ssl now build_update record qid edns dnssec is_update tsigkey edns_option msg =
     (let flags = (if is_update then push_bit 11 5 else 0x0100) in
      obind (perf_buffer_putuint16 msg qid) (\<lambda>msg.
      obind (perf_buffer_putuint16 msg flags) (\<lambda>msg.
      obind (perf_buffer_putuint16 msg 1) (\<lambda>msg.
      obind (perf_buffer_putuint16 msg 0) (\<lambda>msg.
      obind (perf_buffer_putuint16 msg 0) (\<lambda>msg.
      obind (perf_buffer_putuint16 msg 0) (\<lambda>msg.
      obind (if is_update
             then (case build_update of Some build \<Rightarrow> build record msg | None \<Rightarrow> Ret (PERF_R_FAILURE, msg))
             else build_query record msg) (\<lambda>(result, msg).
      obind (if result = PERF_R_SUCCESS \<and> edns then perf_add_edns msg dnssec edns_option
             else Ret (result, msg)) (\<lambda>(result, msg).
      case tsigkey of
        Some key \<Rightarrow>
          if result = PERF_R_SUCCESS
          then obind (perf_add_tsig ssl now msg key) (\<lambda>(result, msg, key). Ret (result, msg, Some key))
          else Ret (result, msg, tsigkey)
      | None \<Rightarrow> Ret (result, msg, tsigkey))))))))))"

section \<open>Specification\<close>

definition dns_header :: "u16 \<Rightarrow> nat \<Rightarrow> bytes" where
  "dns_header qid arcount = be16 qid @ be16 0x0100 @ be16 1 @ be16 0 @ be16 0 @ be16 (of_nat arcount)"

lemma length_dns_header [simp]: "length (dns_header qid n) = 12"
  by (simp add: dns_header_def)

lemma be16_small: "n < 256 \<Longrightarrow> be16 (of_nat n) = [0, of_nat n]"
proof -
  assume "n < 256"
  then have "ucast (drop_bit 8 (of_nat n :: u16)) = (0 :: u8)"
    using unat_be16_hi [of n] by (simp add: unat_eq_0)
  moreover have "ucast (of_nat n :: u16) = (of_nat n :: u8)"
    using \<open>n < 256\<close> by (simp add: word_unat_eq_iff unat_be16_lo unat_of_nat)
  ultimately show ?thesis by (simp add: be16_def)
qed

lemma dns_header_small:
  assumes "n < 256"
  obtains hd where "dns_header qid n = hd @ [0, of_nat n]" "length hd = 10"
    "\<And>m. m < 256 \<Longrightarrow> dns_header qid m = hd @ [0, of_nat m]"
  using assms by (intro that [of "be16 qid @ be16 0x0100 @ be16 1 @ be16 0 @ be16 0"])
    (simp_all add: dns_header_def be16_small)

text \<open>Adding a record to a message counts it in the header.\<close>

lemma add_record_header:
  assumes "n < 255"
  shows "add_record (dns_header qid n @ body) rr = dns_header qid (n + 1) @ body @ rr"
proof -
  from assms obtain hd where h: "dns_header qid n = hd @ [0, of_nat n]" "length hd = 10"
      "dns_header qid (n + 1) = hd @ [0, of_nat (n + 1)]"
    using dns_header_small [of n qid] by force
  then show ?thesis
    by (simp add: add_record_def nth_append list_update_append)
qed

definition with_edns :: "bool \<Rightarrow> bool \<Rightarrow> perf_ednsoption option \<Rightarrow> bytes" where
  "with_edns edns dnssec option = (if edns then opt_rr dnssec (option_bytes option) else [])"

text \<open>The message before its signature and the signature's record.\<close>

definition unsigned_request :: "u16 \<Rightarrow> bytes list \<Rightarrow> u16 \<Rightarrow> bool \<Rightarrow> bool \<Rightarrow> perf_ednsoption option \<Rightarrow> bytes" where
  "unsigned_request qid ls qtype edns dnssec option =
     dns_header qid (if edns then 1 else 0) @ question_bytes ls qtype @ with_edns edns dnssec option"

section \<open>Composition\<close>

text \<open>A query from its header on.\<close>

definition after_question :: "'c openssl \<Rightarrow> u32 \<Rightarrow> bool \<Rightarrow> bool \<Rightarrow> 'c perf_tsigkey option \<Rightarrow> perf_ednsoption option \<Rightarrow>
    perf_result \<times> perf_buffer \<Rightarrow> (perf_result \<times> perf_buffer \<times> 'c perf_tsigkey option) outcome" where
  "after_question ssl now edns dnssec tsigkey edns_option = (\<lambda>(result, msg).
      obind (if result = PERF_R_SUCCESS \<and> edns then perf_add_edns msg dnssec edns_option
             else Ret (result, msg)) (\<lambda>(result, msg).
      case tsigkey of
        Some key \<Rightarrow>
          if result = PERF_R_SUCCESS
          then obind (perf_add_tsig ssl now msg key) (\<lambda>(result, msg, key). Ret (result, msg, Some key))
          else Ret (result, msg, tsigkey)
      | None \<Rightarrow> Ret (result, msg, tsigkey)))"

lemma buildrequest_header:
  assumes "buf_wf msg" and "fits msg 12"
  shows "perf_dns_buildrequest ssl now upd line qid edns dnssec False tsigkey option msg =
    obind (build_query line (bput msg (dns_header qid 0))) (after_question ssl now edns dnssec tsigkey option)"
  using assms
  by (simp add: perf_dns_buildrequest_def after_question_def put_simps wf_intros fits_def dns_header_def)

lemma after_question_failed:
  "r \<noteq> PERF_R_SUCCESS \<Longrightarrow> after_question ssl now edns dnssec tsigkey option (r, msg) = Ret (r, msg, tsigkey)"
  by (simp add: after_question_def split: option.splits)

text \<open>The message when the signature is due.\<close>

lemma after_question_edns:
  assumes b: "buf_wf b" "12 \<le> buf_used b" "option_wf option"
    and region: "perf_buffer_usedregion b = dns_header qid 0 @ question_bytes ls v"
  shows "\<exists>r b'. buf_wf b' \<and> 12 \<le> buf_used b' \<and> buf_length b' = buf_length b \<and>
    after_question ssl now edns dnssec tsigkey option (PERF_R_SUCCESS, b) =
      after_question ssl now False dnssec tsigkey option (r, b') \<and>
    (if fits b (length (with_edns edns dnssec option))
     then r = PERF_R_SUCCESS \<and> perf_buffer_usedregion b' = unsigned_request qid ls v edns dnssec option
     else r = PERF_R_NOSPACE)"
proof (cases "edns \<and> fits b (EDNSLEN + length (option_bytes option))")
  case True
  then obtain b' where b': "perf_add_edns b dnssec option = Ret (PERF_R_SUCCESS, b')" "buf_wf b'"
      "buf_length b' = buf_length b"
      "perf_buffer_usedregion b' = add_record (perf_buffer_usedregion b) (opt_rr dnssec (option_bytes option))"
    using add_edns_appends [OF b(1,3,2)] by blast
  have reg: "perf_buffer_usedregion b' = unsigned_request qid ls v edns dnssec option"
    using True by (simp add: b'(4) region add_record_header [of 0, simplified] unsigned_request_def with_edns_def)
  have "12 \<le> length (perf_buffer_usedregion b')" by (simp add: reg unsigned_request_def)
  then have "12 \<le> buf_used b'" using b'(2) by simp
  with True b' reg show ?thesis
    by (intro exI [of _ PERF_R_SUCCESS] exI [of _ b']) (simp add: after_question_def with_edns_def)
next
  case False
  show ?thesis
  proof (cases edns)
    case True
    with False add_edns_nospace [OF b(1,3)] have "perf_add_edns b dnssec option = Ret (PERF_R_NOSPACE, b)"
      by simp
    with True False b show ?thesis
      by (intro exI [of _ PERF_R_NOSPACE] exI [of _ b])
        (simp add: after_question_def with_edns_def split: option.splits)
  next
    case no: False
    with b region show ?thesis
      by (intro exI [of _ PERF_R_SUCCESS] exI [of _ b]) (simp add: unsigned_request_def with_edns_def)
  qed
qed

lemma question_room:
  assumes "question_spec line = Some (ls, v)"
  shows "length (question_bytes ls v) \<le> 260"
  using assms length_question_bytes by (auto simp: question_spec_def Let_def split: if_splits option.splits)

text \<open>A line that is a question, with room for it and for its text.\<close>

lemma buildrequest_question:
  assumes msg: "buf_wf msg" "buf_used msg = 0" "fits msg (272 + length line)"
    and q: "question_spec line = Some (ls, v)" and opt: "option_wf option"
    and room: "fits msg (length (unsigned_request qid ls v edns dnssec option))"
  shows "\<exists>b'. buf_wf b' \<and> 12 \<le> buf_used b' \<and> buf_length b' = buf_length msg \<and>
    perf_buffer_usedregion b' = unsigned_request qid ls v edns dnssec option \<and>
    perf_dns_buildrequest ssl now upd line qid edns dnssec False tsigkey option msg =
      after_question ssl now False dnssec tsigkey option (PERF_R_SUCCESS, b')"
proof -
  let ?h = "bput msg (dns_header qid 0)" and ?q = "question_bytes ls v"
  let ?dn = "takeWhile (\<lambda>b. b \<noteq> 0 \<and> b \<notin> set WHITESPACE) line"
  have fit: "fits msg 12" "fits msg (272 + length ?dn)" "fits msg (12 + length ?q)" "fits msg 272"
    using fits_mono [OF msg(3)] length_takeWhile_le [of _ line] question_room [OF q] by simp_all
  have h: "buf_wf ?h" "fits ?h 260" "fits ?h (length ?dn)"
    using fit fits_mono [OF fit(2)] msg(1) by (simp_all add: wf_intros)
  have bq: "build_query line ?h = Ret (PERF_R_SUCCESS, bput ?h ?q)"
    using build_query_spec [OF h(1,2) refl, of line] q h(3) by simp
  let ?b = "bput ?h ?q"
  have b: "buf_wf ?b" "12 \<le> buf_used ?b" using fit h(1) msg by (simp_all add: wf_intros)
  have "perf_buffer_usedregion msg = []" using msg(2) by (simp add: perf_buffer_usedregion_def)
  then have region: "perf_buffer_usedregion ?b = dns_header qid 0 @ ?q" using fit msg by simp
  have "fits ?b (length (with_edns edns dnssec option))"
    using room by (simp add: unsigned_request_def add.assoc)
  with after_question_edns [OF b opt region, of ssl now edns dnssec tsigkey] obtain b' where
    "buf_wf b'" "12 \<le> buf_used b'" "buf_length b' = buf_length ?b"
    "after_question ssl now edns dnssec tsigkey option (PERF_R_SUCCESS, ?b) =
      after_question ssl now False dnssec tsigkey option (PERF_R_SUCCESS, b')"
    "perf_buffer_usedregion b' = unsigned_request qid ls v edns dnssec option"
    by auto
  moreover have "perf_dns_buildrequest ssl now upd line qid edns dnssec False tsigkey option msg =
      after_question ssl now edns dnssec tsigkey option (PERF_R_SUCCESS, ?b)"
    by (simp only: buildrequest_header [OF msg(1) fit(1)] bq obind.simps)
  ultimately show ?thesis by (intro exI [of _ b']) simp
qed

lemma after_question_tsig:
  "after_question ssl now False dnssec tsigkey option (PERF_R_SUCCESS, b) =
     (case tsigkey of
        Some key \<Rightarrow> obind (perf_add_tsig ssl now b key) (\<lambda>(result, msg, key). Ret (result, msg, Some key))
      | None \<Rightarrow> Ret (PERF_R_SUCCESS, b, None))"
  by (simp add: after_question_def split: option.splits)

lemma after_question_returns:
  assumes "is_mac ssl keyed mac" and "case tsigkey of None \<Rightarrow> True | Some key \<Rightarrow> tsigkey_wf keyed key"
    and "buf_wf b" and "12 \<le> buf_used b"
  shows "\<exists>r b' key'. after_question ssl now False dnssec tsigkey option (r0, b) = Ret (r, b', key') \<and>
    buf_wf b' \<and> buf_length b' = buf_length b \<and> (case key' of None \<Rightarrow> True | Some key \<Rightarrow> tsigkey_wf keyed key)"
proof (cases "r0 = PERF_R_SUCCESS")
  case True
  show ?thesis
  proof (cases tsigkey)
    case None
    with True assms show ?thesis by (simp add: after_question_tsig)
  next
    case (Some key)
    with assms(2) have "tsigkey_wf keyed key" by simp
    from add_tsig_returns [OF assms(1) this assms(3,4), of now] obtain r b' k
      where "perf_add_tsig ssl now b key = Ret (r, b', k)" "buf_wf b'" "buf_length b' = buf_length b"
        "tsigkey_wf keyed k" by blast
    with True Some show ?thesis by (simp add: after_question_tsig)
  qed
next
  case False
  with assms show ?thesis by (simp add: after_question_failed)
qed

lemma buildrequest_all:
  assumes msg: "buf_wf msg" "buf_used msg = 0" "512 \<le> buf_length msg" and opt: "option_wf option"
    and mac: "is_mac ssl keyed mac" "case tsigkey of None \<Rightarrow> True | Some key \<Rightarrow> tsigkey_wf keyed key"
  shows "\<exists>r b' key'. perf_dns_buildrequest ssl now upd line qid edns dnssec False tsigkey option msg =
      Ret (r, b', key') \<and> buf_wf b' \<and> buf_length b' = buf_length msg \<and>
      (case key' of None \<Rightarrow> True | Some key \<Rightarrow> tsigkey_wf keyed key)"
proof -
  let ?h = "bput msg (dns_header qid 0)"
  have fit: "fits msg 12" "fits msg 272" using msg by (simp_all add: fits_def)
  have h: "buf_wf ?h" "fits ?h 260" using fit msg(1) by (simp_all add: wf_intros)
  note code = buildrequest_header [OF msg(1) fit(1), of ssl now upd line qid edns dnssec tsigkey option]
  note bq = build_query_spec [OF h refl, of line]
  show ?thesis
  proof (cases "question_spec line")
    case None
    with bq obtain r b' where "build_query line ?h = Ret (r, b')" "r \<noteq> PERF_R_SUCCESS" "buf_wf b'"
      "buf_length b' = buf_length msg" by auto
    with code mac(2) show ?thesis by (simp add: after_question_failed)
  next
    case (Some q)
    obtain ls v where q: "q = (ls, v)" by (cases q)
    let ?b = "bput ?h (question_bytes ls v)"
    have "length (question_bytes ls v) \<le> 260" using Some q by (simp add: question_room)
    then have fits: "fits ?h (length (question_bytes ls v))" by (rule fits_mono [OF h(2)])
    then have b: "buf_wf ?b" "12 \<le> buf_used ?b" using h(1) by (simp_all add: wf_intros)
    have "perf_buffer_usedregion msg = []" using msg(2) by (simp add: perf_buffer_usedregion_def)
    then have region: "perf_buffer_usedregion ?b = dns_header qid 0 @ question_bytes ls v"
      using fits fit h(1) msg(1) by simp
    from bq Some q consider "build_query line ?h = Ret (PERF_R_SUCCESS, ?b)"
      | "build_query line ?h = Ret (PERF_R_NOSPACE, ?h)" by (auto split: if_splits)
    then show ?thesis
    proof cases
      case 1
      obtain r b' where b': "buf_wf b'" "12 \<le> buf_used b'" "buf_length b' = buf_length ?b"
        and eq: "after_question ssl now edns dnssec tsigkey option (PERF_R_SUCCESS, ?b) =
          after_question ssl now False dnssec tsigkey option (r, b')"
        using after_question_edns [OF b opt region, of ssl now edns dnssec tsigkey] by blast
      have "perf_dns_buildrequest ssl now upd line qid edns dnssec False tsigkey option msg =
          after_question ssl now False dnssec tsigkey option (r, b')"
        by (simp only: code 1 obind.simps eq)
      then show ?thesis
        using after_question_returns [OF mac b'(1,2), of now dnssec option r] b'(3) by simp
    next
      case 2
      with code h(1) mac(2) show ?thesis by (simp add: after_question_failed)
    qed
  qed
qed

section \<open>Properties\<close>

text \<open>
  A query without a signature: for every line that holds a valid name and a known type,
  in an empty buffer with room for it, the message built is the header with the identifier,
  the RD flag, one question and one additional record exactly when EDNS is on, then the
  question in wire format with class IN, then the OPT record, and nothing else.
\<close>

theorem buildrequest_unsigned:
  assumes "buf_wf msg" and "buf_used msg = 0" and "fits msg (272 + length line)"
    and "question_spec line = Some (ls, v)" and "option_wf option"
    and "fits msg (length (unsigned_request qid ls v edns dnssec option))"
  shows "\<exists>b'. perf_dns_buildrequest ssl now upd line qid edns dnssec False None option msg =
      Ret (PERF_R_SUCCESS, b', None) \<and>
    perf_buffer_usedregion b' = unsigned_request qid ls v edns dnssec option"
  using buildrequest_question [OF assms, of ssl now upd None] by (auto simp: after_question_tsig)

theorem buildrequest_unsigned_witness:
  "\<exists>b'. perf_dns_buildrequest plain_ssl 7 None (cstr ''example.com AAAA'') 0x1234 True True False None None (fresh 512) =
      Ret (PERF_R_SUCCESS, b', None) \<and>
    perf_buffer_usedregion b' =
      [0x12, 0x34, 1, 0, 0, 1, 0, 0, 0, 0, 0, 1,
       7, 101, 120, 97, 109, 112, 108, 101, 3, 99, 111, 109, 0, 0, 28, 0, 1,
       0, 0, 41, 16, 0, 0, 0, 0x80, 0, 0, 0]"
proof -
  have bytes: "unsigned_request 0x1234 [cstr ''example'', cstr ''com''] 28 True True None =
      [0x12, 0x34, 1, 0, 0, 1, 0, 0, 0, 0, 0, 1,
       7, 101, 120, 97, 109, 112, 108, 101, 3, 99, 111, 109, 0, 0, 28, 0, 1,
       0, 0, 41, 16, 0, 0, 0, 0x80, 0, 0, 0]"
    by code_simp
  show ?thesis
    using buildrequest_unsigned [of "fresh 512" "cstr ''example.com AAAA''" _ _
        None "0x1234" True True plain_ssl 7 None, OF _ _ _ question_example] bytes
    by (simp add: option_wf_def)
qed

text \<open>
  C1. A signed query: the message is the unsigned one with ARCOUNT one higher, followed by a
  TSIG record whose code is that of the unsigned message and the TSIG variables and whose
  original identifier is that of the message.
\<close>

theorem buildrequest_signed:
  assumes "buf_wf msg" and "buf_used msg = 0" and "fits msg (272 + length line)"
    and "question_spec line = Some (ls, v)" and "option_wf option"
    and "is_mac ssl keyed mac" and "tsigkey_wf keyed key"
    and "dname_spec (tsig_name key) = Some kn" and "dname_spec (tsig_alg key) = Some als"
    and "md = mac (unsigned_request qid ls v edns dnssec option @ tsig_variables (wire_name kn) als now)"
    and "fits msg (length (unsigned_request qid ls v edns dnssec option) + tsig_room key md)"
  shows "\<exists>b' key'. perf_dns_buildrequest ssl now upd line qid edns dnssec False (Some key) option msg =
      Ret (PERF_R_SUCCESS, b', Some key') \<and> tsigkey_wf keyed key' \<and>
    perf_buffer_usedregion b' = dns_header qid (if edns then 2 else 1) @ question_bytes ls v @
      with_edns edns dnssec option @ tsig_rr (wire_name kn) als now md (be16 qid)"
proof -
  let ?m = "unsigned_request qid ls v edns dnssec option"
  have "fits msg (length ?m)" using assms(11) by (rule fits_mono) simp
  from buildrequest_question [OF assms(1-5) this, of ssl now upd "Some key"] obtain b where
    b: "buf_wf b" "12 \<le> buf_used b" "buf_length b = buf_length msg" "perf_buffer_usedregion b = ?m"
    and code: "perf_dns_buildrequest ssl now upd line qid edns dnssec False (Some key) option msg =
      after_question ssl now False dnssec (Some key) option (PERF_R_SUCCESS, b)" by blast
  have "buf_used b = length ?m" using length_usedregion [OF b(1)] b(4) by simp
  then have room: "fits b (tsig_room key md)" using assms(2,11) b(3) by (simp add: fits_def)
  have name: "dname_bytes (tsig_name key) = Some (wire_name kn)" using assms(8) by (auto simp: dname_bytes_def)
  have md: "md = mac (perf_buffer_usedregion b @ tsig_variables (wire_name kn) als now)"
    by (simp add: assms(10) b(4))
  obtain b' ctx where "keyed ctx" "perf_add_tsig ssl now b key = Ret (PERF_R_SUCCESS, b', key\<lparr>tsig_ctx := ctx\<rparr>)"
      "perf_buffer_usedregion b' = add_record ?m (tsig_rr (wire_name kn) als now md (take 2 ?m))"
    using add_tsig_cases [OF assms(6,7) name assms(9) b(1,2) md] room b(4) by auto
  moreover have "take 2 ?m = be16 qid" by (simp add: unsigned_request_def dns_header_def)
  ultimately show ?thesis
    using code assms(7) add_record_header [of 0 qid] add_record_header [of 1 qid]
    by (simp add: after_question_tsig wf_intros unsigned_request_def numeral_2_eq_2)
qed

theorem buildrequest_signed_witness:
  "\<exists>b' key'. perf_dns_buildrequest plain_ssl 7 None (cstr ''example.com AAAA'') 0x1234 False False False
      (Some plain_key) None (fresh 512) = Ret (PERF_R_SUCCESS, b', Some key') \<and>
    perf_buffer_usedregion b' = dns_header 0x1234 1 @ question_bytes [cstr ''example'', cstr ''com''] 28 @
      tsig_rr (wire_name [cstr ''k'']) [cstr ''hmac-sha1''] 7
        (take 16 (unsigned_request 0x1234 [cstr ''example'', cstr ''com''] 28 False False None)) [0x12, 0x34]"
proof -
  let ?m = "unsigned_request 0x1234 [cstr ''example'', cstr ''com''] 28 False False None"
  have key: "tsigkey_wf (\<lambda>c. True) plain_key"
    by (simp add: tsigkey_wf_def plain_key_def tsig_names_def)
  have names: "dname_spec (tsig_name plain_key) = Some [cstr ''k'']"
    "dname_spec (tsig_alg plain_key) = Some [cstr ''hmac-sha1'']"
    by code_simp+
  have len: "length ?m = 29" and id: "be16 0x1234 = [0x12, 0x34]" by code_simp+
  have md: "take 16 ?m = take 16 (?m @ tsig_variables (wire_name [cstr ''k'']) [cstr ''hmac-sha1''] 7)"
    by (simp add: len)
  have "tsig_room plain_key (take 16 ?m) = 56" by (simp add: tsig_room_def plain_key_def len)
  then have "fits (fresh 512) (length ?m + tsig_room plain_key (take 16 ?m))" by (simp add: len)
  from buildrequest_signed [where upd = None, OF _ _ _ question_example _ plain_ssl_mac key names md this]
  show ?thesis by (auto simp: option_wf_def with_edns_def id)
qed

text \<open>
  C4. For every line of input, every combination of options, and every usable key, building
  a query in a cleared message buffer of at least 512 bytes returns: no assertion fails and
  no byte outside the line is read, and the buffer and the key can be used for the next
  request.
\<close>

theorem buildrequest_returns:
  assumes "buf_wf msg" and "buf_used msg = 0" and "512 \<le> buf_length msg" and "option_wf option"
    and "is_mac ssl keyed mac" and "case tsigkey of None \<Rightarrow> True | Some key \<Rightarrow> tsigkey_wf keyed key"
  shows "\<exists>r b' key'. perf_dns_buildrequest ssl now upd line qid edns dnssec False tsigkey option msg =
      Ret (r, b', key') \<and> buf_wf b' \<and> buf_length b' = buf_length msg \<and>
      (case key' of None \<Rightarrow> True | Some key \<Rightarrow> tsigkey_wf keyed key)"
  using assms by (rule buildrequest_all)

theorem buildrequest_returns_witness:
  "\<exists>r b' key'. perf_dns_buildrequest plain_ssl 7 None (cstr ''a..b nonsense'') 1 True True False
      (Some plain_key) None (fresh 512) = Ret (r, b', key') \<and> buf_wf b' \<and> buf_length b' = 512"
proof -
  have "case Some plain_key of None \<Rightarrow> True | Some key \<Rightarrow> tsigkey_wf (\<lambda>c. True) key"
    by (simp add: tsigkey_wf_def plain_key_def tsig_names_def)
  from buildrequest_returns [OF _ _ _ _ plain_ssl_mac this, of "fresh 512" None 7 None "cstr ''a..b nonsense''" 1 True True]
  show ?thesis by (auto simp: option_wf_def)
qed

end
