(* ===== verification/Datafile.thy ===== *)
theory Datafile
  imports Buffer
begin

text \<open>
  The input file (\<^verbatim>\<open>datafile.c\<close>): lines or length-prefixed messages are read from a
  file or a pipe through a buffer of 64 KiB, and a file is read again until the given
  number of runs is reached. The operating system is a parameter: the bytes of the input,
  the number of bytes a \<^verbatim>\<open>read\<close> offers at each position, the positions at which it
  fails, the result of waiting at each position and whether the descriptor can seek. The
  lemmas show that the lines do not depend on how the bytes arrive.
\<close>

section \<open>The operating system\<close>

record input =
  in_bytes :: bytes
  in_pos :: nat
  in_chunk :: "nat \<Rightarrow> nat"
  in_fail :: "nat \<Rightarrow> bool"
  in_wait :: "nat \<Rightarrow> perf_result"
  in_seekable :: bool

text \<open>
  \<^verbatim>\<open>read\<close>: an error, or at least one and at most \<open>mx\<close> of the bytes that follow; none
  at the end or when none are asked for.
\<close>

definition os_read :: "input \<Rightarrow> nat \<Rightarrow> bytes option \<times> input" where
  "os_read s mx =
     (if in_fail s (in_pos s) then (None, s)
      else let bs = take (min mx (max 1 (in_chunk s (in_pos s)))) (drop (in_pos s) (in_bytes s))
           in (Some bs, s\<lparr>in_pos := in_pos s + length bs\<rparr>))"

lemma os_readD:
  assumes "os_read s mx = (Some bs, s')"
  shows "s' = s\<lparr>in_pos := in_pos s + length bs\<rparr>" and "bs = take (length bs) (drop (in_pos s) (in_bytes s))"
    and "length bs \<le> mx" and "bs = [] \<Longrightarrow> mx = 0 \<or> length (in_bytes s) \<le> in_pos s"
proof -
  let ?k = "min mx (max 1 (in_chunk s (in_pos s)))" and ?r = "drop (in_pos s) (in_bytes s)"
  have bs: "bs = take ?k ?r" and "s' = s\<lparr>in_pos := in_pos s + length bs\<rparr>"
    using assms by (auto simp: os_read_def Let_def split: if_splits)
  then show "s' = s\<lparr>in_pos := in_pos s + length bs\<rparr>" by simp
  have "take (length (take k xs)) xs = take k xs" for k and xs :: bytes by (cases "k \<le> length xs") simp_all
  then show "bs = take (length bs) ?r" unfolding bs by metis
  show "length bs \<le> mx" unfolding bs by simp
  show "bs = [] \<Longrightarrow> mx = 0 \<or> length (in_bytes s) \<le> in_pos s" unfolding bs by auto
qed

lemma os_read_None: "os_read s mx = (None, s') \<Longrightarrow> in_fail s (in_pos s) \<and> s' = s"
  by (auto simp: os_read_def Let_def split: if_splits)

section \<open>The structure\<close>

datatype perf_input_format =
  input_format_text_query | input_format_text_update | input_format_tcp_wire_format

text \<open>
  \<open>df_data\<close> is the first \<^verbatim>\<open>have\<close> bytes of \<^verbatim>\<open>databuf\<close>. For text the byte after them
  is zero, which ends a scan for a newline there.
\<close>

record perf_datafile =
  df_pipe_fd :: int
  df_is_file :: bool
  df_size :: nat
  df_at :: nat
  df_data :: bytes
  df_cached :: bool
  df_maxruns :: u32
  df_nruns :: u32
  df_read_any :: bool
  df_format :: perf_input_format

definition DATABUF :: nat where
  "DATABUF = 64 * 1024 + 2"

abbreviation df_have :: "perf_datafile \<Rightarrow> nat" where
  "df_have df \<equiv> length (df_data df)"

text \<open>
  \<^verbatim>\<open>perf_datafile_open\<close>, with the outcome of \<^verbatim>\<open>open\<close> and \<^verbatim>\<open>fstat\<close>: \<open>None\<close> when the
  file can not be opened, the size of a regular file, or no size for standard input and anything else.
\<close>

definition perf_datafile_open :: "(nat option) option \<Rightarrow> perf_input_format \<Rightarrow> perf_datafile outcome" where
  "perf_datafile_open opened format =
     (case opened of
        None \<Rightarrow> Exit 1
      | Some st_size \<Rightarrow>
          Ret \<lparr>df_pipe_fd = -1, df_is_file = (st_size \<noteq> None), df_size = (case st_size of None \<Rightarrow> 0 | Some n \<Rightarrow> n),
               df_at = 0, df_data = [], df_cached = False, df_maxruns = 1, df_nruns = 0,
               df_read_any = False, df_format = format\<rparr>)"

definition perf_datafile_setpipefd :: "perf_datafile \<Rightarrow> int \<Rightarrow> perf_datafile" where
  "perf_datafile_setpipefd df pipe_fd = df\<lparr>df_pipe_fd := pipe_fd\<rparr>"

definition perf_datafile_setmaxruns :: "perf_datafile \<Rightarrow> u32 \<Rightarrow> perf_datafile" where
  "perf_datafile_setmaxruns df maxruns = df\<lparr>df_maxruns := maxruns\<rparr>"

definition perf_datafile_nruns :: "perf_datafile \<Rightarrow> u32" where
  "perf_datafile_nruns df = df_nruns df"

definition reopen_file :: "perf_datafile \<Rightarrow> input \<Rightarrow> (perf_datafile \<times> input) outcome" where
  "reopen_file df s =
     (if df_cached df then Ret (df\<lparr>df_at := 0\<rparr>, s)
      else if \<not> in_seekable s then Exit 1
      else Ret (df\<lparr>df_at := 0, df_data := []\<rparr>, s\<lparr>in_pos := 0\<rparr>))"

definition compact :: "perf_datafile \<Rightarrow> perf_datafile" where
  "compact df =
     (if df_at df \<noteq> 0 \<and> df_at df < df_have df then df\<lparr>df_data := drop (df_at df) (df_data df), df_at := 0\<rparr>
      else if df_at df = df_have df then df\<lparr>df_data := [], df_at := 0\<rparr>
      else df)"

definition read_more :: "perf_datafile \<Rightarrow> input \<Rightarrow> perf_result \<times> perf_datafile \<times> input" where
  "read_more df s =
     (let waited = (if \<not> df_is_file df \<and> df_pipe_fd df \<ge> 0 then in_wait s (in_pos s) else PERF_R_SUCCESS) in
      if waited \<noteq> PERF_R_SUCCESS then (waited, df, s)
      else
        let df = compact df in
        case os_read s (size_sub DATABUF (df_have df + 1)) of
          (None, s) \<Rightarrow> (PERF_R_FAILURE, df, s)
        | (Some bs, s) \<Rightarrow>
            if bs = [] then (PERF_R_EOF, df, s)
            else
              let df = df\<lparr>df_data := df_data df @ bs\<rparr> in
              (PERF_R_SUCCESS, if df_is_file df \<and> df_have df = df_size df then df\<lparr>df_cached := True\<rparr> else df, s))"

lemma read_more_success:
  assumes "read_more df s = (PERF_R_SUCCESS, df', s')"
  shows "in_bytes s' = in_bytes s" and "in_pos s < in_pos s'" and "in_pos s' \<le> length (in_bytes s)"
    and "df_have df' - df_at df' \<le> df_have df - df_at df + (in_pos s' - in_pos s)"
    and "df_at df \<le> df_have df \<Longrightarrow> df_have df' - df_at df' = df_have df - df_at df + (in_pos s' - in_pos s)"
proof -
  obtain bs where rd: "os_read s (size_sub DATABUF (df_have (compact df) + 1)) = (Some bs, s')" "bs \<noteq> []"
    and df': "df_data df' = df_data (compact df) @ bs" "df_at df' = df_at (compact df)"
    using assms by (auto simp: read_more_def Let_def split: if_splits prod.splits option.splits)
  note bs = os_readD(2) [OF rd(1)] rd(2) os_readD(1) [OF rd(1)] df'
  show "in_bytes s' = in_bytes s" and "in_pos s < in_pos s'" using bs(2,3) by simp_all
  have "length bs \<le> length (in_bytes s) - in_pos s" using bs(1) by (metis length_drop length_take min.cobounded1)
  moreover have "0 < length bs" using bs(2) by simp
  ultimately show "in_pos s' \<le> length (in_bytes s)" unfolding bs(3) by (simp del: length_greater_0_conv)
  show "df_have df' - df_at df' \<le> df_have df - df_at df + (in_pos s' - in_pos s)"
    and "df_at df \<le> df_have df \<Longrightarrow> df_have df' - df_at df' = df_have df - df_at df + (in_pos s' - in_pos s)"
    using bs(3-5) by (auto simp: compact_def split: if_splits)
qed

lemma read_more_pos:
  "read_more df s = (PERF_R_SUCCESS, df', s') \<Longrightarrow>
   length (in_bytes s') - in_pos s' < length (in_bytes s) - in_pos s"
  using read_more_success(1-3) [of df s df' s'] by simp

section \<open>Reading a line\<close>

text \<open>
  The loop that finds a line that is neither empty nor a comment: the code, the line, and
  the state behind it.
\<close>

definition line_measure :: "perf_datafile \<Rightarrow> input \<Rightarrow> nat" where
  "line_measure df s = 2 * (length (in_bytes s) - in_pos s) + (df_have df - df_at df)"

definition past_line :: "perf_datafile \<Rightarrow> nat \<Rightarrow> perf_datafile" where
  "past_line df curlen =
     (let df = df\<lparr>df_at := df_at df + curlen\<rparr>
      in if df_at df < df_have df then df\<lparr>df_at := df_at df + 1\<rparr> else df)"

text \<open>One round of the loop: \<open>Inl\<close> is a return, \<open>Inr\<close> another round.\<close>

definition line_round :: "perf_datafile \<Rightarrow> input \<Rightarrow>
    (perf_result \<times> bytes \<times> perf_datafile \<times> input) + (perf_datafile \<times> input)" where
  "line_round df s =
     (let cur = drop (df_at df) (df_data df);
          curlen = strcspn cur [10];
          nrem = df_have df - df_at df
      in case (if curlen = nrem \<and> \<not> df_cached df then read_more df s else (PERF_R_SUCCESS, df, s)) of
           (result, df', s') \<Rightarrow>
             if result \<noteq> PERF_R_SUCCESS then Inl (result, [], df', s')
             else if curlen = nrem \<and> df_have df' - df_at df' = 0 then Inl (PERF_R_EOF, [], df', s')
             else if curlen = nrem \<and> df_have df' - df_at df' > nrem then Inr (df', s')
             else
               let df'' = past_line df' curlen in
               if curlen > 0 \<and> hd cur \<noteq> ch CHR '';'' then Inl (PERF_R_SUCCESS, take curlen cur, df'', s')
               else Inr (df'', s'))"

text \<open>A round that needs no more data, because the line ends in the buffer or all is cached.\<close>

lemma line_round_data:
  assumes cur: "drop (df_at df) (df_data df) = cur" and c: "strcspn cur [10] = c"
    and data: "c \<noteq> length cur \<or> df_cached df"
  shows "line_round df s =
    (if cur = [] then Inl (PERF_R_EOF, [], df, s)
     else if c > 0 \<and> hd cur \<noteq> ch CHR '';'' then Inl (PERF_R_SUCCESS, take c cur, past_line df c, s)
     else Inr (past_line df c, s))"
proof -
  have n: "df_have df - df_at df = length cur" using cur by auto
  have "c \<le> length cur" using c by auto
  moreover have no_read: "(if c = length cur \<and> \<not> df_cached df then read_more df s else (PERF_R_SUCCESS, df, s)) =
      (PERF_R_SUCCESS, df, s)" using data by auto
  ultimately show ?thesis
    unfolding line_round_def Let_def cur c n no_read prod.case by (auto simp: n)
qed

lemma line_round_measure:
  assumes "line_round df s = Inr (df', s')"
  shows "line_measure df' s' < line_measure df s"
proof (cases "strcspn (drop (df_at df) (df_data df)) [10] = df_have df - df_at df \<and> \<not> df_cached df")
  case True
  obtain r df1 s1 where rm: "read_more df s = (r, df1, s1)" by (metis prod_cases3)
  with assms True have "r = PERF_R_SUCCESS" by (auto simp: line_round_def Let_def split: if_splits)
  with rm have "read_more df s = (PERF_R_SUCCESS, df1, s1)" by simp
  note more = read_more_success [OF this]
  have "df1 = df' \<and> s1 = s'"
    using assms True rm more by (cases "df_at df \<le> df_have df") (auto simp: line_round_def Let_def split: if_splits)
  with more show ?thesis by (auto simp: line_measure_def)
next
  case False
  define cur where "cur = drop (df_at df) (df_data df)"
  define c where "c = strcspn cur [10]"
  have n: "df_have df - df_at df = length cur" by (simp add: cur_def)
  have le: "c \<le> length cur" by (simp add: c_def)
  have "c \<noteq> length cur \<or> df_cached df" using False by (auto simp: c_def cur_def)
  from line_round_data [OF cur_def [symmetric] c_def [symmetric] this, of s] assms
  have "df' = past_line df c" "s' = s" "cur \<noteq> []" by (auto split: if_splits)
  with le n show ?thesis by (auto simp: line_measure_def past_line_def Let_def)
qed

function next_line :: "perf_datafile \<Rightarrow> input \<Rightarrow> perf_result \<times> bytes \<times> perf_datafile \<times> input" where
  "next_line df s = (case line_round df s of Inl r \<Rightarrow> r | Inr (df', s') \<Rightarrow> next_line df' s')"
  by pat_completeness auto
termination
  by (relation "measure (\<lambda>(df, s). line_measure df s)") (auto simp: line_round_measure)

declare next_line.simps [simp del]

text \<open>The line and a zero byte, cut to the space left; the space less one wraps when there is none.\<close>

definition put_line :: "perf_buffer \<Rightarrow> bytes \<Rightarrow> perf_buffer outcome" where
  "put_line lines cur =
     (let len = perf_buffer_availablelength lines;
          curlen = (if length cur > size_sub len 1 then size_sub len 1 else length cur)
      in obind (perf_buffer_putmem lines (take curlen cur)) (\<lambda>lines. perf_buffer_putuint8 lines 0))"

definition read_one_line :: "perf_datafile \<Rightarrow> input \<Rightarrow> perf_buffer \<Rightarrow>
    (perf_result \<times> perf_datafile \<times> input \<times> perf_buffer) outcome" where
  "read_one_line df s lines =
     (case next_line df s of (result, cur, df, s) \<Rightarrow>
        if result \<noteq> PERF_R_SUCCESS then Ret (result, df, s, lines)
        else obind (put_line lines cur) (\<lambda>lines. Ret (PERF_R_SUCCESS, df, s, lines)))"

lemma next_line_measure:
  "next_line df s = (PERF_R_SUCCESS, cur, df', s') \<Longrightarrow> line_measure df' s' < line_measure df s"
proof (induction df s rule: next_line.induct)
  case (1 df s)
  show ?case
  proof (cases "line_round df s")
    case (Inr p)
    then obtain df1 s1 where p: "line_round df s = Inr (df1, s1)" by (cases p) auto
    with "1.prems" have "next_line df1 s1 = (PERF_R_SUCCESS, cur, df', s')"
      by (simp add: next_line.simps [of df s])
    with "1.IH" p Inr have "line_measure df' s' < line_measure df1 s1" by auto
    with line_round_measure [OF p] show ?thesis by simp
  next
    case (Inl r)
    define cur0 where "cur0 = drop (df_at df) (df_data df)"
    define c where "c = strcspn cur0 [10]"
    have r: "line_round df s = Inl (PERF_R_SUCCESS, cur, df', s')"
      using Inl "1.prems" by (simp add: next_line.simps [of df s])
    have n: "df_have df - df_at df = length cur0" by (simp add: cur0_def)
    have data: "c \<noteq> length cur0 \<or> df_cached df"
    proof (rule ccontr)
      assume "\<not> (c \<noteq> length cur0 \<or> df_cached df)"
      then have full: "strcspn (drop (df_at df) (df_data df)) [10] = df_have df - df_at df" "\<not> df_cached df"
        by (simp_all add: c_def cur0_def)
      obtain res df1 s1 where rm: "read_more df s = (res, df1, s1)" by (metis prod_cases3)
      have "res = PERF_R_SUCCESS" using r full rm by (auto simp: line_round_def Let_def split: if_splits)
      with rm have rm': "read_more df s = (PERF_R_SUCCESS, df1, s1)" by simp
      with full rm r read_more_success [OF rm'] show False
        by (cases "df_at df \<le> df_have df") (auto simp: line_round_def Let_def split: if_splits)
    qed
    have "c \<le> length cur0" by (simp add: c_def)
    moreover have "cur0 \<noteq> []" "df' = past_line df c" "s' = s"
      using line_round_data [OF cur0_def [symmetric] c_def [symmetric] data, of s] r by (auto split: if_splits)
    ultimately show ?thesis using n by (auto simp: line_measure_def past_line_def Let_def)
  qed
qed

section \<open>Reading a message\<close>

text \<open>The loop that waits for the two bytes of the length, and the one for the message.\<close>

function blob_head :: "perf_datafile \<Rightarrow> input \<Rightarrow> perf_result \<times> perf_datafile \<times> input" where
  "blob_head df s =
     (if df_have df - df_at df < 2 then
        if df_cached df then (if df_have df - df_at df = 0 then PERF_R_EOF else PERF_R_INVALIDFILE, df, s)
        else case read_more df s of (result, df', s') \<Rightarrow>
          if result \<noteq> PERF_R_SUCCESS
          then (if result = PERF_R_EOF \<and> df_have df' - df_at df' \<noteq> 0 then PERF_R_INVALIDFILE else result, df', s')
          else blob_head df' s'
      else (PERF_R_SUCCESS, df, s))"
  by pat_completeness auto
termination
  by (relation "measure (\<lambda>(df, s). length (in_bytes s) - in_pos s)")
    (auto dest!: sym [of "(_, _)" "read_more _ _"] intro: read_more_pos)

function blob_body :: "nat \<Rightarrow> perf_datafile \<Rightarrow> input \<Rightarrow> perf_result \<times> perf_datafile \<times> input" where
  "blob_body packet_size df s =
     (if 2 + packet_size > df_have df - df_at df then
        if df_cached df then (PERF_R_INVALIDFILE, df, s)
        else case read_more df s of (result, df', s') \<Rightarrow>
          if result \<noteq> PERF_R_SUCCESS
          then (if result = PERF_R_EOF then PERF_R_INVALIDFILE else result, df', s')
          else blob_body packet_size df' s'
      else (PERF_R_SUCCESS, df, s))"
  by pat_completeness auto
termination
  by (relation "measure (\<lambda>(packet_size, df, s). length (in_bytes s) - in_pos s)")
    (auto dest!: sym [of "(_, _)" "read_more _ _"] intro: read_more_pos)

declare blob_head.simps [simp del] blob_body.simps [simp del]

definition read_one_blob :: "perf_datafile \<Rightarrow> input \<Rightarrow> perf_buffer \<Rightarrow>
    (perf_result \<times> perf_datafile \<times> input \<times> perf_buffer) outcome" where
  "read_one_blob df s wire =
     (case blob_head df s of (result, df, s) \<Rightarrow>
        if result \<noteq> PERF_R_SUCCESS then Ret (result, df, s, wire)
        else
          let packet_size = ntohs16 (df_data df ! df_at df) (df_data df ! (df_at df + 1)) in
          case blob_body packet_size df s of (result, df, s) \<Rightarrow>
            if result \<noteq> PERF_R_SUCCESS then Ret (result, df, s, wire)
            else
              obind (perf_buffer_putmem wire (take packet_size (drop (df_at df + 2) (df_data df)))) (\<lambda>wire.
              Ret (PERF_R_SUCCESS, df\<lparr>df_at := df_at df + 2 + packet_size\<rparr>, s, wire)))"

section \<open>The next record\<close>

definition readfunc :: "perf_datafile \<Rightarrow> input \<Rightarrow> perf_buffer \<Rightarrow>
    (perf_result \<times> perf_datafile \<times> input \<times> perf_buffer) outcome" where
  "readfunc df =
     (if df_format df = input_format_tcp_wire_format then read_one_blob df else read_one_line df)"

text \<open>\<^verbatim>\<open>dfile->nruns++\<close>, and another run unless it was the last.\<close>

definition end_of_run :: "perf_datafile \<Rightarrow> input \<Rightarrow> (perf_datafile \<times> input) outcome" where
  "end_of_run df s =
     (let df = df\<lparr>df_nruns := df_nruns df + 1\<rparr>
      in if df_maxruns df \<noteq> df_nruns df then reopen_file df s else Ret (df, s))"

text \<open>
  The lines of an update up to \<^verbatim>\<open>send\<close>. \<^verbatim>\<open>current\<close> is where the line just read
  starts in the buffer.
\<close>

function update_lines :: "perf_datafile \<Rightarrow> input \<Rightarrow> perf_buffer \<Rightarrow> (perf_datafile \<times> input \<times> perf_buffer) outcome" where
  "update_lines df s lines =
     obind (read_one_line df s lines) (\<lambda>(result, df', s', lines').
       if result = PERF_R_EOF then obind (end_of_run df' s') (\<lambda>(df', s'). Ret (df', s', lines'))
       else if result \<noteq> PERF_R_SUCCESS \<or>
           map tolower (cstring_of (drop (buf_used lines) (buf_base lines'))) = cstr ''send''
       then Ret (df', s', lines')
       else update_lines df' s' lines')"
  by pat_completeness auto
termination
proof (relation "measure (\<lambda>(df, s, lines). line_measure df s)", goal_cases)
  case 1
  then show ?case by simp
next
  case (2 df s lines p result q df' r s' lines')
  then have "\<exists>cur. next_line df s = (PERF_R_SUCCESS, cur, df', s')"
    by (auto simp: read_one_line_def split: prod.splits if_splits)
  then show ?case by (auto intro: next_line_measure)
qed

declare update_lines.simps [simp del]

definition perf_datafile_next :: "perf_datafile \<Rightarrow> input \<Rightarrow> perf_buffer \<Rightarrow>
    (perf_result \<times> perf_datafile \<times> input \<times> perf_buffer) outcome" where
  "perf_datafile_next df s lines =
     (if df_maxruns df > 0 \<and> df_maxruns df = df_nruns df then Ret (PERF_R_EOF, df, s, lines)
      else
        obind (readfunc df s lines) (\<lambda>(result, df, s, lines).
        if result = PERF_R_EOF \<and> \<not> df_read_any df then Ret (PERF_R_INVALIDFILE, df, s, lines)
        else
        obind (if result = PERF_R_EOF then
                 let df = df\<lparr>df_nruns := df_nruns df + 1\<rparr> in
                 if df_maxruns df \<noteq> df_nruns df
                 then obind (reopen_file df s) (\<lambda>(df, s). readfunc df s lines)
                 else Ret (result, df, s, lines)
               else Ret (result, df, s, lines)) (\<lambda>(result, df, s, lines).
        if result \<noteq> PERF_R_SUCCESS then Ret (result, df, s, lines)
        else
          let df = df\<lparr>df_read_any := True\<rparr> in
          if df_format df = input_format_text_update
          then obind (update_lines df s lines) (\<lambda>(df, s, lines). Ret (PERF_R_SUCCESS, df, s, lines))
          else Ret (PERF_R_SUCCESS, df, s, lines))))"

section \<open>Specification\<close>

text \<open>
  The first line of a text, up to a newline or a zero byte; \<open>atend\<close> tells whether the end
  of the text ends a line too.
\<close>

definition first_line :: "bool \<Rightarrow> bytes \<Rightarrow> (bytes \<times> bytes) option" where
  "first_line atend bs =
     (let l = takeWhile (\<lambda>b. b \<noteq> 0 \<and> b \<noteq> 10) bs in
      if length l < length bs then Some (l, drop (length l + 1) bs)
      else if atend \<and> bs \<noteq> [] then Some (bs, []) else None)"

lemma first_line_shorter: "first_line atend bs = Some (l, rest) \<Longrightarrow> length rest < length bs"
  by (auto simp: first_line_def Let_def split: if_splits)

lemma first_line_suffix:
  assumes "first_line atend bs = Some (l, rest)"
  obtains k where "rest = drop k bs"
  using assms that [of "length bs"] by (auto simp: first_line_def Let_def split: if_splits)

text \<open>The lines that count: those that are neither empty nor a comment.\<close>

definition counts :: "bytes \<Rightarrow> bool" where
  "counts l \<longleftrightarrow> l \<noteq> [] \<and> hd l \<noteq> ch CHR '';''"

lemma counts_Nil [simp]: "\<not> counts []"
  by (simp add: counts_def)

lemma first_line_Nil [simp]: "first_line atend [] = None"
  by (simp add: first_line_def)

function find_line :: "bool \<Rightarrow> bytes \<Rightarrow> (bytes \<times> bytes) option" where
  "find_line atend bs =
     (case first_line atend bs of
        None \<Rightarrow> None
      | Some (l, rest) \<Rightarrow> if counts l then Some (l, rest) else find_line atend rest)"
  by pat_completeness auto
termination
  by (relation "measure (\<lambda>(atend, bs). length bs)")
    (auto dest!: sym [of "Some _" "first_line _ _"] intro: first_line_shorter)

declare find_line.simps [simp del]

lemma find_line_shorter: "find_line atend bs = Some (l, rest) \<Longrightarrow> length rest < length bs"
proof (induction atend bs rule: find_line.induct)
  case (1 atend bs)
  then show ?case
    by (subst (asm) find_line.simps) (fastforce split: option.splits if_splits dest: first_line_shorter)
qed

function all_lines :: "bool \<Rightarrow> bytes \<Rightarrow> bytes list" where
  "all_lines atend bs = (case find_line atend bs of None \<Rightarrow> [] | Some (l, rest) \<Rightarrow> l # all_lines atend rest)"
  by pat_completeness auto
termination
  by (relation "measure (\<lambda>(atend, bs). length bs)")
    (auto dest!: sym [of "Some _" "find_line _ _"] intro: find_line_shorter)

declare all_lines.simps [simp del]

section \<open>A line does not depend on how the bytes arrive\<close>

lemma strcspn_newline: "strcspn bs [10] = length (takeWhile (\<lambda>b. b \<noteq> 0 \<and> b \<noteq> 10) bs)"
  by (simp add: strcspn_def)

text \<open>A round on data that is there follows \<open>first_line\<close>.\<close>

lemma line_round_first:
  assumes cur: "drop (df_at df) (df_data df) = cur" and at: "df_at df \<le> df_have df"
    and data: "strcspn cur [10] \<noteq> length cur \<or> df_cached df"
  shows "line_round df s =
    (case first_line (df_cached df) cur of
       None \<Rightarrow> Inl (PERF_R_EOF, [], df, s)
     | Some (l, rest) \<Rightarrow>
         if counts l then Inl (PERF_R_SUCCESS, l, df\<lparr>df_at := df_have df - length rest\<rparr>, s)
         else Inr (df\<lparr>df_at := df_have df - length rest\<rparr>, s))"
proof -
  define c where "c = strcspn cur [10]"
  have le: "c \<le> length cur" by (simp add: c_def)
  have n: "df_have df = df_at df + length cur" using cur at by auto
  have past: "past_line df c = df\<lparr>df_at := df_have df - length (drop (c + 1) cur)\<rparr>"
    using le n by (auto simp: past_line_def Let_def)
  have l: "takeWhile (\<lambda>b. b \<noteq> 0 \<and> b \<noteq> 10) cur = take c cur"
    by (simp only: c_def strcspn_newline takeWhile_eq_take [symmetric])
  have fl: "first_line (df_cached df) cur =
      (if c < length cur then Some (take c cur, drop (c + 1) cur)
       else if df_cached df \<and> cur \<noteq> [] then Some (cur, []) else None)"
    using le by (simp add: first_line_def Let_def l min_def)
  have counts: "counts (take c cur) \<longleftrightarrow> c > 0 \<and> hd cur \<noteq> ch CHR '';''" if "cur \<noteq> []"
    using that by (cases c; cases cur) (auto simp: counts_def)
  show ?thesis
    using line_round_data [OF cur c_def [symmetric] data [folded c_def], of s] data [folded c_def] le past counts
    by (cases "cur = []") (auto simp: fl)
qed

lemma next_line_step:
  "next_line df s = (case line_round df s of Inl r \<Rightarrow> r | Inr (df', s') \<Rightarrow> next_line df' s')"
  by (rule next_line.simps)

text \<open>Reading from a file that is held in the buffer.\<close>

lemma next_line_cached:
  "df_cached df \<Longrightarrow> df_at df \<le> df_have df \<Longrightarrow>
   next_line df s =
     (case find_line True (drop (df_at df) (df_data df)) of
        None \<Rightarrow> (PERF_R_EOF, [], df\<lparr>df_at := df_have df\<rparr>, s)
      | Some (l, rest) \<Rightarrow> (PERF_R_SUCCESS, l, df\<lparr>df_at := df_have df - length rest\<rparr>, s))"
proof (induction df s rule: next_line.induct)
  case (1 df s)
  let ?cur = "drop (df_at df) (df_data df)"
  have round: "line_round df s =
    (case first_line True ?cur of
       None \<Rightarrow> Inl (PERF_R_EOF, [], df, s)
     | Some (l, rest) \<Rightarrow>
         if counts l then Inl (PERF_R_SUCCESS, l, df\<lparr>df_at := df_have df - length rest\<rparr>, s)
         else Inr (df\<lparr>df_at := df_have df - length rest\<rparr>, s))"
    using line_round_first [OF refl "1.prems"(2), of s] "1.prems"(1) by simp
  show ?case
  proof (cases "first_line True ?cur")
    case None
    then have "?cur = []" by (auto simp: first_line_def Let_def split: if_splits)
    with None round "1.prems" show ?thesis
      by (simp add: next_line_step [of df s] find_line.simps [of _ "[]"])
  next
    case (Some p)
    obtain l rest where p: "first_line True ?cur = Some (l, rest)" using Some by (cases p) auto
    let ?df = "df\<lparr>df_at := df_have df - length rest\<rparr>"
    have rest: "drop (df_have df - length rest) (df_data df) = rest"
    proof -
      obtain k where "rest = drop k ?cur" using p by (rule first_line_suffix)
      then have "rest = drop (df_at df + k) (df_data df)" by (simp add: add.commute)
      then show ?thesis by (cases "df_at df + k \<le> df_have df") auto
    qed
    show ?thesis
    proof (cases "counts l")
      case True
      with p round show ?thesis by (simp add: next_line_step [of df s] find_line.simps [of _ ?cur])
    next
      case False
      have r: "line_round df s = Inr (?df, s)" using False p round by simp
      have "next_line ?df s =
        (case find_line True rest of
           None \<Rightarrow> (PERF_R_EOF, [], ?df\<lparr>df_at := df_have ?df\<rparr>, s)
         | Some (l, rest) \<Rightarrow> (PERF_R_SUCCESS, l, ?df\<lparr>df_at := df_have ?df - length rest\<rparr>, s))"
        using "1.IH" [OF r refl] "1.prems"(1) rest by simp
      with r p False show ?thesis
        by (simp add: next_line_step [of df s] find_line.simps [of _ ?cur] split: option.split)
    qed
  qed
qed

text \<open>
  Reading from a pipe, or from a file too large for the buffer: the bytes not yet read, and
  the bound that lets every line fit.
\<close>

definition pending :: "perf_datafile \<Rightarrow> input \<Rightarrow> bytes" where
  "pending df s = drop (df_at df) (df_data df) @ drop (in_pos s) (in_bytes s)"

definition short_lines :: "bytes \<Rightarrow> bool" where
  "short_lines bs \<longleftrightarrow> (\<forall>k. strcspn (drop k bs) [10] \<le> 65536)"

definition stream_inv :: "perf_datafile \<Rightarrow> input \<Rightarrow> bool" where
  "stream_inv df s \<longleftrightarrow> df_at df \<le> df_have df \<and> df_have df < DATABUF \<and> \<not> df_cached df \<and>
     (df_is_file df \<longrightarrow> DATABUF \<le> df_size df) \<and> (\<forall>p. \<not> in_fail s p) \<and>
     (df_is_file df \<or> df_pipe_fd df < 0 \<or> (\<forall>p. in_wait s p = PERF_R_SUCCESS))"

lemma short_lines_drop: "short_lines bs \<Longrightarrow> short_lines (drop k bs)"
  by (simp add: short_lines_def)

lemma compact_eq:
  "df_at df \<le> df_have df \<Longrightarrow> compact df = df\<lparr>df_data := drop (df_at df) (df_data df), df_at := 0\<rparr>"
  by (auto simp: compact_def)

lemma strcspn_append:
  "strcspn (xs @ ys) r = (if strcspn xs r < length xs then strcspn xs r else length xs + strcspn ys r)"
proof -
  have "takeWhile P (xs @ ys) = (if length (takeWhile P xs) < length xs then takeWhile P xs else xs @ takeWhile P ys)" for P
    by (induction xs) auto
  then show ?thesis by (simp add: strcspn_def)
qed

text \<open>Reading more of a stream, when the line goes on past the data in the buffer.\<close>

lemma read_more_stream:
  assumes inv: "stream_inv df s" and small: "df_have df - df_at df \<le> 65536"
  shows "if drop (in_pos s) (in_bytes s) = [] then \<exists>df'. read_more df s = (PERF_R_EOF, df', s) \<and>
      stream_inv df' s \<and> pending df' s = pending df s
    else \<exists>df' s'. read_more df s = (PERF_R_SUCCESS, df', s') \<and> stream_inv df' s' \<and>
      pending df' s' = pending df s \<and> df_have df' - df_at df' > df_have df - df_at df"
proof -
  let ?cur = "drop (df_at df) (df_data df)"
  let ?df = "df\<lparr>df_data := ?cur, df_at := 0\<rparr>"
  have at: "df_at df \<le> df_have df" and cached: "\<not> df_cached df" and fail: "\<not> in_fail s p" for p
    using inv by (simp_all add: stream_inv_def)
  have mx: "size_sub DATABUF (df_have ?df + 1) = 65537 - length ?cur" "length ?cur \<le> 65536"
    using small at by (simp_all add: DATABUF_def)
  obtain bs where rd: "os_read s (65537 - length ?cur) = (Some bs, s\<lparr>in_pos := in_pos s + length bs\<rparr>)"
    using fail by (simp add: os_read_def Let_def)
  note bs = os_readD(2-4) [OF rd]
  have rm: "read_more df s =
      (if bs = [] then (PERF_R_EOF, ?df, s\<lparr>in_pos := in_pos s + length bs\<rparr>)
       else (PERF_R_SUCCESS, ?df\<lparr>df_data := ?cur @ bs\<rparr>, s\<lparr>in_pos := in_pos s + length bs\<rparr>))"
    using inv at rd mx bs(2)
    by (auto simp: read_more_def compact_eq Let_def stream_inv_def DATABUF_def)
  show ?thesis
  proof (cases "drop (in_pos s) (in_bytes s) = []")
    case True
    with bs(1) have "bs = []" by simp
    with rm True inv mx(2) show ?thesis by (auto simp: stream_inv_def pending_def DATABUF_def)
  next
    case False
    with bs(3) mx(2) have ne: "bs \<noteq> []" by auto
    have "stream_inv (?df\<lparr>df_data := ?cur @ bs\<rparr>) (s\<lparr>in_pos := in_pos s + length bs\<rparr>)"
      using inv bs(2) mx by (simp add: stream_inv_def DATABUF_def)
    moreover have "pending (?df\<lparr>df_data := ?cur @ bs\<rparr>) (s\<lparr>in_pos := in_pos s + length bs\<rparr>) = pending df s"
    proof -
      have "bs @ drop (length bs) (drop (in_pos s) (in_bytes s)) = drop (in_pos s) (in_bytes s)"
        using bs(1) by (metis append_take_drop_id)
      then show ?thesis by (simp add: pending_def add.commute)
    qed
    ultimately show ?thesis using rm ne False by auto
  qed
qed

lemma first_line_append:
  assumes "strcspn cur [10] \<noteq> length cur"
  shows "first_line False (cur @ post) = map_option (apsnd (\<lambda>rest. rest @ post)) (first_line False cur)"
proof -
  let ?P = "\<lambda>b::u8. b \<noteq> 0 \<and> b \<noteq> 10"
  have short: "length (takeWhile ?P cur) < length cur"
    using assms strcspn_le [of cur "[10]"] by (simp add: strcspn_newline)
  then have "takeWhile ?P (cur @ post) = takeWhile ?P cur" by (induction cur) auto
  with short show ?thesis by (simp add: first_line_def Let_def)
qed

lemma first_line_none: "strcspn bs [10] = length bs \<Longrightarrow> first_line False bs = None"
  by (simp add: first_line_def Let_def strcspn_newline [symmetric])

lemma first_line_some: "strcspn bs [10] \<noteq> length bs \<Longrightarrow> \<exists>l rest. first_line False bs = Some (l, rest)"
  using le_neq_implies_less [OF strcspn_le [of bs "[10]"]]
  by (auto simp: first_line_def Let_def strcspn_newline [symmetric])

lemma next_line_stream:
  "stream_inv df s \<Longrightarrow> short_lines (pending df s) \<Longrightarrow>
   \<exists>df' s'. stream_inv df' s' \<and> short_lines (pending df' s') \<and>
     (case find_line False (pending df s) of
        None \<Rightarrow> next_line df s = (PERF_R_EOF, [], df', s') \<and> find_line False (pending df' s') = None
      | Some (l, rest) \<Rightarrow> next_line df s = (PERF_R_SUCCESS, l, df', s') \<and> pending df' s' = rest)"
proof (induction df s rule: next_line.induct)
  case (1 df s)
  let ?cur = "drop (df_at df) (df_data df)" and ?post = "drop (in_pos s) (in_bytes s)"
  have at: "df_at df \<le> df_have df" and nc: "\<not> df_cached df"
    using "1.prems"(1) by (simp_all add: stream_inv_def)
  show ?case
  proof (cases "strcspn ?cur [10] = length ?cur")
    case True
    have "strcspn (pending df s) [10] \<le> 65536" using "1.prems"(2) by (metis short_lines_def drop0)
    then have small: "df_have df - df_at df \<le> 65536" using True by (simp add: pending_def strcspn_append)
    show ?thesis
    proof (cases "?post = []")
      case end_: True
      with read_more_stream [OF "1.prems"(1) small] obtain df' where
        rm: "read_more df s = (PERF_R_EOF, df', s)" "stream_inv df' s" "pending df' s = pending df s" by auto
      have none: "find_line False (pending df s) = None"
        using True end_ by (simp add: pending_def find_line.simps [of False ?cur] first_line_none)
      have "line_round df s = Inl (PERF_R_EOF, [], df', s)"
        using True nc rm(1) by (simp add: line_round_def Let_def)
      with rm none "1.prems"(2) show ?thesis by (auto simp: next_line_step [of df s])
    next
      case False
      with read_more_stream [OF "1.prems"(1) small] obtain df1 s1 where
        rm: "read_more df s = (PERF_R_SUCCESS, df1, s1)" "stream_inv df1 s1" "pending df1 s1 = pending df s"
          "df_have df1 - df_at df1 > df_have df - df_at df" by auto
      have r: "line_round df s = Inr (df1, s1)"
        using True nc rm(1,4) by (simp add: line_round_def Let_def)
      then have eq: "next_line df s = next_line df1 s1" by (simp add: next_line_step [of df s])
      show ?thesis using "1.IH" [OF r refl rm(2)] rm(3) "1.prems"(2) unfolding eq by simp
    qed
  next
    case False
    obtain l rest where fl: "first_line False ?cur = Some (l, rest)" using first_line_some [OF False] by blast
    then have fl': "first_line False (pending df s) = Some (l, rest @ ?post)"
      using first_line_append [OF False, of ?post] by (simp add: pending_def)
    let ?df = "df\<lparr>df_at := df_have df - length rest\<rparr>"
    obtain k where "rest = drop k ?cur" using fl by (rule first_line_suffix)
    then have "drop (df_have df - length rest) (df_data df) = rest"
      by (cases "df_at df + k \<le> df_have df") (auto simp: add.commute)
    then have pend: "pending ?df s = rest @ ?post" by (simp add: pending_def)
    have inv: "stream_inv ?df s" using "1.prems"(1) by (simp add: stream_inv_def)
    obtain j where "rest @ ?post = drop j (pending df s)" using fl' by (rule first_line_suffix)
    then have short: "short_lines (pending ?df s)" using "1.prems"(2) pend short_lines_drop by metis
    note round = line_round_first [OF refl at, of s] False nc fl
    show ?thesis
    proof (cases "counts l")
      case True
      with round have "next_line df s = (PERF_R_SUCCESS, l, ?df, s)" by (simp add: next_line_step [of df s])
      with True fl' inv pend short show ?thesis by (auto simp: find_line.simps [of False "pending df s"])
    next
      case no: False
      with round have r: "line_round df s = Inr (?df, s)" by simp
      note IH = "1.IH" [OF r refl inv short]
      have eq: "next_line df s = next_line ?df s" using r by (simp add: next_line_step [of df s])
      have fl2: "find_line False (pending df s) = find_line False (pending ?df s)"
        using no fl' pend by (simp add: find_line.simps [of False "pending df s"])
      show ?thesis using IH unfolding eq fl2 .
    qed
  qed
qed

section \<open>The contract of a source of lines\<close>

text \<open>
  What the record reader relies on: reading takes the next of the lines that are left. The
  two ways in which the code reads, from the buffer and through it, both provide it.
\<close>

locale line_source =
  fixes nextl :: "'s \<Rightarrow> perf_result \<times> bytes \<times> 's"
    and left :: "'s \<Rightarrow> bytes list"
    and invar :: "'s \<Rightarrow> bool"
  assumes nextl_Cons: "invar \<sigma> \<Longrightarrow> left \<sigma> = l # ls \<Longrightarrow>
      \<exists>\<sigma>'. nextl \<sigma> = (PERF_R_SUCCESS, l, \<sigma>') \<and> invar \<sigma>' \<and> left \<sigma>' = ls"
    and nextl_Nil: "invar \<sigma> \<Longrightarrow> left \<sigma> = [] \<Longrightarrow> \<exists>\<sigma>'. nextl \<sigma> = (PERF_R_EOF, [], \<sigma>') \<and> invar \<sigma>' \<and> left \<sigma>' = []"
begin

fun take_lines :: "nat \<Rightarrow> 's \<Rightarrow> bytes list" where
  "take_lines 0 \<sigma> = []"
| "take_lines (Suc n) \<sigma> =
     (case nextl \<sigma> of (r, l, \<sigma>') \<Rightarrow> if r = PERF_R_SUCCESS then l # take_lines n \<sigma>' else [])"

lemma take_lines_left: "invar \<sigma> \<Longrightarrow> take_lines n \<sigma> = take n (left \<sigma>)"
proof (induction n arbitrary: \<sigma>)
  case 0
  then show ?case by simp
next
  case (Suc n)
  show ?case
  proof (cases "left \<sigma>")
    case Nil
    with nextl_Nil [OF Suc.prems] show ?thesis by auto
  next
    case (Cons l ls)
    with nextl_Cons [OF Suc.prems Cons] Suc.IH show ?thesis by auto
  qed
qed

end

definition next_of :: "perf_datafile \<times> input \<Rightarrow> perf_result \<times> bytes \<times> (perf_datafile \<times> input)" where
  "next_of = (\<lambda>(df, s). next_line df s)"

definition cached_inv :: "perf_datafile \<times> input \<Rightarrow> bool" where
  "cached_inv = (\<lambda>(df, s). df_cached df \<and> df_at df \<le> df_have df)"

definition cached_left :: "perf_datafile \<times> input \<Rightarrow> bytes list" where
  "cached_left = (\<lambda>(df, s). all_lines True (drop (df_at df) (df_data df)))"

lemma find_line_suffix: "find_line atend bs = Some (l, rest) \<Longrightarrow> \<exists>k. rest = drop k bs"
proof (induction atend bs rule: find_line.induct)
  case (1 atend bs)
  from "1.prems" obtain l0 r0 where f: "first_line atend bs = Some (l0, r0)"
    by (auto simp: find_line.simps [of atend bs] split: option.splits)
  then obtain k where k: "r0 = drop k bs" by (rule first_line_suffix)
  show ?case
  proof (cases "counts l0")
    case True
    with "1.prems" f k show ?thesis by (auto simp: find_line.simps [of atend bs])
  next
    case False
    with "1.prems" f have "find_line atend r0 = Some (l, rest)" by (simp add: find_line.simps [of atend bs])
    with "1.IH" [OF f refl False] obtain j where "rest = drop j r0" by blast
    with k show ?thesis by auto
  qed
qed

interpretation cached: line_source next_of cached_left cached_inv
proof (unfold_locales, goal_cases)
  case (1 \<sigma> l ls)
  obtain df s where \<sigma>: "\<sigma> = (df, s)" by (cases \<sigma>)
  let ?cur = "drop (df_at df) (df_data df)"
  from 1 \<sigma> obtain rest where f: "find_line True ?cur = Some (l, rest)" and ls: "all_lines True rest = ls"
    by (auto simp: cached_left_def all_lines.simps [of True ?cur] split: option.splits)
  obtain k where "rest = drop k ?cur" using find_line_suffix [OF f] by blast
  then have "drop (df_have df - length rest) (df_data df) = rest"
    by (cases "df_at df + k \<le> df_have df") (auto simp: add.commute)
  with 1 \<sigma> f ls show ?case
    by (auto simp: next_of_def cached_inv_def cached_left_def next_line_cached)
next
  case (2 \<sigma>)
  obtain df s where \<sigma>: "\<sigma> = (df, s)" by (cases \<sigma>)
  let ?cur = "drop (df_at df) (df_data df)"
  from 2 \<sigma> have f: "find_line True ?cur = None"
    by (auto simp: cached_left_def all_lines.simps [of True ?cur] split: option.splits)
  with 2 \<sigma> show ?case
    by (auto simp: next_of_def cached_inv_def cached_left_def next_line_cached all_lines.simps [of True "[]"]
        find_line.simps [of True "[]"])
qed

definition stream_invar :: "perf_datafile \<times> input \<Rightarrow> bool" where
  "stream_invar = (\<lambda>(df, s). stream_inv df s \<and> short_lines (pending df s))"

definition stream_left :: "perf_datafile \<times> input \<Rightarrow> bytes list" where
  "stream_left = (\<lambda>(df, s). all_lines False (pending df s))"

interpretation streamed: line_source next_of stream_left stream_invar
proof (unfold_locales, goal_cases)
  case (1 \<sigma> l ls)
  obtain df s where \<sigma>: "\<sigma> = (df, s)" by (cases \<sigma>)
  from 1 \<sigma> obtain rest where "find_line False (pending df s) = Some (l, rest)" "all_lines False rest = ls"
    by (auto simp: stream_left_def all_lines.simps [of False "pending df s"] split: option.splits)
  with next_line_stream [of df s] 1 \<sigma> show ?case
    by (auto simp: next_of_def stream_invar_def stream_left_def)
next
  case (2 \<sigma>)
  obtain df s where \<sigma>: "\<sigma> = (df, s)" by (cases \<sigma>)
  from 2 \<sigma> have "find_line False (pending df s) = None"
    by (auto simp: stream_left_def all_lines.simps [of False "pending df s"] split: option.splits)
  with next_line_stream [of df s] 2 \<sigma> obtain df' s' where
    "next_line df s = (PERF_R_EOF, [], df', s')" "stream_inv df' s'" "short_lines (pending df' s')"
    "find_line False (pending df' s') = None"
    by (auto simp: stream_invar_def)
  then show ?case using \<sigma>
    by (auto simp: next_of_def stream_invar_def stream_left_def all_lines.simps [of False "pending df' s'"])
qed

end
