(* ===== verification/Runs.thy ===== *)
theory Runs
  imports Datafile
begin

text \<open>
  The records that \<^verbatim>\<open>perf_datafile_next\<close> hands out over the runs of a file. A file held
  in the buffer is refined to a list of lines and a count of finished runs; the properties
  of the input side stand here.
\<close>

section \<open>The abstract machine\<close>

text \<open>
  The lines of the file, the number of runs, and as the state the finished runs and the
  lines left of this one. The result is a line or the end.
\<close>

fun next_spec :: "nat \<Rightarrow> 'l list \<Rightarrow> nat \<times> 'l list \<Rightarrow> 'l option \<times> (nat \<times> 'l list)" where
  "next_spec m ls (k, rest) =
     (if k = m then (None, (k, rest))
      else case rest of
        l # rest' \<Rightarrow> (Some l, (k, rest'))
      | [] \<Rightarrow> if k + 1 = m then (None, (m, [])) else (Some (hd ls), (k + 1, tl ls)))"

fun spec_run :: "nat \<Rightarrow> nat \<Rightarrow> 'l list \<Rightarrow> nat \<times> 'l list \<Rightarrow> 'l option list" where
  "spec_run 0 m ls st = []"
| "spec_run (Suc n) m ls st = (case next_spec m ls st of (r, st') \<Rightarrow> r # spec_run n m ls st')"

lemma spec_run_done: "spec_run n m ls (m, rest) = replicate n None"
  by (induction n) simp_all

lemma spec_run_cycle:
  assumes "ls \<noteq> []" and "k < m" and "j \<le> length ls"
  shows "spec_run n m ls (k, drop j ls) =
    map (\<lambda>i. if i + k * length ls + j < m * length ls then Some (ls ! ((i + j) mod length ls)) else None) [0..<n]"
  using assms(2,3)
proof (induction n arbitrary: k j)
  case 0
  then show ?case by simp
next
  case (Suc n)
  let ?L = "length ls"
  have L: "0 < ?L" using assms(1) by simp
  have km: "k * ?L + ?L \<le> m * ?L"
    using mult_le_mono1 [of "Suc k" m ?L] Suc.prems(1) by simp
  show ?case
  proof (cases "j < ?L")
    case True
    then have "drop j ls = ls ! j # drop (Suc j) ls" by (simp add: Cons_nth_drop_Suc)
    then show ?thesis
      using Suc True km by (simp add: map_upt_Suc del: upt_Suc)
  next
    case False
    then have j: "j = ?L" using Suc.prems by simp
    show ?thesis
    proof (cases "k + 1 = m")
      case True
      then have "m * ?L = k * ?L + ?L" by auto
      with True j Suc.prems show ?thesis
        by (simp add: spec_run_done map_upt_Suc map_replicate_const del: upt_Suc)
    next
      case False
      then have k: "k + 1 < m" using Suc.prems by simp
      then have lt: "?L + k * ?L < m * ?L"
        using mult_less_mono1 [of "k + 1" m ?L] L by (simp add: add.commute)
      obtain l ls' where ls: "ls = l # ls'" using assms(1) by (cases ls) auto
      have "spec_run n m ls (k + 1, drop 1 ls) =
          map (\<lambda>i. if i + (k + 1) * ?L + 1 < m * ?L then Some (ls ! ((i + 1) mod ?L)) else None) [0..<n]"
        using Suc.IH [of "k + 1" 1] k L by simp
      moreover have "Suc (Suc (i + length ls')) mod Suc (length ls') = Suc i mod Suc (length ls')" for i
        using mod_add_self2 [of "Suc i" "Suc (length ls')"] by simp
      ultimately show ?thesis
        using False j k lt ls by (simp add: map_upt_Suc del: upt_Suc)
    qed
  qed
qed

section \<open>The reader refines it\<close>

lemma put_line_fits:
  assumes "buf_wf b" and "fits b 1"
  shows "put_line b l = Ret (bput b (take (buf_length b - buf_used b - 1) l @ [0]))"
proof -
  have av: "perf_buffer_availablelength b = buf_length b - buf_used b" "1 \<le> buf_length b - buf_used b"
    using assms by (simp_all add: availablelength_wf fits_def)
  define n where "n = buf_length b - buf_used b - 1"
  have sz: "size_sub (buf_length b - buf_used b) 1 = n" using av(2) by (simp add: n_def)
  have "take (if length l > n then n else length l) l = take n l" by simp
  then have "put_line b l = obind (perf_buffer_putmem b (take n l)) (\<lambda>b. perf_buffer_putuint8 b 0)"
    by (simp only: put_line_def Let_def av(1) sz)
  moreover have "fits b (length (take n l))" "fits (bput b (take n l)) 1"
    using assms by (auto simp: fits_def n_def min_def)
  ultimately show ?thesis
    unfolding n_def [symmetric] using assms(1) by (simp add: put_simps wf_intros)
qed

text \<open>The record of a line in an empty buffer of \<open>N\<close> bytes.\<close>

definition text_record :: "nat \<Rightarrow> bytes \<Rightarrow> bytes" where
  "text_record N l = take (N - 1) l @ [0]"

definition held :: "bytes \<Rightarrow> u32 \<Rightarrow> perf_datafile \<Rightarrow> bool" where
  "held data m df \<longleftrightarrow> df_cached df \<and> df_at df \<le> df_have df \<and> df_data df = data \<and> df_maxruns df = m \<and>
     df_format df = input_format_text_query"

definition abs_runs :: "perf_datafile \<Rightarrow> nat \<times> bytes list" where
  "abs_runs df = (unat (df_nruns df), all_lines True (drop (df_at df) (df_data df)))"

lemma next_line_held:
  assumes "held data m df"
  shows "case all_lines True (drop (df_at df) data) of
      l # ls \<Rightarrow> \<exists>at. next_line df s = (PERF_R_SUCCESS, l, df\<lparr>df_at := at\<rparr>, s) \<and> held data m (df\<lparr>df_at := at\<rparr>) \<and>
        all_lines True (drop at data) = ls
    | [] \<Rightarrow> next_line df s = (PERF_R_EOF, [], df\<lparr>df_at := length data\<rparr>, s) \<and>
        held data m (df\<lparr>df_at := length data\<rparr>) \<and> all_lines True (drop (length data) data) = []"
proof -
  have inv: "cached_inv (df, s)" and left: "cached_left (df, s) = all_lines True (drop (df_at df) data)"
    using assms by (auto simp: held_def cached_inv_def cached_left_def)
  have nl: "next_line df s =
     (case find_line True (drop (df_at df) data) of
        None \<Rightarrow> (PERF_R_EOF, [], df\<lparr>df_at := length data\<rparr>, s)
      | Some (l, rest) \<Rightarrow> (PERF_R_SUCCESS, l, df\<lparr>df_at := length data - length rest\<rparr>, s))"
    using next_line_cached [of df s] assms by (auto simp: held_def)
  show ?thesis
  proof (cases "all_lines True (drop (df_at df) data)")
    case Nil
    then have "find_line True (drop (df_at df) data) = None"
      by (simp add: all_lines.simps [of True "drop (df_at df) data"] split: option.splits prod.splits)
    with Nil nl assms show ?thesis
      by (simp add: held_def all_lines.simps [of True "[]"] find_line.simps [of True "[]"])
  next
    case (Cons l ls)
    obtain \<sigma> where \<sigma>: "next_of (df, s) = (PERF_R_SUCCESS, l, \<sigma>)" "cached_inv \<sigma>" "cached_left \<sigma> = ls"
      using cached.nextl_Cons [OF inv] left Cons by auto
    obtain rest where "find_line True (drop (df_at df) data) = Some (l, rest)"
      using Cons by (auto simp: all_lines.simps [of True "drop (df_at df) data"] split: option.splits)
    with \<sigma>(1) nl have "\<sigma> = (df\<lparr>df_at := length data - length rest\<rparr>, s)" by (simp add: next_of_def)
    with \<sigma> assms Cons show ?thesis
      by (auto simp: next_of_def held_def cached_inv_def cached_left_def
          intro!: exI [of _ "length data - length rest"])
  qed
qed

lemma held_simps [simp]:
  "held data m (df\<lparr>df_nruns := k\<rparr>) = held data m df" "held data m (df\<lparr>df_read_any := x\<rparr>) = held data m df"
  "held data m df \<Longrightarrow> held data m (df\<lparr>df_at := 0\<rparr>)"
  by (auto simp: held_def)

text \<open>What the code does with the result of the machine: a record in the buffer, or the end.\<close>

definition emits :: "nat \<Rightarrow> bytes option \<Rightarrow> perf_result \<times> bytes" where
  "emits N r = (case r of Some l \<Rightarrow> (PERF_R_SUCCESS, text_record N l) | None \<Rightarrow> (PERF_R_EOF, []))"

text \<open>An empty buffer of \<open>N\<close> bytes.\<close>

definition empty_buf :: "nat \<Rightarrow> perf_buffer \<Rightarrow> bool" where
  "empty_buf N b \<longleftrightarrow> buf_wf b \<and> buf_used b = 0 \<and> buf_length b = N"

lemma empty_bufD:
  assumes "empty_buf N b"
  shows "buf_wf b" "buf_length b = N" "perf_buffer_usedregion b = []"
  using assms by (simp_all add: empty_buf_def perf_buffer_usedregion_def)

lemma empty_buf_fresh [simp]: "empty_buf N (fresh N)"
  by (simp add: empty_buf_def)

lemma empty_buf_clear: "buf_wf b \<Longrightarrow> buf_length b = N \<Longrightarrow> empty_buf N (perf_buffer_clear b)"
  by (simp add: empty_buf_def wf_intros) (simp add: perf_buffer_clear_def)

lemma readfunc_held:
  assumes "held data m df" and "N > 0" and b0: "empty_buf N b0"
  shows "case all_lines True (drop (df_at df) data) of
      l # ls \<Rightarrow> \<exists>at. readfunc df s b0 =
          Ret (PERF_R_SUCCESS, df\<lparr>df_at := at\<rparr>, s, bput b0 (text_record N l)) \<and>
        held data m (df\<lparr>df_at := at\<rparr>) \<and> all_lines True (drop at data) = ls
    | [] \<Rightarrow> readfunc df s b0 = Ret (PERF_R_EOF, df\<lparr>df_at := length data\<rparr>, s, b0) \<and>
        held data m (df\<lparr>df_at := length data\<rparr>) \<and> all_lines True (drop (length data) data) = []"
proof -
  have rf: "readfunc df s b = read_one_line df s b" for b
    using assms(1) by (simp add: readfunc_def held_def)
  have pl: "put_line b0 l = Ret (bput b0 (text_record N l))" for l
    using put_line_fits [of b0 l] assms(2) b0 by (simp add: text_record_def empty_buf_def fits_def)
  show ?thesis
    using next_line_held [OF assms(1), of s]
    by (auto simp: rf read_one_line_def pl split: list.splits)
qed

lemma datafile_next_refines:
  assumes held: "held data m df" and ls: "ls = all_lines True data" "ls \<noteq> []"
    and m: "0 < m" "df_nruns df \<le> m" and N: "0 < N" and b0: "empty_buf N b0"
    and any: "df_read_any df \<or> all_lines True (drop (df_at df) data) \<noteq> []"
  shows "\<exists>df' b r. perf_datafile_next df s b0 = Ret (r, df', s, b) \<and> buf_wf b \<and> buf_length b = N \<and>
    held data m df' \<and> df_nruns df' \<le> m \<and> (df_read_any df' \<or> all_lines True (drop (df_at df') data) \<noteq> []) \<and>
    (r, perf_buffer_usedregion b) = emits N (fst (next_spec (unat m) ls (abs_runs df))) \<and>
    abs_runs df' = snd (next_spec (unat m) ls (abs_runs df))"
proof (cases "df_nruns df = m")
  case True
  with held m any empty_bufD [OF b0] show ?thesis
    by (auto simp: perf_datafile_next_def held_def emits_def abs_runs_def)
next
  case False
  let ?left = "all_lines True (drop (df_at df) data)"
  have format: "df_format df = input_format_text_query" "df_maxruns df = m" "df_data df = data" "df_cached df"
    using held by (simp_all add: held_def)
  have k: "unat (df_nruns df) \<noteq> unat m" using False by (simp add: word_unat_eq_iff)
  have "unat (df_nruns df) < unat m" using k m(2) by (simp add: word_le_nat_alt)
  then have k1: "unat (df_nruns df + 1) = unat (df_nruns df) + 1"
    using unsigned_less [of m, where ?'a = nat] by (simp add: unat_word_ariths)
  have le1: "df_nruns df + 1 \<le> m"
    using False m(2) k1 by (simp add: word_le_nat_alt word_unat_eq_iff)
  have bp: "perf_buffer_usedregion (bput b0 (text_record N l)) = text_record N l"
      "buf_wf (bput b0 (text_record N l))" for l
    using N b0 empty_bufD(3) [OF b0] by (auto simp: text_record_def empty_buf_def fits_def wf_intros)
  note e = empty_bufD [OF b0]
  show ?thesis
  proof (cases ?left)
    case (Cons l rest)
    with readfunc_held [OF held N b0, of s] obtain at where
      at: "readfunc df s b0 = Ret (PERF_R_SUCCESS, df\<lparr>df_at := at\<rparr>, s, bput b0 (text_record N l))"
        "held data m (df\<lparr>df_at := at\<rparr>)" "all_lines True (drop at data) = rest" by auto
    with Cons False k m format bp e show ?thesis
      by (simp add: perf_datafile_next_def emits_def abs_runs_def)
  next
    case Nil
    let ?df = "df\<lparr>df_at := length data\<rparr>"
    from Nil readfunc_held [OF held N b0, of s] have
      rd: "readfunc df s b0 = Ret (PERF_R_EOF, ?df, s, b0)" "held data m ?df"
        "all_lines True [] = []" by auto
    show ?thesis
    proof (cases "df_nruns df + 1 = m")
      case True
      then have "unat (df_nruns df) + 1 = unat m" using k1 by simp
      with True rd Nil False k m format any e show ?thesis
        by (simp add: perf_datafile_next_def emits_def abs_runs_def Let_def)
    next
      case more_runs: False
      let ?df0 = "df\<lparr>df_nruns := df_nruns df + 1, df_at := 0\<rparr>"
      have "held data m ?df0" using held by simp
      moreover obtain l0 ls0 where l0: "all_lines True data = l0 # ls0" using ls by (metis neq_Nil_conv)
      ultimately obtain at where
        at: "readfunc ?df0 s b0 = Ret (PERF_R_SUCCESS, ?df0\<lparr>df_at := at\<rparr>, s, bput b0 (text_record N (hd ls)))"
          "held data m (?df0\<lparr>df_at := at\<rparr>)" "all_lines True (drop at data) = tl ls"
        using readfunc_held [of data m ?df0 N b0 s] N b0 ls by auto
      have "unat (df_nruns df) + 1 \<noteq> unat m" using k1 more_runs by (metis word_unat_eq_iff)
      with more_runs at rd Nil False k k1 le1 m format any bp e show ?thesis
        by (simp add: perf_datafile_next_def emits_def abs_runs_def Let_def reopen_file_def)
    qed
  qed
qed

section \<open>Properties\<close>

text \<open>Successive calls, each with an empty buffer of \<open>N\<close> bytes: the codes and the records.\<close>

fun records :: "nat \<Rightarrow> nat \<Rightarrow> perf_datafile \<Rightarrow> input \<Rightarrow> (perf_result \<times> bytes) list outcome" where
  "records N 0 df s = Ret []"
| "records N (Suc n) df s =
     obind (perf_datafile_next df s (fresh N)) (\<lambda>(result, df, s, lines).
     obind (records N n df s) (\<lambda>rs. Ret ((result, perf_buffer_usedregion lines) # rs)))"

lemma records_refine:
  assumes "held data m df" and "ls = all_lines True data" and "ls \<noteq> []" and "0 < m" and "df_nruns df \<le> m" and "0 < N"
    and "df_read_any df \<or> all_lines True (drop (df_at df) data) \<noteq> []"
  shows "records N n df s = Ret (map (emits N) (spec_run n (unat m) ls (abs_runs df)))"
  using assms
proof (induction n arbitrary: df)
  case 0
  then show ?case by simp
next
  case (Suc n)
  obtain df' b r where "perf_datafile_next df s (fresh N) = Ret (r, df', s, b)" "held data m df'" "df_nruns df' \<le> m"
    "df_read_any df' \<or> all_lines True (drop (df_at df') data) \<noteq> []"
    "(r, perf_buffer_usedregion b) = emits N (fst (next_spec (unat m) ls (abs_runs df)))"
    "abs_runs df' = snd (next_spec (unat m) ls (abs_runs df))"
    using datafile_next_refines [OF Suc.prems(1-6) empty_buf_fresh Suc.prems(7), of s] by blast
  with Suc show ?case by (simp add: split_beta)
qed

text \<open>
  C3. A query file held in memory, read from its start with a positive number of runs: the
  calls of \<^verbatim>\<open>perf_datafile_next\<close> hand out the lines that are neither empty nor comments,
  in the order of the file and cyclically, each cut to the buffer and followed by a zero
  byte, exactly as many times as there are runs; every later call reports the end.
\<close>

theorem runs_cycle_through_lines:
  assumes "held data m df" and "df_at df = 0" and "df_nruns df = 0" and "0 < m" and "0 < N"
    and "ls = all_lines True data" and "ls \<noteq> []"
  shows "records N n df s =
    Ret (map (\<lambda>i. if i < unat m * length ls then (PERF_R_SUCCESS, text_record N (ls ! (i mod length ls)))
                 else (PERF_R_EOF, [])) [0..<n])"
proof -
  have start: "abs_runs df = (0, drop 0 ls)"
    using assms by (auto simp: abs_runs_def held_def)
  have m: "0 < unat m" using assms(4) by (simp add: word_less_nat_alt)
  have "records N n df s = Ret (map (emits N) (spec_run n (unat m) ls (abs_runs df)))"
    using assms by (intro records_refine) auto
  also have "spec_run n (unat m) ls (abs_runs df) =
      map (\<lambda>i. if i < unat m * length ls then Some (ls ! (i mod length ls)) else None) [0..<n]"
    using spec_run_cycle [OF assms(7) m, of 0 n] by (simp add: start)
  finally show ?thesis by (auto simp: emits_def)
qed

definition example_file :: bytes where
  "example_file = cstr ''a A'' @ [10, 10] @ cstr ''; c'' @ [10] @ cstr ''b NS''"

definition example_held :: perf_datafile where
  "example_held = \<lparr>df_pipe_fd = -1, df_is_file = True, df_size = 13, df_at = 0, df_data = example_file,
     df_cached = True, df_maxruns = 2, df_nruns = 0, df_read_any = False, df_format = input_format_text_query\<rparr>"

definition example_input :: input where
  "example_input = \<lparr>in_bytes = example_file, in_pos = 0, in_chunk = (\<lambda>p. 2), in_fail = (\<lambda>p. False),
     in_wait = (\<lambda>p. PERF_R_SUCCESS), in_seekable = False\<rparr>"

lemma example_lines: "all_lines True example_file = [cstr ''a A'', cstr ''b NS'']"
  by code_simp

theorem runs_cycle_through_lines_witness:
  "records 100 5 example_held example_input =
    Ret [(PERF_R_SUCCESS, cstr ''a A'' @ [0]), (PERF_R_SUCCESS, cstr ''b NS'' @ [0]),
         (PERF_R_SUCCESS, cstr ''a A'' @ [0]), (PERF_R_SUCCESS, cstr ''b NS'' @ [0]), (PERF_R_EOF, [])]"
proof -
  have "held example_file 2 example_held" by (simp add: held_def example_held_def)
  moreover have "[0..<5] = [0, 1, 2, 3, 4::nat]" by code_simp
  ultimately show ?thesis
    using runs_cycle_through_lines [of example_file 2 example_held 100 _ 5 example_input]
    by (simp add: example_lines example_held_def text_record_def numeral_2_eq_2 [symmetric])
qed

text \<open>Reading the lines one after the other.\<close>

fun read_lines :: "nat \<Rightarrow> perf_datafile \<Rightarrow> input \<Rightarrow> bytes list" where
  "read_lines 0 df s = []"
| "read_lines (Suc n) df s =
     (case next_line df s of (r, l, df', s') \<Rightarrow> if r = PERF_R_SUCCESS then l # read_lines n df' s' else [])"

lemma next_of_pair: "next_of (df, s) = next_line df s"
  by (simp add: next_of_def)

lemma read_lines_streamed: "read_lines n df s = streamed.take_lines n (df, s)"
  by (induction n arbitrary: df s) (auto simp: next_of_pair split: prod.splits)

lemma read_lines_cached: "read_lines n df s = cached.take_lines n (df, s)"
  by (induction n arbitrary: df s) (auto simp: next_of_pair split: prod.splits)

text \<open>
  C6. Reading through the buffer: for a pipe, or a file too large for the buffer, the lines
  read are the complete lines of the bytes that are left, comments and empty lines left
  out. They depend on neither the sizes of the reads nor the state of the buffer, as long
  as no line is longer than the buffer.
\<close>

theorem stream_lines_independent:
  assumes "stream_inv df s" and "short_lines (pending df s)"
  shows "read_lines n df s = take n (all_lines False (pending df s))"
  using streamed.take_lines_left [of "(df, s)" n] assms
  by (simp add: read_lines_streamed stream_invar_def stream_left_def)

definition example_pipe :: perf_datafile where
  "example_pipe = example_held\<lparr>df_is_file := False, df_data := [], df_cached := False\<rparr>"

lemma short_lines_length: "length bs \<le> 65536 \<Longrightarrow> short_lines bs"
  unfolding short_lines_def by (metis diff_le_self le_trans length_drop strcspn_le)

lemma example_stream:
  "stream_inv example_pipe example_input" "short_lines (pending example_pipe example_input)"
  "all_lines False (pending example_pipe example_input) = [cstr ''a A'']"
proof -
  have pending: "pending example_pipe example_input = example_file"
    by (simp add: pending_def example_pipe_def example_input_def)
  show "stream_inv example_pipe example_input"
    by (simp add: stream_inv_def example_pipe_def example_held_def example_input_def DATABUF_def)
  show "short_lines (pending example_pipe example_input)"
    unfolding pending by (rule short_lines_length) (simp add: example_file_def)
  show "all_lines False (pending example_pipe example_input) = [cstr ''a A'']"
    unfolding pending by code_simp
qed

theorem stream_lines_independent_witness:
  "read_lines 3 example_pipe example_input = [cstr ''a A'']"
  using stream_lines_independent [OF example_stream(1,2), of 3] by (simp add: example_stream(3))

text \<open>
  A last line without a newline counts when the file is held in the buffer and is lost
  when the same bytes are read through it.
\<close>

theorem unterminated_last_line:
  "read_lines 3 example_held example_input = [cstr ''a A'', cstr ''b NS''] \<and>
   read_lines 3 example_pipe example_input = [cstr ''a A''] \<and>
   df_data example_held = pending example_pipe example_input"
proof (intro conjI)
  have "cached_inv (example_held, example_input)"
    "cached_left (example_held, example_input) = [cstr ''a A'', cstr ''b NS'']"
    by (simp_all add: cached_inv_def cached_left_def example_held_def example_lines)
  then show "read_lines 3 example_held example_input = [cstr ''a A'', cstr ''b NS'']"
    using cached.take_lines_left [of "(example_held, example_input)" 3] by (simp add: read_lines_cached)
  show "read_lines 3 example_pipe example_input = [cstr ''a A'']"
    using streamed.take_lines_left [of "(example_pipe, example_input)" 3] example_stream
    by (simp add: read_lines_streamed stream_invar_def stream_left_def)
  show "df_data example_held = pending example_pipe example_input"
    by (simp add: pending_def example_pipe_def example_held_def example_input_def)
qed

section \<open>Every query file\<close>

text \<open>
  Whatever a query file holds and however it is read, a call either returns, with the buffer
  well-formed, or ends the program because the input cannot be rewound.
\<close>

lemma read_more_format: "read_more df s = (r, df', s') \<Longrightarrow> df_format df' = df_format df"
  by (auto simp: read_more_def Let_def compact_def split: if_splits prod.splits option.splits)

lemma past_line_format [simp]: "df_format (past_line df n) = df_format df"
  by (simp add: past_line_def Let_def)

lemma line_round_format:
  "case line_round df s of Inl x \<Rightarrow> df_format (fst (snd (snd x))) = df_format df | Inr x \<Rightarrow> df_format (fst x) = df_format df"
proof -
  define c where "c = strcspn (drop (df_at df) (df_data df)) [10]"
  obtain r df1 s1 where x: "(if c = df_have df - df_at df \<and> \<not> df_cached df then read_more df s else (PERF_R_SUCCESS, df, s)) = (r, df1, s1)"
    using prod_cases3 by blast
  have "df_format df1 = df_format df" using x read_more_format [of df s r df1 s1] by (auto split: if_splits)
  then show ?thesis unfolding line_round_def Let_def c_def [symmetric] x by simp
qed

lemma next_line_format: "next_line df s = (r, l, df', s') \<Longrightarrow> df_format df' = df_format df"
proof (induction df s rule: next_line.induct)
  case (1 df s)
  show ?case
  proof (cases "line_round df s")
    case (Inl x)
    then show ?thesis using "1.prems" line_round_format [of df s] by (simp add: next_line_step [of df s])
  next
    case (Inr x)
    obtain df1 s1 where x: "x = (df1, s1)" by (cases x)
    have "next_line df1 s1 = (r, l, df', s')" using "1.prems" Inr x by (simp add: next_line_step [of df s])
    then have "df_format df' = df_format df1" using "1.IH" Inr x by blast
    then show ?thesis using line_round_format [of df s] Inr x by simp
  qed
qed

lemma readfunc_returns:
  assumes "df_format df = input_format_text_query" "0 < N" "empty_buf N b0"
  shows "\<exists>r df' s' b. readfunc df s b0 = Ret (r, df', s', b) \<and> df_format df' = input_format_text_query \<and>
    buf_wf b \<and> buf_length b = N \<and> (r \<noteq> PERF_R_SUCCESS \<longrightarrow> b = b0)"
proof -
  obtain r l df' s' where n: "next_line df s = (r, l, df', s')" using prod_cases4 by blast
  have pl: "put_line b0 l = Ret (bput b0 (text_record N l))"
    using put_line_fits [of b0 l] assms(2,3) by (simp add: text_record_def empty_buf_def fits_def)
  have "fits b0 (length (text_record N l))" using assms(2,3) by (auto simp: text_record_def empty_buf_def fits_def)
  then have "buf_wf (bput b0 (text_record N l))" "buf_length (bput b0 (text_record N l)) = N"
    using assms(3) by (simp_all add: empty_buf_def wf_intros)
  then show ?thesis
    using n pl assms next_line_format [OF n] by (auto simp: readfunc_def read_one_line_def empty_buf_def)
qed

lemma query_file_returns:
  assumes f: "df_format df = input_format_text_query" and N: "0 < N" and b0: "empty_buf N b0"
  shows "(\<exists>r df' s' b. perf_datafile_next df s b0 = Ret (r, df', s', b) \<and> df_format df' = input_format_text_query \<and>
      buf_wf b \<and> buf_length b = N) \<or> perf_datafile_next df s b0 = Exit 1"
proof -
  obtain r df1 s1 b1 where r: "readfunc df s b0 = Ret (r, df1, s1, b1)" "df_format df1 = input_format_text_query"
      "buf_wf b1" "buf_length b1 = N" "r \<noteq> PERF_R_SUCCESS \<longrightarrow> b1 = b0"
    using readfunc_returns [OF assms] by blast
  have b: "buf_wf b0" "buf_length b0 = N" using b0 by (simp_all add: empty_buf_def)
  define df2 where "df2 = df1\<lparr>df_nruns := df_nruns df1 + 1\<rparr>"
  show ?thesis
  proof (cases "r = PERF_R_EOF \<and> df_read_any df1 \<and> df_maxruns df2 \<noteq> df_nruns df2 \<and> \<not> (df_maxruns df > 0 \<and> df_maxruns df = df_nruns df)")
    case False
    then show ?thesis
      using r b f by (auto simp: perf_datafile_next_def Let_def df2_def)
  next
    case True
    show ?thesis
    proof (cases "reopen_file df2 s1")
      case (Ret x)
      obtain df3 s3 where x: "x = (df3, s3)" by (cases x)
      have "df_format df3 = input_format_text_query"
        using Ret x r(2) by (auto simp: reopen_file_def df2_def split: if_splits)
      from readfunc_returns [OF this N b0] obtain r4 df4 s4 b4 where r4: "readfunc df3 s3 b0 = Ret (r4, df4, s4, b4)"
        "df_format df4 = input_format_text_query" "buf_wf b4" "buf_length b4 = N" by blast
      then show ?thesis
        using True r x Ret by (auto simp: perf_datafile_next_def Let_def df2_def)
    qed (use True r in \<open>auto simp: perf_datafile_next_def Let_def df2_def reopen_file_def split: if_splits\<close>)
  qed
qed

end
