(* ===== verification/Opt.thy ===== *)
theory Opt
  imports Prelude
begin

text \<open>
  The command line (\<^verbatim>\<open>opt.c\<close>): the table of options, the conversion of their arguments and
  the list of messages to suppress.  A pointer to the variable of an option is a name \<open>'v\<close>, and
  parsing updates a map from names to values.  The arguments are those of \<^verbatim>\<open>getopt\<close>, given as
  the sequence of its results; \<^verbatim>\<open>atof\<close> and the product with a million, which work on
  \<^verbatim>\<open>double\<close>, are given by a record.
\<close>

section \<open>The table of options\<close>

datatype perf_opttype =
  perf_opt_string | perf_opt_boolean | perf_opt_uint | perf_opt_zpint | perf_opt_timeval |
  perf_opt_double | perf_opt_port

record 'v opt =
  opt_c :: char
  opt_type :: perf_opttype
  opt_desc :: "string option"
  opt_help :: string
  opt_defval :: "string option"
  opt_var :: "'v option"

record 'v long_opt =
  lopt_name :: bytes
  lopt_type :: perf_opttype
  lopt_desc :: "string option"
  lopt_help :: string
  lopt_defval :: "string option"
  lopt_var :: 'v

record 'v options =
  opts :: "'v opt list"
  longopts :: "'v long_opt list"
  optstr :: string

definition MAX_OPTS :: nat where
  "MAX_OPTS = 64"

definition DEFVALBUF :: nat where
  "DEFVALBUF = 512"

definition defval_fits :: "string option \<Rightarrow> bool" where
  "defval_fits d = (case d of None \<Rightarrow> True | Some s \<Rightarrow> \<not> length s > DEFVALBUF - 1)"

definition perf_opt_add ::
  "char \<Rightarrow> perf_opttype \<Rightarrow> string option \<Rightarrow> string \<Rightarrow> string option \<Rightarrow> 'v option \<Rightarrow> 'v options \<Rightarrow> 'v options outcome" where
  "perf_opt_add c ty desc help defval valp os =
    (if length (opts os) = MAX_OPTS then Exit 1
     else if \<not> defval_fits defval then Exit 1
     else
       let newoptstr = take (MAX_OPTS * 2 + 4) (optstr os @ [c] @ (if ty = perf_opt_boolean then [] else '':''))
       in Ret (os\<lparr>opts := opts os @
              [\<lparr>opt_c = c, opt_type = ty, opt_desc = desc, opt_help = help, opt_defval = defval, opt_var = valp\<rparr>],
            optstr := take (MAX_OPTS * 2 + 2) newoptstr\<rparr>))"

definition perf_long_opt_add ::
  "bytes \<Rightarrow> perf_opttype \<Rightarrow> string option \<Rightarrow> string \<Rightarrow> string option \<Rightarrow> 'v \<Rightarrow> 'v options \<Rightarrow> 'v options outcome" where
  "perf_long_opt_add name ty desc help defval valp os =
    (if \<not> defval_fits defval then Exit 1
     else Ret (os\<lparr>longopts :=
       \<lparr>lopt_name = name, lopt_type = ty, lopt_desc = desc, lopt_help = help, lopt_defval = defval, lopt_var = valp\<rparr> #
       longopts os\<rparr>))"

section \<open>The usage text\<close>

definition newline :: string where
  "newline = [CHR 0x0A]"

definition LINE_LENGTH :: u32 where
  "LINE_LENGTH = 80"

fun usage_line :: "u32 \<Rightarrow> u32 \<Rightarrow> 'v opt list \<Rightarrow> string" where
  "usage_line prefix_len position [] = newline"
| "usage_line prefix_len position (o1 # os) =
    (let arg_len = 6 + (case opt_desc o1 of None \<Rightarrow> 0 | Some d \<Rightarrow> of_nat (length d) + 1);
         wrap = LINE_LENGTH - position - 1 < arg_len;
         position = (if wrap then prefix_len else position)
     in (if wrap then newline @ replicate (unat prefix_len) (CHR '' '') else []) @
        '' [-'' @ [opt_c o1] @ (case opt_desc o1 of None \<Rightarrow> [] | Some d \<Rightarrow> '' '' @ d) @ '']'' @
        usage_line prefix_len (position + arg_len) os)"

definition default_note :: "string option \<Rightarrow> string" where
  "default_note d = (case d of None \<Rightarrow> [] | Some s \<Rightarrow> '' (default: '' @ s @ '')'')"

definition perf_opt_usage :: "string \<Rightarrow> 'v options \<Rightarrow> string" where
  "perf_opt_usage progname os =
    (let start = ''Usage: '' @ progname; prefix_len = of_nat (length start)
     in start @ usage_line prefix_len prefix_len (opts os) @
        concat (map (\<lambda>o1. ''  -'' @ [opt_c o1] @ '' '' @ opt_help o1 @ default_note (opt_defval o1) @ newline) (opts os)))"

definition perf_long_opt_usage :: "string \<Rightarrow> 'v options \<Rightarrow> string" where
  "perf_long_opt_usage progname os =
    ''Usage: '' @ progname @ '' ... -O <name>[=<value>] ...'' @ newline @ newline @
    ''Available long options:'' @ newline @
    concat (map (\<lambda>l. ''  '' @ map (char_of \<circ> unat) (lopt_name l) @
        (if lopt_type l = perf_opt_boolean then []
         else ''=<'' @ (case lopt_desc l of None \<Rightarrow> ''val'' | Some d \<Rightarrow> d) @ ''>'') @
        '': '' @ lopt_help l @ default_note (lopt_defval l) @ newline) (longopts os))"

section \<open>The arguments\<close>

record 'd floats =
  fl_atof :: "bytes \<Rightarrow> 'd"
  fl_micros :: "'d \<Rightarrow> u64"

datatype 'd optval = OString bytes | OBool bool | OUint u32 | OTime u64 | ODouble 'd | OPort u16

definition parse_uint :: "bytes \<Rightarrow> u32 \<Rightarrow> u32 \<Rightarrow> u32 outcome" where
  "parse_uint str mn mx =
    (case strtoul 10 str of (val, endptr, erange) \<Rightarrow>
       if \<not> erange \<and> str \<noteq> [] \<and> endptr = [] \<and> val \<le> 2 ^ 32 - 1
       then let ret = of_nat val in if ret \<ge> mn \<and> ret \<le> mx then Ret ret else Exit 1
       else Exit 1)"

fun double_syntax :: "bool \<Rightarrow> bytes \<Rightarrow> bool" where
  "double_syntax seen_dot [] = True"
| "double_syntax seen_dot (c # cs) =
    (if c = 46 then (if seen_dot then False else double_syntax True cs)
     else if c < 48 \<or> c > 57 then False
     else double_syntax seen_dot cs)"

definition parse_double :: "'d floats \<Rightarrow> bytes \<Rightarrow> 'd outcome" where
  "parse_double fl str = (if double_syntax False str then Ret (fl_atof fl str) else Exit 1)"

definition parse_timeval :: "'d floats \<Rightarrow> bytes \<Rightarrow> u64 outcome" where
  "parse_timeval fl str = obind (parse_double fl str) (\<lambda>d. Ret (fl_micros fl d))"

text \<open>The assignment to the variable of an option, by its type.\<close>

definition option_value :: "'d floats \<Rightarrow> perf_opttype \<Rightarrow> bytes \<Rightarrow> 'd optval outcome" where
  "option_value fl ty arg =
    (case ty of
       perf_opt_string \<Rightarrow> Ret (OString arg)
     | perf_opt_boolean \<Rightarrow> Ret (OBool True)
     | perf_opt_uint \<Rightarrow> obind (parse_uint arg 1 0xFFFFFFFF) (\<lambda>v. Ret (OUint v))
     | perf_opt_zpint \<Rightarrow> obind (parse_uint arg 0 0xFFFFFFFF) (\<lambda>v. Ret (OUint v))
     | perf_opt_timeval \<Rightarrow> obind (parse_timeval fl arg) (\<lambda>v. Ret (OTime v))
     | perf_opt_double \<Rightarrow> obind (parse_double fl arg) (\<lambda>v. Ret (ODouble v))
     | perf_opt_port \<Rightarrow> obind (parse_uint arg 0 0xFFFF) (\<lambda>v. Ret (OPort (ucast v))))"

type_synonym ('v, 'd) optvals = "'v \<Rightarrow> 'd optval option"

fun long_scan ::
  "'d floats \<Rightarrow> bytes \<Rightarrow> nat \<Rightarrow> bytes option \<Rightarrow> 'v long_opt list \<Rightarrow> ('v, 'd) optvals \<Rightarrow> ('v, 'd) optvals option outcome" where
  "long_scan fl optarg optlen arg [] vs = Ret None"
| "long_scan fl optarg optlen arg (l # ls) vs =
    (if strncmp_eq optarg (lopt_name l) optlen then
       (if lopt_type l = perf_opt_boolean then Ret (Some (vs(lopt_var l \<mapsto> OBool True)))
        else case arg of
          None \<Rightarrow> Ret None
        | Some a \<Rightarrow> obind (option_value fl (lopt_type l) a) (\<lambda>v. Ret (Some (vs(lopt_var l \<mapsto> v)))))
     else long_scan fl optarg optlen arg ls vs)"

text \<open>\<open>None\<close> stands for the result \<open>-1\<close>.\<close>

definition perf_opt_long_parse ::
  "'d floats \<Rightarrow> 'v options \<Rightarrow> bytes \<Rightarrow> ('v, 'd) optvals \<Rightarrow> ('v, 'd) optvals option outcome" where
  "perf_opt_long_parse fl os optarg vs =
    (case strchr optarg 61 of
       Some (name, arg) \<Rightarrow>
         if length name < 1 \<or> length arg = 0 then Ret None
         else long_scan fl optarg (length name) (Some arg) (longopts os) vs
     | None \<Rightarrow> long_scan fl optarg (length optarg) None (longopts os) vs)"

fun opt_loop :: "'d floats \<Rightarrow> 'v options \<Rightarrow> (char \<times> bytes) list \<Rightarrow> ('v, 'd) optvals \<Rightarrow> ('v, 'd) optvals outcome" where
  "opt_loop fl os [] vs = Ret vs"
| "opt_loop fl os ((c, optarg) # es) vs =
    (case find (\<lambda>o1. opt_c o1 = c) (opts os) of
       None \<Rightarrow> Exit 1
     | Some o1 \<Rightarrow>
         if c = CHR ''h'' then Exit 0
         else if c = CHR ''H'' then Exit 0
         else if c = CHR ''O'' then
           obind (perf_opt_long_parse fl os optarg vs) (\<lambda>r.
             case r of None \<Rightarrow> Exit 1 | Some vs \<Rightarrow> opt_loop fl os es vs)
         else
           obind (option_value fl (opt_type o1) optarg) (\<lambda>v.
             case opt_var o1 of None \<Rightarrow> UB | Some x \<Rightarrow> opt_loop fl os es (vs(x \<mapsto> v))))"

text \<open>\<open>getopt\<close> maps the option string to the options found and to whether arguments are left.\<close>

definition perf_opt_parse ::
  "'d floats \<Rightarrow> (string \<Rightarrow> (char \<times> bytes) list \<times> bool) \<Rightarrow> 'v options \<Rightarrow> ('v, 'd) optvals \<Rightarrow> ('v, 'd) optvals outcome" where
  "perf_opt_parse fl getopt os vs =
    obind (perf_opt_add (CHR ''h'') perf_opt_boolean None ''print this help'' None None os) (\<lambda>os.
    obind (perf_opt_add (CHR ''H'') perf_opt_boolean None ''print long options help'' None None os) (\<lambda>os.
    obind (perf_opt_add (CHR ''O'') perf_opt_string None ''set long options: <name>=<value>'' None None os) (\<lambda>os.
      case getopt (optstr os) of (es, rest) \<Rightarrow>
        obind (opt_loop fl os es vs) (\<lambda>vs. if rest then Exit 1 else Ret vs))))"

section \<open>Messages to suppress\<close>

record perf_suppress =
  sup_timeouts :: bool
  sup_congestion :: bool
  sup_sendfailed :: bool
  sup_sockready :: bool
  sup_unexpected :: bool

definition no_suppress :: perf_suppress where
  "no_suppress = \<lparr>sup_timeouts = False, sup_congestion = False, sup_sendfailed = False,
    sup_sockready = False, sup_unexpected = False\<rparr>"

definition suppress_word :: "bytes \<Rightarrow> nat \<Rightarrow> perf_suppress \<Rightarrow> perf_suppress outcome" where
  "suppress_word val len s =
    (if strncmp_eq val (cstr ''timeouts'') len then Ret (s\<lparr>sup_timeouts := True\<rparr>)
     else if strncmp_eq val (cstr ''congestion'') len then Ret (s\<lparr>sup_congestion := True\<rparr>)
     else if strncmp_eq val (cstr ''sendfailed'') len then Ret (s\<lparr>sup_sendfailed := True\<rparr>)
     else if strncmp_eq val (cstr ''sockready'') len then Ret (s\<lparr>sup_sockready := True\<rparr>)
     else if strncmp_eq val (cstr ''unexpected'') len then Ret (s\<lparr>sup_unexpected := True\<rparr>)
     else Exit 1)"

lemma strchr_shorter: "strchr v c = Some (w, nxt) \<Longrightarrow> length nxt < length v"
proof -
  assume "strchr v c = Some (w, nxt)"
  then have c: "c \<in> set v" "nxt = tl (dropWhile (\<lambda>b. b \<noteq> c) v)" by (auto simp: strchr_def split: if_splits)
  then have "dropWhile (\<lambda>b. b \<noteq> c) v \<noteq> []" by auto
  then have "length nxt < length (dropWhile (\<lambda>b. b \<noteq> c) v)" using c(2) by simp
  also have "\<dots> \<le> length v" by (rule length_dropWhile_le)
  finally show ?thesis .
qed

function suppress_loop :: "bytes option \<Rightarrow> perf_suppress \<Rightarrow> perf_suppress outcome" where
  "suppress_loop val s =
    (case val of
       None \<Rightarrow> Ret s
     | Some [] \<Rightarrow> Ret s
     | Some v \<Rightarrow>
         (case strchr v 44 of
            Some (w, nxt) \<Rightarrow> obind (suppress_word v (length w) s) (\<lambda>s. suppress_loop (Some nxt) s)
          | None \<Rightarrow> obind (suppress_word v (length v) s) (\<lambda>s. suppress_loop None s)))"
  by pat_completeness auto
termination
  by (relation "measure (\<lambda>(val, s). case val of None \<Rightarrow> 0 | Some v \<Rightarrow> Suc (length v))")
    (auto dest!: strchr_shorter)

definition perf_opt_parse_suppress :: "bytes option \<Rightarrow> perf_suppress outcome" where
  "perf_opt_parse_suppress val = suppress_loop val no_suppress"

section \<open>The option string\<close>

text \<open>The string given to \<^verbatim>\<open>getopt\<close> lists the options of the table and is never cut.\<close>

definition opt_letters :: "'v opt \<Rightarrow> string" where
  "opt_letters o1 = opt_c o1 # (if opt_type o1 = perf_opt_boolean then [] else '':'')"

definition options_ok :: "'v options \<Rightarrow> bool" where
  "options_ok os \<longleftrightarrow> length (opts os) \<le> MAX_OPTS \<and> optstr os = concat (map opt_letters (opts os))"

lemma length_opt_letters: "length (concat (map opt_letters os)) \<le> 2 * length os"
  by (induction os) (auto simp: opt_letters_def)

lemma opt_add_ok:
  assumes "options_ok os" "perf_opt_add c ty desc help defval valp os = Ret os'"
  shows "options_ok os' \<and> longopts os' = longopts os \<and> length (opts os') = length (opts os) + 1"
proof -
  let ?o = "\<lparr>opt_c = c, opt_type = ty, opt_desc = desc, opt_help = help, opt_defval = defval, opt_var = valp\<rparr>"
  have n: "length (opts os) < MAX_OPTS"
    using assms by (auto simp: perf_opt_add_def options_ok_def Let_def split: if_splits)
  have "length (concat (map opt_letters (opts os @ [?o]))) \<le> 2 * length (opts os @ [?o])"
    by (rule length_opt_letters)
  then have "length (optstr os @ opt_letters ?o) \<le> MAX_OPTS * 2"
    using assms(1) n by (simp add: options_ok_def)
  then show ?thesis
    using assms n by (auto simp: perf_opt_add_def options_ok_def opt_letters_def Let_def split: if_splits)
qed

lemma long_opt_add_ok:
  "options_ok os \<Longrightarrow> perf_long_opt_add name ty desc help defval valp os = Ret os' \<Longrightarrow>
    options_ok os' \<and> opts os' = opts os"
  by (auto simp: perf_long_opt_add_def options_ok_def split: if_splits)

section \<open>Numbers\<close>

lemma strtoul_any_digits:
  assumes "ds \<noteq> []" and "\<forall>d \<in> set ds. isdigit d" and "rest = [] \<or> \<not> isdigit (hd rest)"
  shows "strtoul 10 (ds @ rest) =
    (if digits_val 10 ds \<le> ULONG_MAX then (digits_val 10 ds, rest, False) else (ULONG_MAX, rest, True))"
proof -
  obtain d ds' where ds: "ds = d # ds'" using assms(1) by (cases ds) auto
  have d: "\<not> isspace d" "d \<noteq> 45" "d \<noteq> 43" using isdigit_not_blank [of d] assms(2) ds by auto
  have "takeWhile isdigit (ds @ rest) = ds" and "dropWhile isdigit (ds @ rest) = rest"
    using assms(2,3) by (cases rest; simp)+
  moreover have "is_base_digit 10 = isdigit" by (simp add: fun_eq_iff is_base_digit_10)
  moreover have "strto_sign (dropWhile isspace (ds @ rest)) = (False, ds @ rest)"
    using d ds by (simp add: strto_sign_def)
  moreover have "strto_prefix 10 s = s" for s by (simp add: strto_prefix_def split: list.splits)
  ultimately have "strto_scan 10 (ds @ rest) = (False, ds, rest)"
    using assms(1) by (simp add: strto_scan_def)
  then show ?thesis by (simp add: strtoul_def)
qed

lemma parse_uint_range: "parse_uint str mn mx = Ret v \<Longrightarrow> mn \<le> v \<and> v \<le> mx"
  by (auto simp: parse_uint_def Let_def split: prod.splits if_splits)



section \<open>Types of the variables\<close>

text \<open>A value fits the type of an option; a number of type \<^verbatim>\<open>perf_opt_uint\<close> is not zero.\<close>

fun has_type :: "'d optval \<Rightarrow> perf_opttype \<Rightarrow> bool" where
  "has_type (OString s) ty \<longleftrightarrow> ty = perf_opt_string"
| "has_type (OBool b) ty \<longleftrightarrow> ty = perf_opt_boolean \<and> b"
| "has_type (OUint v) ty \<longleftrightarrow> ty = perf_opt_zpint \<or> ty = perf_opt_uint \<and> 1 \<le> v"
| "has_type (OTime v) ty \<longleftrightarrow> ty = perf_opt_timeval"
| "has_type (ODouble v) ty \<longleftrightarrow> ty = perf_opt_double"
| "has_type (OPort v) ty \<longleftrightarrow> ty = perf_opt_port"

definition var_types :: "'v options \<Rightarrow> 'v \<Rightarrow> perf_opttype set" where
  "var_types os x = set (map opt_type (filter (\<lambda>o1. opt_var o1 = Some x) (opts os)) @
    map lopt_type (filter (\<lambda>l. lopt_var l = x) (longopts os)))"

definition well_typed :: "'v options \<Rightarrow> ('v, 'd) optvals \<Rightarrow> bool" where
  "well_typed os vs \<longleftrightarrow> (\<forall>x v. vs x = Some v \<longrightarrow> (\<exists>ty \<in> var_types os x. has_type v ty))"

lemma option_value_typed: "option_value fl ty arg = Ret v \<Longrightarrow> has_type v ty"
  by (cases ty) (auto simp: option_value_def dest: parse_uint_range)

lemma well_typed_upd:
  "well_typed os vs \<Longrightarrow> ty \<in> var_types os x \<Longrightarrow> has_type v ty \<Longrightarrow> well_typed os (vs(x \<mapsto> v))"
  by (auto simp: well_typed_def)

lemma long_scan_typed:
  assumes "long_scan fl optarg optlen arg ls vs = Ret (Some vs')" "well_typed os vs" "set ls \<subseteq> set (longopts os)"
  shows "well_typed os vs'"
  using assms
proof (induction ls)
  case (Cons l ls)
  have "lopt_type l \<in> var_types os (lopt_var l)" using Cons.prems(3) by (auto simp: var_types_def)
  moreover have "has_type (OBool True) perf_opt_boolean" by simp
  ultimately show ?case
    using Cons by (auto split: if_splits option.splits intro: well_typed_upd option_value_typed)
qed simp

lemma long_parse_typed:
  "perf_opt_long_parse fl os optarg vs = Ret (Some vs') \<Longrightarrow> well_typed os vs \<Longrightarrow> well_typed os vs'"
  by (auto simp: perf_opt_long_parse_def split: option.splits prod.splits if_splits intro: long_scan_typed)

lemma opt_loop_typed:
  assumes "opt_loop fl os es vs = Ret vs'" "well_typed os vs"
  shows "well_typed os vs'"
  using assms
proof (induction es arbitrary: vs)
  case Nil
  then show ?case by simp
next
  case (Cons e es)
  obtain c optarg where e: "e = (c, optarg)" by (cases e)
  then obtain o1 where o1: "find (\<lambda>o1. opt_c o1 = c) (opts os) = Some o1"
    using Cons.prems by (auto split: option.splits)
  then have mem: "o1 \<in> set (opts os)" by (auto simp: find_Some_iff)
  show ?case
  proof (cases "c = CHR ''O''")
    case True
    then obtain vs1 where "perf_opt_long_parse fl os optarg vs = Ret (Some vs1)" "opt_loop fl os es vs1 = Ret vs'"
      using Cons.prems e o1 by (auto split: if_splits option.splits)
    then show ?thesis using Cons long_parse_typed by blast
  next
    case False
    then obtain v x where v: "option_value fl (opt_type o1) optarg = Ret v" "opt_var o1 = Some x"
      "opt_loop fl os es (vs(x \<mapsto> v)) = Ret vs'"
      using Cons.prems e o1 by (auto split: if_splits option.splits)
    have "opt_type o1 \<in> var_types os x" using mem v(2) by (auto simp: var_types_def)
    then have "well_typed os (vs(x \<mapsto> v))"
      using well_typed_upd [OF Cons.prems(2)] option_value_typed [OF v(1)] by blast
    then show ?thesis using Cons.IH v(3) by blast
  qed
qed

lemma opt_add_types:
  assumes "perf_opt_add c ty dsc help defval valp os = Ret os'"
  shows "var_types os' x = var_types os x \<union> (if valp = Some x then {ty} else {})"
proof -
  obtain o1 where "opts os' = opts os @ [o1]" "opt_type o1 = ty" "opt_var o1 = valp" "longopts os' = longopts os"
    using assms by (auto simp: perf_opt_add_def Let_def split: if_splits)
  then show ?thesis by (simp add: var_types_def image_Un Un_ac del: set_filter)
qed

lemma long_opt_add_types:
  assumes "perf_long_opt_add name ty dsc help defval v os = Ret os'"
  shows "var_types os' x = var_types os x \<union> (if v = x then {ty} else {})"
proof -
  obtain l where "longopts os' = l # longopts os" "lopt_type l = ty" "lopt_var l = v" "opts os' = opts os"
    using assms by (auto simp: perf_long_opt_add_def split: if_splits)
  then show ?thesis by (simp add: var_types_def image_Un del: set_filter)
qed

lemma opt_parse_ok:
  assumes "perf_opt_parse fl getopt os vs = Ret vs'" "well_typed os vs"
  shows "well_typed os vs'"
proof -
  obtain o1 o2 o3 where o: "perf_opt_add (CHR ''h'') perf_opt_boolean None ''print this help'' None None os = Ret o1"
    "perf_opt_add (CHR ''H'') perf_opt_boolean None ''print long options help'' None None o1 = Ret o2"
    "perf_opt_add (CHR ''O'') perf_opt_string None ''set long options: <name>=<value>'' None None o2 = Ret o3"
    and loop: "opt_loop fl o3 (fst (getopt (optstr o3))) vs = Ret vs'"
    using assms(1) by (auto simp: perf_opt_parse_def split_beta split: if_splits)
  have "var_types o3 = var_types os"
    using opt_add_types [OF o(1)] opt_add_types [OF o(2)] opt_add_types [OF o(3)] by (simp add: fun_eq_iff)
  then have "well_typed o3 vs \<longleftrightarrow> well_typed os vs" "well_typed o3 vs' \<longleftrightarrow> well_typed os vs'"
    by (simp_all add: well_typed_def)
  then show ?thesis using opt_loop_typed [OF loop] assms(2) by blast
qed

text \<open>
  C27.  Whatever the command line, a variable that parsing has set holds a value of the type of one of
  its options, and a number other than zero where zero is not allowed.
\<close>

theorem opt_parse_typed:
  assumes "perf_opt_parse fl getopt os vs = Ret vs'" "well_typed os vs"
  shows "well_typed os vs'"
  using opt_parse_ok [OF assms] .

definition example_options :: "nat options" where
  "example_options = \<lparr>opts = [\<lparr>opt_c = CHR ''c'', opt_type = perf_opt_uint, opt_desc = None, opt_help = [],
     opt_defval = None, opt_var = Some 0\<rparr>], longopts = [], optstr = ''c:''\<rparr>"

theorem opt_parse_typed_witness:
  "\<exists>vs. perf_opt_parse (\<lparr>fl_atof = \<lambda>_. (), fl_micros = \<lambda>_. 0\<rparr>) (\<lambda>_. ([(CHR ''c'', [55])], False))
     example_options (\<lambda>_. None) = Ret vs \<and> vs 0 = Some (OUint 7) \<and> well_typed example_options vs"
proof -
  have "digit_val 55 = 7" "isdigit 55" by code_simp+
  then have "parse_uint [55] 1 0xFFFFFFFF = Ret 7"
    using strtoul_any_digits [of "[55]" "[]"] by (simp add: parse_uint_def digits_val_def ULONG_MAX_def)
  then have run: "perf_opt_parse (\<lparr>fl_atof = \<lambda>_. (), fl_micros = \<lambda>_. 0\<rparr>) (\<lambda>_. ([(CHR ''c'', [55])], False))
      example_options (\<lambda>_. None) = Ret (\<lambda>x. if x = 0 then Some (OUint 7) else None)"
    by (simp add: perf_opt_parse_def perf_opt_add_def example_options_def MAX_OPTS_def defval_fits_def
        option_value_def Let_def fun_upd_def)
  have "well_typed example_options (\<lambda>_. None)" by (simp add: well_typed_def)
  from opt_parse_typed [OF run this] run show ?thesis by auto
qed

section \<open>Names of messages\<close>

definition suppress_names :: "bytes list" where
  "suppress_names = [cstr ''timeouts'', cstr ''congestion'', cstr ''sendfailed'', cstr ''sockready'', cstr ''unexpected'']"

text \<open>The message a word stands for: the first name that starts with it.\<close>

definition suppress_meaning :: "bytes \<Rightarrow> bytes option" where
  "suppress_meaning w = find (\<lambda>n. take (length w) n = w) suppress_names"

definition suppress_flags :: "bytes set \<Rightarrow> perf_suppress" where
  "suppress_flags ns = \<lparr>sup_timeouts = cstr ''timeouts'' \<in> ns, sup_congestion = cstr ''congestion'' \<in> ns,
    sup_sendfailed = cstr ''sendfailed'' \<in> ns, sup_sockready = cstr ''sockready'' \<in> ns,
    sup_unexpected = cstr ''unexpected'' \<in> ns\<rparr>"

fun comma_list :: "bytes list \<Rightarrow> bytes" where
  "comma_list [] = []"
| "comma_list [w] = w"
| "comma_list (w # ws) = w @ 44 # comma_list ws"

lemma suppress_word_meaning:
  assumes "take len val = w" "length w = len"
  shows "suppress_word val len (suppress_flags ns) =
    (case suppress_meaning w of Some n \<Rightarrow> Ret (suppress_flags (insert n ns)) | None \<Rightarrow> Exit 1)"
proof -
  have "strncmp_eq val n len \<longleftrightarrow> take (length w) n = w" for n
    using assms by (auto simp: strncmp_eq_def strn_eq_iff)
  then show ?thesis
    by (simp add: suppress_word_def suppress_meaning_def suppress_names_def suppress_flags_def cstr_eq_iff)
qed

lemma strchr_word:
  assumes "44 \<notin> set w"
  shows "strchr (w @ 44 # rest) 44 = Some (w, rest)" and "strchr w 44 = None"
  using assms by (auto simp: strchr_def takeWhile_append dropWhile_append)

lemma suppress_loop_words:
  assumes "ws \<noteq> []" and "\<forall>w \<in> set ws. w \<noteq> [] \<and> 44 \<notin> set w"
  shows "suppress_loop (Some (comma_list ws)) (suppress_flags ns) =
    (if \<forall>w \<in> set ws. suppress_meaning w \<noteq> None
     then Ret (suppress_flags (ns \<union> (the \<circ> suppress_meaning) ` set ws)) else Exit 1)"
  using assms
proof (induction ws arbitrary: ns rule: comma_list.induct)
  case 1
  then show ?case by simp
next
  case (2 w)
  then obtain c cs where w: "w = c # cs" by (cases w) auto
  have "strchr w 44 = None" using 2 strchr_word by simp
  moreover have "suppress_word w (length w) (suppress_flags ns) =
      (case suppress_meaning w of Some n \<Rightarrow> Ret (suppress_flags (insert n ns)) | None \<Rightarrow> Exit 1)"
    by (rule suppress_word_meaning) simp_all
  moreover have "suppress_loop None s = Ret s" for s by (subst suppress_loop.simps) simp
  ultimately show ?case using w by (subst suppress_loop.simps) (auto split: option.splits simp del: suppress_loop.simps)
next
  case (3 w v ws)
  let ?rest = "comma_list (v # ws)"
  obtain c cs where w: "w = c # cs" using 3 by (cases w) auto
  have s: "strchr (w @ 44 # ?rest) 44 = Some (w, ?rest)" using 3 strchr_word by simp
  have "suppress_word (w @ 44 # ?rest) (length w) (suppress_flags ns) =
      (case suppress_meaning w of Some n \<Rightarrow> Ret (suppress_flags (insert n ns)) | None \<Rightarrow> Exit 1)"
    by (rule suppress_word_meaning) simp_all
  then have "suppress_loop (Some (w @ 44 # ?rest)) (suppress_flags ns) =
      (case suppress_meaning w of
         Some n \<Rightarrow> suppress_loop (Some ?rest) (suppress_flags (insert n ns)) | None \<Rightarrow> Exit 1)"
    using w s by (subst suppress_loop.simps) (auto split: option.splits simp del: suppress_loop.simps)
  moreover have "suppress_loop (Some ?rest) (suppress_flags ns') =
    (if \<forall>w \<in> set (v # ws). suppress_meaning w \<noteq> None
     then Ret (suppress_flags (ns' \<union> (the \<circ> suppress_meaning) ` set (v # ws))) else Exit 1)" for ns'
    using 3 by (intro "3.IH") simp_all
  ultimately show ?case by (auto split: option.splits simp del: suppress_loop.simps simp: insert_commute)
qed

text \<open>
  A comma-separated list of words sets exactly the flags of the messages they stand for,
  and a word that starts no name ends the program.
\<close>

theorem parse_suppress_correct:
  assumes "ws \<noteq> []" and "\<forall>w \<in> set ws. w \<noteq> [] \<and> 44 \<notin> set w"
  shows "perf_opt_parse_suppress (Some (comma_list ws)) =
    (if \<forall>w \<in> set ws. suppress_meaning w \<noteq> None
     then Ret (suppress_flags ((the \<circ> suppress_meaning) ` set ws)) else Exit 1)"
proof -
  have "no_suppress = suppress_flags {}" by (simp add: no_suppress_def suppress_flags_def)
  then show ?thesis using suppress_loop_words [OF assms, of "{}"] by (simp add: perf_opt_parse_suppress_def)
qed

theorem parse_suppress_correct_witness:
  "perf_opt_parse_suppress (Some (cstr ''unexpected,timeouts'')) =
     Ret (no_suppress\<lparr>sup_timeouts := True, sup_unexpected := True\<rparr>) \<and>
   perf_opt_parse_suppress (Some (cstr ''timeouts,all'')) = Exit 1"
proof -
  have l: "comma_list [cstr ''unexpected'', cstr ''timeouts''] = cstr ''unexpected,timeouts''"
    "comma_list [cstr ''timeouts'', cstr ''all''] = cstr ''timeouts,all''" by code_simp+
  have w: "\<forall>w \<in> set [cstr ''unexpected'', cstr ''timeouts'']. w \<noteq> [] \<and> 44 \<notin> set w"
    "\<forall>w \<in> set [cstr ''timeouts'', cstr ''all'']. w \<noteq> [] \<and> 44 \<notin> set w" by code_simp+
  have m: "suppress_meaning (cstr ''unexpected'') = Some (cstr ''unexpected'')"
    "suppress_meaning (cstr ''timeouts'') = Some (cstr ''timeouts'')" "suppress_meaning (cstr ''all'') = None"
    by code_simp+
  show ?thesis
    using parse_suppress_correct [OF _ w(1)] parse_suppress_correct [OF _ w(2)]
    unfolding l by (simp add: m suppress_flags_def no_suppress_def cstr_eq_iff)
qed

end
