(* ===== verification/Net.thy ===== *)
theory Net
  imports Prelude
begin

text \<open>
  The transport-independent part of \<^verbatim>\<open>net.c\<close> and \<^verbatim>\<open>net.h\<close>: modes, address families,
  socket addresses, and the choice of the local port of each socket.  The resolver
  (\<^verbatim>\<open>getaddrinfo\<close>) and \<^verbatim>\<open>inet_pton\<close> are arguments.
\<close>

section \<open>The code\<close>

datatype perf_net_mode = sock_none | sock_file | sock_pipe | sock_udp | sock_tcp | sock_dot | sock_doh

definition perf_net_parsemode :: "bytes \<Rightarrow> perf_net_mode outcome" where
  "perf_net_parsemode mode =
    (if mode = cstr ''udp'' then Ret sock_udp
     else if mode = cstr ''tcp'' then Ret sock_tcp
     else if mode = cstr ''tls'' \<or> mode = cstr ''dot'' then Ret sock_dot
     else if mode = cstr ''doh'' then Ret sock_doh
     else Exit 1)"

datatype address_family = AF_UNSPEC | AF_INET | AF_INET6 | AF_other nat

definition perf_net_parsefamily :: "bytes option \<Rightarrow> address_family outcome" where
  "perf_net_parsefamily family =
    (case family of
       None \<Rightarrow> Ret AF_UNSPEC
     | Some f \<Rightarrow>
         if f = cstr ''any'' then Ret AF_UNSPEC
         else if f = cstr ''inet'' then Ret AF_INET
         else if f = cstr ''inet6'' then Ret AF_INET6
         else Exit 1)"

text \<open>An address and a port in network byte order, and the size of the structure.\<close>

record perf_sockaddr =
  sa_family :: address_family
  sa_addr :: bytes
  sa_port :: bytes
  sa_length :: nat

definition perf_sockaddr_fromin :: "bytes \<Rightarrow> u16 \<Rightarrow> perf_sockaddr" where
  "perf_sockaddr_fromin a port = \<lparr>sa_family = AF_INET, sa_addr = a, sa_port = be16 port, sa_length = 16\<rparr>"

definition perf_sockaddr_fromin6 :: "bytes \<Rightarrow> u16 \<Rightarrow> perf_sockaddr" where
  "perf_sockaddr_fromin6 a port = \<lparr>sa_family = AF_INET6, sa_addr = a, sa_port = be16 port, sa_length = 28\<rparr>"

definition perf_sockaddr_port :: "perf_sockaddr \<Rightarrow> u16" where
  "perf_sockaddr_port a =
    (case sa_family a of
       AF_INET \<Rightarrow> of_nat (ntohs16 (sa_port a ! 0) (sa_port a ! 1))
     | AF_INET6 \<Rightarrow> of_nat (ntohs16 (sa_port a ! 0) (sa_port a ! 1))
     | _ \<Rightarrow> 0)"

definition perf_sockaddr_setport :: "perf_sockaddr \<Rightarrow> u16 \<Rightarrow> perf_sockaddr" where
  "perf_sockaddr_setport a port =
    (case sa_family a of
       AF_INET \<Rightarrow> a\<lparr>sa_port := be16 port\<rparr>
     | AF_INET6 \<Rightarrow> a\<lparr>sa_port := be16 port\<rparr>
     | _ \<Rightarrow> a)"

text \<open>\<open>resolve\<close> is \<^verbatim>\<open>getaddrinfo\<close>: the families and addresses of a name in its order.\<close>

fun pick_address :: "address_family \<Rightarrow> u16 \<Rightarrow> (address_family \<times> bytes) list \<Rightarrow> perf_sockaddr option" where
  "pick_address family port [] = None"
| "pick_address family port ((af, a) # as) =
    (if af = family \<or> family = AF_UNSPEC then
       (case af of
          AF_INET \<Rightarrow> Some (perf_sockaddr_fromin a port)
        | AF_INET6 \<Rightarrow> Some (perf_sockaddr_fromin6 a port)
        | _ \<Rightarrow> pick_address family port as)
     else pick_address family port as)"

definition perf_net_parseserver ::
  "(bytes \<Rightarrow> (address_family \<times> bytes) list option) \<Rightarrow> address_family \<Rightarrow> bytes \<Rightarrow> u16 \<Rightarrow> perf_sockaddr outcome" where
  "perf_net_parseserver resolve family name port =
    (case resolve name of
       None \<Rightarrow> Exit 1
     | Some as \<Rightarrow> (case pick_address family port as of Some a \<Rightarrow> Ret a | None \<Rightarrow> Exit 1))"

text \<open>\<open>pton\<close> is \<^verbatim>\<open>inet_pton\<close>.\<close>

definition perf_net_parselocal ::
  "(address_family \<Rightarrow> bytes \<Rightarrow> bytes option) \<Rightarrow> address_family \<Rightarrow> bytes option \<Rightarrow> u16 \<Rightarrow> perf_sockaddr outcome" where
  "perf_net_parselocal pton family name port =
    (case name of
       None \<Rightarrow>
         (case family of
            AF_INET \<Rightarrow> Ret (perf_sockaddr_fromin (replicate 4 0) port)
          | AF_INET6 \<Rightarrow> Ret (perf_sockaddr_fromin6 (replicate 16 0) port)
          | _ \<Rightarrow> Exit 1)
     | Some n \<Rightarrow>
         (case pton AF_INET n of
            Some a \<Rightarrow> Ret (perf_sockaddr_fromin a port)
          | None \<Rightarrow>
              (case pton AF_INET6 n of
                 Some a \<Rightarrow> Ret (perf_sockaddr_fromin6 a port)
               | None \<Rightarrow> Exit 1)))"

text \<open>
  The address a socket is bound to, and the transport that opens it.  The sum of the port
  and the offset is an \<^verbatim>\<open>int\<close>.
\<close>

definition perf_net_opensocket ::
  "perf_net_mode \<Rightarrow> perf_sockaddr \<Rightarrow> perf_sockaddr \<Rightarrow> u32 \<Rightarrow> (perf_net_mode \<times> perf_sockaddr) outcome" where
  "perf_net_opensocket mode server local offset =
    (if sa_family server \<noteq> sa_family local then Exit 1
     else
       let port = ucast (perf_sockaddr_port local) :: u32 in
       obind (if port \<noteq> 0 \<and> offset \<noteq> 0
              then (let port = port + offset in
                    if sint port \<ge> 0xFFFF then Exit 1
                    else Ret (perf_sockaddr_setport local (ucast port)))
              else Ret local) (\<lambda>tmp.
       if mode \<in> {sock_udp, sock_tcp, sock_dot, sock_doh} then Ret (mode, tmp) else Exit 1))"

section \<open>Properties\<close>

definition is_inet :: "perf_sockaddr \<Rightarrow> bool" where
  "is_inet a \<longleftrightarrow> sa_family a = AF_INET \<or> sa_family a = AF_INET6"

lemma ntohs_be16: "of_nat (ntohs16 (be16 w ! 0) (be16 w ! 1)) = (w :: u16)"
proof -
  have "ntohs16 (be16 w ! 0) (be16 w ! 1) = unat w"
    using ntohs16_be16 [of "unat w"] unsigned_less [of w, where ?'a = nat] by simp
  then show ?thesis by simp
qed

lemma family_simps [simp]:
  "sa_family (perf_sockaddr_fromin a p) = AF_INET" "sa_family (perf_sockaddr_fromin6 a p) = AF_INET6"
  by (simp_all add: perf_sockaddr_fromin_def perf_sockaddr_fromin6_def)

lemma port_simps [simp]:
  "perf_sockaddr_port (perf_sockaddr_fromin a p) = p"
  "perf_sockaddr_port (perf_sockaddr_fromin6 a p) = p"
  "is_inet (perf_sockaddr_fromin a p)" "is_inet (perf_sockaddr_fromin6 a p)"
  "is_inet x \<Longrightarrow> perf_sockaddr_port (perf_sockaddr_setport x p) = p"
  "sa_family (perf_sockaddr_setport x p) = sa_family x"
  "sa_addr (perf_sockaddr_setport x p) = sa_addr x"
  by (auto simp: perf_sockaddr_port_def perf_sockaddr_fromin_def perf_sockaddr_fromin6_def
      perf_sockaddr_setport_def is_inet_def ntohs_be16 [simplified] split: address_family.splits)

text \<open>A resolved server address is an Internet address of the requested family.\<close>

lemma pick_address_ok:
  "pick_address family port as = Some a \<Longrightarrow>
    is_inet a \<and> perf_sockaddr_port a = port \<and> (family = AF_UNSPEC \<or> sa_family a = family)"
  by (induction family port as rule: pick_address.induct)
    (auto split: if_splits address_family.splits)

lemma parseserver_ok:
  "perf_net_parseserver resolve family name port = Ret a \<Longrightarrow>
    is_inet a \<and> perf_sockaddr_port a = port \<and> (family = AF_UNSPEC \<or> sa_family a = family)"
  by (auto simp: perf_net_parseserver_def pick_address_ok split: option.splits)

lemma parselocal_ok:
  "perf_net_parselocal pton family name port = Ret a \<Longrightarrow>
    is_inet a \<and> perf_sockaddr_port a = port \<and> (name = None \<longrightarrow> sa_family a = family)"
  by (auto simp: perf_net_parselocal_def split: option.splits address_family.splits)

lemma sint_small:
  assumes "unat (w :: u32) < 2 ^ 31"
  shows "sint w = int (unat w)"
proof -
  have u: "uint w = int (unat w)" by simp
  have "int (unat w) < int (2 ^ 31)" using assms by (simp only: of_nat_less_iff)
  then have "signed_take_bit 31 (int (unat w)) = int (unat w)"
    by (intro signed_take_bit_int_eq_self) (rule order_trans [of _ 0], simp_all)
  then show ?thesis unfolding sint_uint u by simp
qed

text \<open>The local port of the socket with a given offset.\<close>

lemma opensocket_port:
  assumes "sa_family server = sa_family local" "is_inet local"
    "mode \<in> {sock_udp, sock_tcp, sock_dot, sock_doh}"
    and p: "p = unat (perf_sockaddr_port local)" and off: "unat offset < 2 ^ 31 - 65536"
  shows "perf_net_opensocket mode server local offset =
    (if p = 0 \<or> offset = 0 then Ret (mode, local)
     else if p + unat offset < 65535
     then Ret (mode, perf_sockaddr_setport local (of_nat (p + unat offset)))
     else Exit 1)"
proof -
  let ?w = "ucast (perf_sockaddr_port local) :: u32"
  have p16: "p < 65536" using unsigned_less [of "perf_sockaddr_port local", where ?'a = nat] p by simp
  have w: "unat ?w = p" using p p16 by (simp add: unsigned_ucast_eq take_bit_nat_eq_self)
  have sum: "unat (?w + offset) = p + unat offset"
    using w off p16 by (subst unat_add_lem [THEN iffD1]) simp_all
  then have "sint (?w + offset) = int (p + unat offset)"
    using off p16 by (subst sint_small) simp_all
  then have "sint (?w + offset) \<ge> 0xFFFF \<longleftrightarrow> \<not> p + unat offset < 65535" by linarith
  moreover have "(ucast (?w + offset) :: u16) = of_nat (p + unat offset)"
    unfolding sum [symmetric] by simp
  moreover have "?w = 0 \<longleftrightarrow> p = 0" using w by (metis unat_eq_zero)
  ultimately show ?thesis using assms(1-3) by (auto simp: perf_net_opensocket_def Let_def)
qed

end
