(* ===== verification/Uri.thy ===== *)
theory Uri
  imports Prelude
begin

text \<open>
  The URI of a DNS-over-HTTPS server: \<^verbatim>\<open>parse_uri\<close> of \<^verbatim>\<open>ext/parse_uri.c\<close>, with offsets
  into the string as in the code.  The pointers and lengths of the result are the strings they
  denote.
\<close>

section \<open>The code\<close>

record URI =
  uri_host :: bytes
  uri_path :: bytes
  uri_hostport :: bytes
  uri_port :: u16

text \<open>\<^verbatim>\<open>for (i = offset; i < len; ++i)\<close> until a delimiter; the value of \<^verbatim>\<open>i\<close> afterwards.\<close>

definition scan_to :: "bytes \<Rightarrow> bytes \<Rightarrow> nat \<Rightarrow> nat" where
  "scan_to delims uri offset = offset + length (takeWhile (\<lambda>c. c \<notin> set delims) (drop offset uri))"

definition part :: "bytes \<Rightarrow> nat \<Rightarrow> nat \<Rightarrow> bytes" where
  "part uri offset n = take n (drop offset uri)"

fun port_loop :: "bytes \<Rightarrow> nat \<Rightarrow> nat \<Rightarrow> (nat \<times> nat) option" where
  "port_loop [] i port = Some (i, port)"
| "port_loop (c # cs) i port =
    (if c \<in> set (cstr ''/?#'') then Some (i, port)
     else if 48 \<le> c \<and> c \<le> 57 then
       (let port = port * 10 + (unat c - 48) in
        if port > 65535 then None else port_loop cs (i + 1) port)
     else None)"

text \<open>The host: its length and the offset behind it.\<close>

definition parse_host :: "bytes \<Rightarrow> nat \<Rightarrow> nat \<times> nat" where
  "parse_host uri offset =
    (if uri ! offset = ch CHR ''['' then
       (let offset = offset + 1; i = scan_to (cstr '']'') uri offset
        in if i < length uri then (i - offset, i + 1) else (0, offset))
     else
       (let i = scan_to (cstr '':/?#'') uri offset in (i - offset, i)))"

definition parse_port :: "bytes \<Rightarrow> nat \<Rightarrow> (nat \<times> nat) option" where
  "parse_port uri offset =
    (if offset < length uri \<and> uri ! offset = ch CHR '':'' then
       (case port_loop (drop (offset + 1) uri) (offset + 1) 0 of
          None \<Rightarrow> None
        | Some (i, port) \<Rightarrow> if port = 0 then None else Some (i, port))
     else Some (offset, 443))"

definition parse_uri :: "bytes \<Rightarrow> URI option" where
  "parse_uri uri =
    (if length uri < 9 \<or> take 8 uri \<noteq> cstr ''https://'' then None
     else
       let ipv6addr = (if uri ! 8 = ch CHR ''['' then 1 else 0);
           host = 8 + ipv6addr;
           (hostlen, offset) = parse_host uri 8
       in if hostlen = 0 then None
          else case parse_port uri offset of
            None \<Rightarrow> None
          | Some (offset, port) \<Rightarrow>
              let hostportlen = offset + ipv6addr - host;
                  i = scan_to (cstr ''#'') uri offset
              in Some \<lparr>uri_host = part uri host hostlen,
                   uri_path = (if i - offset = 0 then cstr ''/'' else part uri offset (i - offset)),
                   uri_hostport = part uri 8 hostportlen,
                   uri_port = of_nat port\<rparr>)"

section \<open>Printing and parsing\<close>

text \<open>A host name, or an IPv6 address in brackets.\<close>

datatype host = Name bytes | Literal bytes

fun host_text :: "host \<Rightarrow> bytes" where
  "host_text (Name h) = h"
| "host_text (Literal h) = ch CHR ''['' # h @ [ch CHR '']'']"

fun host_name :: "host \<Rightarrow> bytes" where
  "host_name (Name h) = h"
| "host_name (Literal h) = h"

fun host_ok :: "host \<Rightarrow> bool" where
  "host_ok (Name h) \<longleftrightarrow> h \<noteq> [] \<and> hd h \<noteq> ch CHR ''['' \<and> set h \<inter> set (cstr '':/?#'') = {}"
| "host_ok (Literal h) \<longleftrightarrow> h \<noteq> [] \<and> ch CHR '']'' \<notin> set h"

text \<open>The port, if given, as its digits; a path or a query; a fragment.\<close>

definition port_text :: "bytes option \<Rightarrow> bytes" where
  "port_text p = (case p of None \<Rightarrow> [] | Some ds \<Rightarrow> ch CHR '':'' # ds)"

definition port_number :: "bytes option \<Rightarrow> nat" where
  "port_number p = (case p of None \<Rightarrow> 443 | Some ds \<Rightarrow> digits_val 10 ds)"

definition port_ok :: "bytes option \<Rightarrow> bool" where
  "port_ok p \<longleftrightarrow> (case p of None \<Rightarrow> True | Some ds \<Rightarrow> \<forall>d \<in> set ds. isdigit d)"

definition path_ok :: "bytes \<Rightarrow> bool" where
  "path_ok path \<longleftrightarrow> ch CHR ''#'' \<notin> set path \<and> (path = [] \<or> hd path \<in> set (cstr ''/?''))"

definition fragment_ok :: "bytes \<Rightarrow> bool" where
  "fragment_ok f \<longleftrightarrow> f = [] \<or> hd f = ch CHR ''#''"

definition uri_text :: "host \<Rightarrow> bytes option \<Rightarrow> bytes \<Rightarrow> bytes \<Rightarrow> bytes" where
  "uri_text h p path f = cstr ''https://'' @ host_text h @ port_text p @ path @ f"

lemma scan_to_found:
  assumes "offset = length pre" "set w \<inter> set delims = {}" "rest = [] \<or> hd rest \<in> set delims"
  shows "scan_to delims (pre @ w @ rest) offset = offset + length w"
proof -
  have "takeWhile (\<lambda>c. c \<notin> set delims) rest = []" using assms(3) by (cases rest) auto
  then show ?thesis using assms(1,2) by (simp add: scan_to_def takeWhile_append2 disjoint_iff)
qed

lemma part_middle: "i = length a \<Longrightarrow> n = length b \<Longrightarrow> part (a @ b @ c) i n = b"
  by (simp add: part_def)

lemma digits_val_Cons:
  "foldl (\<lambda>acc d. acc * 10 + digit_val d) n ds = n * 10 ^ length ds + digits_val 10 ds"
  unfolding digits_val_def by (induction ds rule: rev_induct) (simp_all add: algebra_simps)

lemma isdigit_not_delim: "isdigit d \<Longrightarrow> d \<notin> set (cstr '':/?#'')"
proof -
  have "\<forall>d \<in> set (cstr '':/?#''). \<not> isdigit d" by code_simp
  then show "isdigit d \<Longrightarrow> d \<notin> set (cstr '':/?#'')" by blast
qed

lemma port_loop_digits:
  assumes "\<forall>d \<in> set ds. isdigit d" "rest = [] \<or> hd rest \<in> set (cstr ''/?#'')" "port \<le> 65535"
  shows "port_loop (ds @ rest) i port =
    (let n = foldl (\<lambda>acc d. acc * 10 + digit_val d) port ds in
     if n \<le> 65535 then Some (i + length ds, n) else None)"
  using assms
proof (induction ds arbitrary: i port)
  case Nil
  then show ?case by (cases rest) auto
next
  case (Cons d ds)
  have d: "d \<notin> set (cstr ''/?#'')" "48 \<le> d" "d \<le> 57" "digit_val d = unat d - 48"
    using isdigit_not_delim [of d] Cons.prems(1) by (auto simp: isdigit_def digit_val_def cstr_def)
  define n where "n = port * 10 + (unat d - 48)"
  have step: "port_loop ((d # ds) @ rest) i port = (if n > 65535 then None else port_loop (ds @ rest) (i + 1) n)"
    using d by (simp add: n_def Let_def)
  show ?case
  proof (cases "n > 65535")
    case True
    have "n * 1 \<le> n * 10 ^ length ds" by (intro mult_le_mono2) simp
    moreover have "foldl (\<lambda>acc d. acc * 10 + digit_val d) port (d # ds) = n * 10 ^ length ds + digits_val 10 ds"
      using digits_val_Cons [of n ds] d(4) by (simp add: n_def)
    ultimately have "foldl (\<lambda>acc d. acc * 10 + digit_val d) port (d # ds) > 65535"
      using True by linarith
    then show ?thesis using True step by (simp add: Let_def)
  next
    case False
    then show ?thesis using step Cons.IH [of n "i + 1"] Cons.prems d by (simp add: n_def Let_def)
  qed
qed

lemma parse_host_text:
  assumes h: "host_ok h" and off: "offset = length pre"
    and rest: "rest = [] \<or> hd rest \<in> set (cstr '':/?#'')"
  shows "parse_host (pre @ host_text h @ rest) offset = (length (host_name h), offset + length (host_text h))"
proof (cases h)
  case (Name n)
  then have "n \<noteq> []" "hd n \<noteq> ch CHR ''[''" "set n \<inter> set (cstr '':/?#'') = {}" using h by simp_all
  moreover have "(pre @ n @ rest) ! offset = hd n" using off \<open>n \<noteq> []\<close> by (simp add: nth_append hd_conv_nth)
  moreover have "scan_to (cstr '':/?#'') (pre @ n @ rest) offset = offset + length n"
    using scan_to_found [OF off _ rest, of n] \<open>set n \<inter> _ = {}\<close> .
  ultimately show ?thesis using Name by (simp add: parse_host_def Let_def)
next
  case (Literal n)
  have "scan_to (cstr '']'') ((pre @ [ch CHR ''['']) @ n @ (ch CHR '']'' # rest)) (offset + 1) = offset + 1 + length n"
    using h off Literal by (intro scan_to_found) (auto simp: cstr_def)
  then show ?thesis using Literal off by (simp add: parse_host_def Let_def nth_append)
qed

lemma parse_port_text:
  assumes p: "port_ok p" and off: "offset = length pre"
    and rest: "rest = [] \<or> hd rest \<in> set (cstr ''/?#'')"
  shows "parse_port (pre @ port_text p @ rest) offset =
    (if 0 < port_number p \<and> port_number p \<le> 65535 then Some (offset + length (port_text p), port_number p) else None)"
proof (cases p)
  case None
  have "rest \<noteq> [] \<Longrightarrow> hd rest \<noteq> ch CHR '':''" using rest by (auto simp: cstr_def)
  then show ?thesis using None off
    by (cases rest) (auto simp: parse_port_def port_text_def port_number_def nth_append)
next
  case (Some ds)
  then show ?thesis
    using port_loop_digits [of ds rest 0 "offset + 1"] p rest off
    by (auto simp: parse_port_def port_text_def port_number_def port_ok_def Let_def digits_val_def [symmetric] nth_append)
qed

text \<open>
  C29.  The parts of an \<^verbatim>\<open>https\<close> URI are found again by the parser: host (without the brackets of
  an IPv6 address), port (443 if absent), and path with query but without fragment (a slash if empty);
  a port outside 1 to 65535 is rejected.
\<close>

theorem parse_uri_roundtrip:
  assumes "host_ok h" "port_ok p" "path_ok path" "fragment_ok f"
  shows "parse_uri (uri_text h p path f) =
    (if 0 < port_number p \<and> port_number p \<le> 65535
     then Some \<lparr>uri_host = host_name h, uri_path = (if path = [] then cstr ''/'' else path),
       uri_hostport = host_text h @ port_text p, uri_port = of_nat (port_number p)\<rparr>
     else None)"
proof -
  let ?pre = "cstr ''https://''" and ?uri = "uri_text h p path f"
  let ?n = "8 + length (host_text h)"
  have pre: "length ?pre = 8" by simp
  have ne: "host_text h \<noteq> []" "host_name h \<noteq> []" using assms(1) by (cases h; simp)+
  have long: "\<not> length ?uri < 9" "take 8 ?uri = ?pre"
    using ne(1) pre by (auto simp: uri_text_def Suc_le_eq)
  have tail: "path @ f = [] \<or> hd (path @ f) \<in> set (cstr ''/?#'')"
    using assms(3,4) by (auto simp: path_ok_def fragment_ok_def cstr_def hd_append)
  then have tail2: "port_text p @ path @ f = [] \<or> hd (port_text p @ path @ f) \<in> set (cstr '':/?#'')"
    by (auto simp: port_text_def cstr_def split: option.splits)
  have host: "parse_host ?uri 8 = (length (host_name h), ?n)"
    using parse_host_text [OF assms(1) pre [symmetric] tail2] by (simp add: uri_text_def)
  have port: "parse_port ?uri ?n =
      (if 0 < port_number p \<and> port_number p \<le> 65535 then Some (?n + length (port_text p), port_number p) else None)"
    using parse_port_text [OF assms(2) _ tail, of ?n "?pre @ host_text h"] by (simp add: uri_text_def)
  let ?m = "?n + length (port_text p)"
  have path: "scan_to (cstr ''#'') ?uri ?m = ?m + length path"
    using scan_to_found [of ?m "?pre @ host_text h @ port_text p" path "cstr ''#''" f] assms(3,4)
    by (auto simp: uri_text_def path_ok_def fragment_ok_def cstr_def)
  have lit: "?uri ! 8 = ch CHR ''['' \<longleftrightarrow> (\<exists>x. h = Literal x)"
    using assms(1) by (cases h) (auto simp: uri_text_def nth_append hd_conv_nth)
  define six :: nat where "six = (if ?uri ! 8 = ch CHR ''['' then 1 else 0)"
  have s1: "part ?uri ?m (length path) = path"
    using part_middle [of ?m "?pre @ host_text h @ port_text p" "length path" path f] by (simp add: uri_text_def add.assoc)
  have s2: "part ?uri 8 (?m + six - (8 + six)) = host_text h @ port_text p"
    using part_middle [of 8 ?pre "?m + six - (8 + six)" "host_text h @ port_text p" "path @ f"] by (simp add: uri_text_def)
  have s3: "part ?uri (8 + six) (length (host_name h)) = host_name h"
  proof (cases h)
    case (Name x)
    then show ?thesis using part_middle [of 8 ?pre "length x" x "port_text p @ path @ f"] lit by (simp add: uri_text_def six_def)
  next
    case (Literal x)
    then show ?thesis using part_middle [of 9 "?pre @ [ch CHR ''['']" "length x" x "ch CHR '']'' # port_text p @ path @ f"] lit
      by (simp add: uri_text_def six_def)
  qed
  show ?thesis
    unfolding parse_uri_def Let_def six_def [symmetric] host
    using long ne(2) s1 s2 s3 by (simp add: port path split_beta)
qed

theorem parse_uri_roundtrip_witness:
  "parse_uri (cstr ''https://[::1]:8443/dns-query?x#top'') =
    Some \<lparr>uri_host = cstr ''::1'', uri_path = cstr ''/dns-query?x'', uri_hostport = cstr ''[::1]:8443'', uri_port = 8443\<rparr>"
proof -
  let ?p = "[56, 52, 52, 51]"
  have t: "uri_text (Literal (cstr ''::1'')) (Some ?p) (cstr ''/dns-query?x'') (cstr ''#top'') =
      cstr ''https://[::1]:8443/dns-query?x#top''" by code_simp
  have ok: "host_ok (Literal (cstr ''::1''))" "port_ok (Some ?p)" "path_ok (cstr ''/dns-query?x'')" "fragment_ok (cstr ''#top'')"
    by code_simp+
  have "digit_val 56 = 8" "digit_val 52 = 4" "digit_val 51 = 3" by code_simp+
  then have n: "port_number (Some ?p) = 8443" by (simp add: port_number_def digits_val_def)
  have h: "host_text (Literal (cstr ''::1'')) @ port_text (Some ?p) = cstr ''[::1]:8443''" "cstr ''/dns-query?x'' \<noteq> []"
    by code_simp+
  show ?thesis using parse_uri_roundtrip [OF ok] unfolding t n h(1) using h(2) by simp
qed

end
