(* ===== verification/Setup.thy ===== *)
theory Setup
  imports Threads Edns Tsig Datafile Opt Net Uri
begin

text \<open>
  The configuration of \<^verbatim>\<open>dnsperf.c\<close>: the table of its options, \<^verbatim>\<open>setup\<close> from the command
  line to the checked configuration, and the times \<^verbatim>\<open>main\<close> computes.  What the operating system
  and the libraries answer is the record \<open>environment\<close>.
\<close>

section \<open>The configuration\<close>

record config_t =
  cfg_family :: address_family
  cfg_clients :: u32
  cfg_threads :: u32
  cfg_maxruns :: u32
  cfg_timelimit :: u64
  cfg_server_addr :: perf_sockaddr
  cfg_local_addr :: perf_sockaddr
  cfg_timeout :: u64
  cfg_bufsize :: u32
  cfg_edns :: bool
  cfg_dnssec :: bool
  cfg_tsigkey :: "bytes option"
  cfg_edns_option :: "perf_ednsoption option"
  cfg_max_outstanding :: u32
  cfg_max_qps :: u32
  cfg_stats_interval :: u64
  cfg_verbose_interval_stats :: bool
  cfg_updates :: bool
  cfg_binary_input :: bool
  cfg_input_format :: perf_input_format
  cfg_verbose :: bool
  cfg_mode :: perf_net_mode
  cfg_suppress :: perf_suppress
  cfg_num_queries_per_conn :: u64
  cfg_latency_histogram :: bool
  cfg_qps_threshold_wait :: int

text \<open>The variables the options point to.\<close>

datatype dnsperf_var =
  V_family | V_mode | V_server_name | V_server_port | V_local_name | V_local_port | V_filename |
  V_clients | V_threads | V_maxruns | V_timelimit | V_bufsize | V_timeout | V_edns | V_edns_option |
  V_dnssec | V_tsigkey | V_max_outstanding | V_max_qps | V_stats_interval | V_updates |
  V_binary_input | V_verbose | V_doh_uri | V_doh_method | V_suppress | V_num_queries_per_conn |
  V_verbose_interval_stats | V_latency_histogram | V_qps_threshold_wait | V_tls_sni | V_log_stdout

datatype 'v registration =
    Short char perf_opttype "string option" string "string option" 'v
  | Long string perf_opttype "string option" string "string option" 'v

fun register :: "'v registration \<Rightarrow> 'v options \<Rightarrow> 'v options outcome" where
  "register (Short c ty dsc help defval v) os = perf_opt_add c ty dsc help defval (Some v) os"
| "register (Long name ty dsc help defval v) os = perf_long_opt_add (cstr name) ty dsc help defval v os"

fun register_all :: "'v registration list \<Rightarrow> 'v options \<Rightarrow> 'v options outcome" where
  "register_all [] os = Ret os"
| "register_all (r # rs) os = obind (register r os) (register_all rs)"

definition no_options :: "'v options" where
  "no_options = \<lparr>opts = [], longopts = [], optstr = []\<rparr>"

definition DEFAULT_DOH_URI :: string where
  "DEFAULT_DOH_URI = ''https://localhost/dns-query''"

definition dnsperf_options :: "dnsperf_var registration list" where
  "dnsperf_options =
    [Short (CHR ''f'') perf_opt_string (Some ''family'') ''address family of DNS transport, inet or inet6'' (Some ''any'') V_family,
     Short (CHR ''m'') perf_opt_string (Some ''mode'') ''set transport mode: udp, tcp, dot or doh'' (Some ''udp'') V_mode,
     Short (CHR ''s'') perf_opt_string (Some ''server_addr'') ''the server to query'' (Some ''127.0.0.1'') V_server_name,
     Short (CHR ''p'') perf_opt_port (Some ''port'') ''the port on which to query the server'' (Some ''udp/tcp 53, DoT 853 or DoH 443'') V_server_port,
     Short (CHR ''a'') perf_opt_string (Some ''local_addr'') ''the local address from which to send queries'' None V_local_name,
     Short (CHR ''x'') perf_opt_port (Some ''local_port'') ''the local port from which to send queries'' (Some ''0'') V_local_port,
     Short (CHR ''d'') perf_opt_string (Some ''datafile'') ''the input data file'' (Some ''stdin'') V_filename,
     Short (CHR ''c'') perf_opt_uint (Some ''clients'') ''the number of clients to act as'' None V_clients,
     Short (CHR ''T'') perf_opt_uint (Some ''threads'') ''the number of threads to run'' None V_threads,
     Short (CHR ''n'') perf_opt_uint (Some ''maxruns'') ''run through input at most N times'' None V_maxruns,
     Short (CHR ''l'') perf_opt_timeval (Some ''timelimit'') ''run for at most this many seconds'' None V_timelimit,
     Short (CHR ''b'') perf_opt_uint (Some ''buffer_size'') ''socket send/receive buffer size in kilobytes'' None V_bufsize,
     Short (CHR ''t'') perf_opt_timeval (Some ''timeout'') ''the timeout for query completion in seconds'' (Some ''5'') V_timeout,
     Short (CHR ''e'') perf_opt_boolean None ''enable EDNS 0'' None V_edns,
     Short (CHR ''E'') perf_opt_string (Some ''code:value'') ''send EDNS option'' None V_edns_option,
     Short (CHR ''D'') perf_opt_boolean None ''set the DNSSEC OK bit (implies EDNS)'' None V_dnssec,
     Short (CHR ''y'') perf_opt_string (Some ''[alg:]name:secret'') ''the TSIG algorithm, name and secret (base64)'' None V_tsigkey,
     Short (CHR ''q'') perf_opt_uint (Some ''num_queries'') ''the maximum number of queries outstanding'' (Some ''100'') V_max_outstanding,
     Short (CHR ''Q'') perf_opt_uint (Some ''max_qps'') ''limit the number of queries per second'' None V_max_qps,
     Short (CHR ''S'') perf_opt_timeval (Some ''stats_interval'') ''print qps statistics every N seconds'' None V_stats_interval,
     Short (CHR ''u'') perf_opt_boolean None ''send dynamic updates instead of queries'' None V_updates,
     Short (CHR ''B'') perf_opt_boolean None ''read input file as TCP-stream binary format'' None V_binary_input,
     Short (CHR ''v'') perf_opt_boolean None ''verbose: report each query and additional information to stdout'' None V_verbose,
     Long ''doh-uri'' perf_opt_string (Some ''doh_uri'') ''the URI to use for DNS-over-HTTPS'' (Some DEFAULT_DOH_URI) V_doh_uri,
     Long ''doh-method'' perf_opt_string (Some ''doh_method'') ''the HTTP method to use for DNS-over-HTTPS: GET or POST'' (Some ''GET'') V_doh_method,
     Long ''suppress'' perf_opt_string (Some ''message[,message,...]'') ''suppress messages/warnings, see man-page for list of message types'' None V_suppress,
     Long ''num-queries-per-conn'' perf_opt_uint (Some ''queries'') ''Number of queries to send per connection'' None V_num_queries_per_conn,
     Long ''verbose-interval-stats'' perf_opt_boolean None ''print detailed statistics for each stats_interval'' None V_verbose_interval_stats,
     Long ''latency-histogram'' perf_opt_boolean None ''collect and print detailed latency histograms'' None V_latency_histogram,
     Long ''qps-threshold-wait'' perf_opt_zpint (Some ''microseconds'') ''minimum threshold for enabling wait in rate limiting'' (Some ''4294967295'') V_qps_threshold_wait,
     Long ''tls-sni'' perf_opt_string (Some ''tls_sni'') ''the TLS SNI to use for TLS connections'' None V_tls_sni,
     Short (CHR ''W'') perf_opt_boolean None ''log warnings and errors to stdout instead of stderr'' None V_log_stdout]"

section \<open>The environment\<close>

record ('c, 'd) environment =
  env_floats :: "'d floats"
  env_getopt :: "string \<Rightarrow> (char \<times> bytes) list \<times> bool"
  env_resolve :: "bytes \<Rightarrow> (address_family \<times> bytes) list option"
  env_pton :: "address_family \<Rightarrow> bytes \<Rightarrow> bytes option"
  env_open :: "bytes option \<Rightarrow> nat option option"
  env_ssl :: "'c openssl"
  env_ldns :: bool
  env_clock :: "nat \<Rightarrow> (int \<times> int) option"
  env_nanosleep :: "nat \<Rightarrow> bool"

text \<open>
  \<^verbatim>\<open>measure_nanosleep\<close>: the two readings of the clock and the hundred calls may fail (\<open>None\<close>).
  Division truncates towards zero, and the result is converted to \<^verbatim>\<open>int\<close>.
\<close>

definition trunc_div :: "int \<Rightarrow> int \<Rightarrow> int" where
  "trunc_div a b = (if a < 0 then - (- a div b) else a div b)"

definition measure_nanosleep :: "('c, 'd) environment \<Rightarrow> int option" where
  "measure_nanosleep env =
    (case env_clock env 0 of
       None \<Rightarrow> None
     | Some (s_sec, s_nsec) \<Rightarrow>
         if \<not> (\<forall>i \<in> set [0..<100]. env_nanosleep env i) then None
         else case env_clock env 1 of
           None \<Rightarrow> None
         | Some (e_sec, e_nsec) \<Rightarrow>
             let w = signed_take_bit 31
               (trunc_div (trunc_div ((e_sec - s_sec) * 1000000000 + e_nsec - s_nsec) 100 * 3) 1000)
             in Some (if w < 0 then 0 else w))"

definition threshold_wait :: "('c, 'd) environment \<Rightarrow> int \<Rightarrow> int outcome" where
  "threshold_wait env wait =
    (if wait < 0 then (case measure_nanosleep env of None \<Rightarrow> Exit 1 | Some w \<Rightarrow> Ret w) else Ret wait)"

section \<open>Reading the variables\<close>

definition string_of :: "('v, 'd) optvals \<Rightarrow> 'v \<Rightarrow> bytes option" where
  "string_of vs x = (case vs x of Some (OString s) \<Rightarrow> Some s | _ \<Rightarrow> None)"

definition bool_of :: "('v, 'd) optvals \<Rightarrow> 'v \<Rightarrow> bool" where
  "bool_of vs x = (case vs x of Some (OBool b) \<Rightarrow> b | _ \<Rightarrow> False)"

definition uint_of :: "('v, 'd) optvals \<Rightarrow> 'v \<Rightarrow> u32 \<Rightarrow> u32" where
  "uint_of vs x d = (case vs x of Some (OUint v) \<Rightarrow> v | _ \<Rightarrow> d)"

definition time_of :: "('v, 'd) optvals \<Rightarrow> 'v \<Rightarrow> u64 \<Rightarrow> u64" where
  "time_of vs x d = (case vs x of Some (OTime v) \<Rightarrow> v | _ \<Rightarrow> d)"

definition port_of :: "('v, 'd) optvals \<Rightarrow> 'v \<Rightarrow> u16" where
  "port_of vs x = (case vs x of Some (OPort v) \<Rightarrow> v | _ \<Rightarrow> 0)"

section \<open>Setup\<close>

datatype perf_doh_method = doh_method_get | doh_method_post

definition perf_net_doh_parse_uri :: "bytes \<Rightarrow> URI outcome" where
  "perf_net_doh_parse_uri uri = (case parse_uri uri of Some u \<Rightarrow> Ret u | None \<Rightarrow> Exit 1)"

definition perf_net_doh_parse_method :: "bytes \<Rightarrow> perf_doh_method outcome" where
  "perf_net_doh_parse_method method =
    (if method = cstr ''GET'' then Ret doh_method_get
     else if method = cstr ''POST'' then Ret doh_method_post
     else Exit 1)"

text \<open>The static variables of \<^verbatim>\<open>net_doh.c\<close> and \<^verbatim>\<open>net.c\<close> that \<^verbatim>\<open>setup\<close> sets.\<close>

record net_globals =
  doh_uri :: URI
  doh_method :: perf_doh_method
  doh_max_concurr :: nat
  perf_net_tls_sni :: "bytes option"

definition default_port :: "perf_net_mode \<Rightarrow> u16" where
  "default_port mode = (case mode of sock_doh \<Rightarrow> 443 | sock_dot \<Rightarrow> 853 | _ \<Rightarrow> 53)"

definition server_port :: "perf_net_mode \<Rightarrow> u16 \<Rightarrow> u16" where
  "server_port mode port = (if port = 0 then default_port mode else port)"

definition input_format_of :: "bool \<Rightarrow> bool \<Rightarrow> perf_input_format" where
  "input_format_of updates binary_input =
    (if updates then input_format_text_update
     else if binary_input then input_format_tcp_wire_format
     else input_format_text_query)"

definition limit_runs :: "u32 \<Rightarrow> u64 \<Rightarrow> u32" where
  "limit_runs maxruns timelimit = (if maxruns = 0 \<and> timelimit = 0 then 1 else maxruns)"

text \<open>The number of threads: at most the limit of queries per second, at most the number of clients.\<close>

definition limit_threads :: "u32 \<Rightarrow> u32 \<Rightarrow> u32 \<Rightarrow> u32" where
  "limit_threads threads qps clients =
    (let threads = (if qps > 0 \<and> threads > qps then qps else threads)
     in if threads > clients then clients else threads)"

definition configure ::
  "('c, 'd) environment \<Rightarrow> (dnsperf_var, 'd) optvals \<Rightarrow> (config_t \<times> perf_datafile \<times> net_globals) outcome" where
  "configure env vs =
    (obind (perf_opt_parse_suppress (string_of vs V_suppress)) (\<lambda>suppress.
     obind (case string_of vs V_mode of None \<Rightarrow> Ret sock_udp | Some m \<Rightarrow> perf_net_parsemode m) (\<lambda>mode.
     obind (perf_net_doh_parse_uri (case string_of vs V_doh_uri of None \<Rightarrow> cstr DEFAULT_DOH_URI | Some u \<Rightarrow> u)) (\<lambda>uri.
     obind (perf_net_doh_parse_method (case string_of vs V_doh_method of None \<Rightarrow> cstr ''GET'' | Some m \<Rightarrow> m)) (\<lambda>method.
     let max_outstanding = uint_of vs V_max_outstanding 100 in
     obind (case string_of vs V_family of None \<Rightarrow> Ret AF_UNSPEC | Some f \<Rightarrow> perf_net_parsefamily (Some f)) (\<lambda>family.
     obind (perf_net_parseserver (env_resolve env) family
       (case string_of vs V_server_name of None \<Rightarrow> cstr ''127.0.0.1'' | Some s \<Rightarrow> s)
       (server_port mode (port_of vs V_server_port))) (\<lambda>server.
     obind (perf_net_parselocal (env_pton env) (sa_family server) (string_of vs V_local_name)
       (port_of vs V_local_port)) (\<lambda>local.
     if bool_of vs V_binary_input \<and> (bool_of vs V_edns \<or> bool_of vs V_dnssec \<or>
          string_of vs V_tsigkey \<noteq> None \<or> bool_of vs V_updates) then Exit 1
     else
     let format = input_format_of (bool_of vs V_updates) (bool_of vs V_binary_input) in
     obind (perf_datafile_open (env_open env (string_of vs V_filename)) format) (\<lambda>input.
     let timelimit = time_of vs V_timelimit 0;
         maxruns = limit_runs (uint_of vs V_maxruns 0) timelimit;
         input = perf_datafile_setmaxruns input maxruns;
         edns = (bool_of vs V_edns \<or> bool_of vs V_dnssec \<or> string_of vs V_edns_option \<noteq> None)
     in
     obind (case string_of vs V_tsigkey of
              None \<Rightarrow> Ret () | Some k \<Rightarrow> obind (perf_tsig_parsekey (env_ssl env) k) (\<lambda>_. Ret ())) (\<lambda>_.
     obind (case string_of vs V_edns_option of
              None \<Rightarrow> Ret None | Some a \<Rightarrow> obind (perf_edns_parseoption a) (\<lambda>e. Ret (Some e))) (\<lambda>edns_option.
     let clients = uint_of vs V_clients 1;
         max_qps = uint_of vs V_max_qps 0;
         threads = limit_threads (uint_of vs V_threads 1) max_qps clients
     in
     if bool_of vs V_updates \<and> \<not> env_ldns env then Exit 1
     else
     obind (threshold_wait env (case vs V_qps_threshold_wait of Some (OUint v) \<Rightarrow> sint v | _ \<Rightarrow> - 1)) (\<lambda>wait.
     Ret (\<lparr>cfg_family = family, cfg_clients = clients, cfg_threads = threads, cfg_maxruns = maxruns,
            cfg_timelimit = timelimit, cfg_server_addr = server, cfg_local_addr = local,
            cfg_timeout = time_of vs V_timeout (5 * MILLION), cfg_bufsize = uint_of vs V_bufsize 0,
            cfg_edns = edns, cfg_dnssec = bool_of vs V_dnssec, cfg_tsigkey = string_of vs V_tsigkey,
            cfg_edns_option = edns_option, cfg_max_outstanding = max_outstanding, cfg_max_qps = max_qps,
            cfg_stats_interval = time_of vs V_stats_interval 0,
            cfg_verbose_interval_stats = bool_of vs V_verbose_interval_stats,
            cfg_updates = bool_of vs V_updates, cfg_binary_input = bool_of vs V_binary_input,
            cfg_input_format = format, cfg_verbose = bool_of vs V_verbose, cfg_mode = mode,
            cfg_suppress = suppress, cfg_num_queries_per_conn = ucast (uint_of vs V_num_queries_per_conn 0),
            cfg_latency_histogram = bool_of vs V_latency_histogram, cfg_qps_threshold_wait = wait\<rparr>,
          input,
          \<lparr>doh_uri = uri, doh_method = method, doh_max_concurr = unat max_outstanding,
           perf_net_tls_sni = string_of vs V_tls_sni\<rparr>)))))))))))))"

definition setup_dnsperf :: "('c, 'd) environment \<Rightarrow> (config_t \<times> perf_datafile \<times> net_globals) outcome" where
  "setup_dnsperf env =
    obind (register_all dnsperf_options no_options) (\<lambda>os.
    obind (perf_opt_parse (env_floats env) (env_getopt env) os (\<lambda>_. None)) (\<lambda>vs.
    configure env vs))"

section \<open>Start and end of a run\<close>

record times_t =
  start_time :: u64
  end_time :: u64
  stop_time :: u64
  stop_sec :: u64
  stop_nsec :: u64

definition start_times :: "u64 \<Rightarrow> u64 \<Rightarrow> times_t" where
  "start_times timelimit now =
    (let stop = (if timelimit > 0 then now + timelimit else - 1)
     in \<lparr>start_time = now, end_time = 0, stop_time = stop,
         stop_sec = stop div MILLION, stop_nsec = (stop mod MILLION) * 1000\<rparr>)"

definition threadinfo_cleanup :: "bool \<Rightarrow> threadinfo \<Rightarrow> times_t \<Rightarrow> (threadinfo \<times> times_t) outcome option" where
  "threadinfo_cleanup interrupted t tm =
    (case (if interrupted then cancel_queries t else Some (Ret t)) of
       None \<Rightarrow> None
     | Some m \<Rightarrow> Some (obind m (\<lambda>t.
         Ret (t, if last_recv t > end_time tm then tm\<lparr>end_time := last_recv t\<rparr> else tm))))"

datatype final_status = Interruption | End_of_file | Time_limit

definition print_final_status :: "bool \<Rightarrow> config_t \<Rightarrow> perf_datafile \<Rightarrow> final_status" where
  "print_final_status interrupted config input =
    (if interrupted then Interruption
     else if cfg_maxruns config > 0 \<and> perf_datafile_nruns input = cfg_maxruns config then End_of_file
     else Time_limit)"

section \<open>What setup establishes\<close>

text \<open>The types of the options of a variable.\<close>

fun reg_type :: "'v \<Rightarrow> 'v registration \<Rightarrow> perf_opttype set" where
  "reg_type x (Short c ty d h dv v) = (if v = x then {ty} else {})"
| "reg_type x (Long n ty d h dv v) = (if v = x then {ty} else {})"

lemma register_types:
  "register r os = Ret os' \<Longrightarrow> var_types os' x = var_types os x \<union> reg_type x r"
  by (cases r) (auto simp: opt_add_types long_opt_add_types)

lemma register_all_types:
  "register_all rs os = Ret os' \<Longrightarrow> var_types os' x = var_types os x \<union> \<Union> (reg_type x ` set rs)"
proof (induction rs arbitrary: os)
  case (Cons r rs)
  then obtain os1 where os1: "register r os = Ret os1" "register_all rs os1 = Ret os'" by auto
  show ?case using Cons.IH [OF os1(2)] register_types [OF os1(1), of x] by (simp add: Un_assoc)
qed simp

lemma dnsperf_uint_types:
  assumes "register_all dnsperf_options no_options = Ret os"
  shows "var_types os V_clients = {perf_opt_uint}" "var_types os V_threads = {perf_opt_uint}"
    "var_types os V_max_outstanding = {perf_opt_uint}" "var_types os V_max_qps = {perf_opt_uint}"
  using register_all_types [OF assms] by (simp_all add: no_options_def var_types_def dnsperf_options_def)

lemma uint_of_pos:
  assumes "well_typed os vs" "var_types os x = {perf_opt_uint}" "1 \<le> d"
  shows "1 \<le> uint_of vs x d"
  using assms by (auto simp: well_typed_def uint_of_def split: option.splits optval.splits) fastforce

text \<open>The buffer of a parsed option is well-formed.\<close>

definition same_room :: "perf_buffer \<Rightarrow> perf_buffer \<Rightarrow> bool" where
  "same_room b b' \<longleftrightarrow> buf_wf b' \<and> buf_length b' = buf_length b \<and> length (buf_base b') = length (buf_base b)"

lemma bput_room: "buf_wf b \<Longrightarrow> fits b (length bs) \<Longrightarrow> same_room b (bput b bs)"
  by (simp add: same_room_def wf_intros) (simp add: buf_wf_def fits_def)

lemma parse_hex_room: "parse_hex val b = Ret b' \<Longrightarrow> buf_wf b \<Longrightarrow> same_room b b'"
proof (induction val b rule: parse_hex.induct)
  case (1 b)
  then show ?case by (simp add: same_room_def)
next
  case (3 x y val b)
  obtain u e rg where u: "strtoul 16 [x, y] = (u, e, rg)" by (metis prod_cases3)
  then have p: "e = []" "u \<noteq> ULONG_MAX" "fits b 1" "parse_hex val (bput b [of_nat u]) = Ret b'"
    using 3(2,3) by (auto simp: put_wf split: if_splits)
  have "same_room b (bput b [of_nat u])" using bput_room [of b "[of_nat u]"] 3(3) p(3) by simp
  moreover have "same_room (bput b [of_nat u]) b'"
    using 3(1) [OF u [symmetric] refl] p 3(3) by (simp add: put_wf wf_intros)
  ultimately show ?case by (simp add: same_room_def)
qed simp

lemma parseoption_wf:
  assumes "perf_edns_parseoption arg = Ret opt"
  shows "option_wf (Some opt)"
proof -
  obtain val u b0 b1 b2 save where b: "perf_buffer_putuint16 (fresh (length val div 2 + 4)) u = Ret b0"
    "perf_buffer_add b0 2 = Ret b1" "parse_hex val b1 = Ret b2"
    "perf_buffer_putuint16 (b0\<lparr>buf_base := buf_base b2\<rparr>) (of_nat (size_sub (buf_used b2) 4)) = Ret save"
    "opt = \<lparr>option_buffer = b2\<lparr>buf_base := buf_base save\<rparr>\<rparr>"
    using assms by (auto simp: perf_edns_parseoption_def Let_def fresh_def split_beta split: option.splits if_splits)
  have b0: "b0 = bput (fresh (length val div 2 + 4)) (be16 u)" using b(1) by (simp add: put_simps)
  then have "buf_wf b0" by (simp add: wf_intros)
  moreover have "buf_wf b1" "b1 = b0\<lparr>buf_used := buf_used b0 + 2\<rparr>"
    using b(2) \<open>buf_wf b0\<close> by (auto simp: perf_buffer_add_def buf_wf_def split: if_splits)
  ultimately have "same_room b1 b2" "buf_wf b0" "length (buf_base b1) = length (buf_base b0)" "buf_length b1 = buf_length b0"
    using parse_hex_room [OF b(3)] by simp_all
  then have "buf_wf (b0\<lparr>buf_base := buf_base b2\<rparr>)" by (simp add: same_room_def buf_wf_def)
  then have "length (buf_base save) = length (buf_base b2)"
    using b(4) bput_room [of "b0\<lparr>buf_base := buf_base b2\<rparr>"] by (auto simp: put_wf same_room_def split: if_splits)
  then show ?thesis using b(5) \<open>same_room b1 b2\<close> by (simp add: option_wf_def same_room_def buf_wf_def)
qed

definition config_ok :: "config_t \<Rightarrow> perf_datafile \<Rightarrow> bool" where
  "config_ok cfg input \<longleftrightarrow>
    1 \<le> cfg_threads cfg \<and> cfg_threads cfg \<le> cfg_clients cfg \<and>
    (cfg_max_qps cfg \<noteq> 0 \<longrightarrow> cfg_threads cfg \<le> cfg_max_qps cfg) \<and>
    1 \<le> cfg_max_outstanding cfg \<and>
    (cfg_maxruns cfg = 0 \<longrightarrow> cfg_timelimit cfg \<noteq> 0) \<and>
    cfg_mode cfg \<in> {sock_udp, sock_tcp, sock_dot, sock_doh} \<and>
    is_inet (cfg_server_addr cfg) \<and> is_inet (cfg_local_addr cfg) \<and>
    perf_sockaddr_port (cfg_server_addr cfg) \<noteq> 0 \<and>
    (cfg_dnssec cfg \<or> cfg_edns_option cfg \<noteq> None \<longrightarrow> cfg_edns cfg) \<and>
    option_wf (cfg_edns_option cfg) \<and>
    (cfg_binary_input cfg \<longrightarrow> cfg_input_format cfg = input_format_tcp_wire_format \<and>
      cfg_tsigkey cfg = None \<and> \<not> cfg_dnssec cfg) \<and>
    0 \<le> cfg_qps_threshold_wait cfg \<and> cfg_qps_threshold_wait cfg < 2 ^ 31 \<and>
    df_maxruns input = cfg_maxruns cfg \<and> df_format input = cfg_input_format cfg \<and> df_nruns input = 0"

lemma limit_threads_ok:
  assumes "1 \<le> t" "1 \<le> c"
  shows "1 \<le> limit_threads t q c" "limit_threads t q c \<le> c" "q \<noteq> 0 \<longrightarrow> limit_threads t q c \<le> q"
  using assms by (auto simp: limit_threads_def Let_def not_less word_le_nat_alt word_less_nat_alt unat_eq_0)

lemma sint32_less: "sint (v :: u32) < 2 ^ 31"
  using sint_lt [of v] by simp

lemma threshold_wait_ok:
  assumes "threshold_wait env w = Ret w'" "w < 2 ^ 31"
  shows "0 \<le> w' \<and> w' < 2 ^ 31"
proof -
  have "signed_take_bit 31 k < (2 ^ 31 :: int)" for k by (rule signed_take_bit_int_less_exp)
  then show ?thesis
    using assms by (auto simp: threshold_wait_def measure_nanosleep_def Let_def split: if_splits option.splits)
qed

lemma server_port_nz: "server_port m p \<noteq> 0"
  by (auto simp: server_port_def default_port_def split: perf_net_mode.splits)

lemma parsemode_ok: "perf_net_parsemode m = Ret mode \<Longrightarrow> mode \<in> {sock_udp, sock_tcp, sock_dot, sock_doh}"
  by (auto simp: perf_net_parsemode_def split: if_splits)

lemma if_Exit_Ret: "(if c then Exit n else m) = Ret x \<longleftrightarrow> \<not> c \<and> m = Ret x"
  by simp

lemma configure_ok:
  assumes conf: "configure env vs = Ret (cfg, input, g)" and "1 \<le> uint_of vs V_clients 1" "1 \<le> uint_of vs V_threads 1"
    "1 \<le> uint_of vs V_max_outstanding 100"
  shows "config_ok cfg input"
proof -
  let ?fmt = "input_format_of (bool_of vs V_updates) (bool_of vs V_binary_input)"
  let ?w = "case vs V_qps_threshold_wait of Some (OUint v) \<Rightarrow> sint v | _ \<Rightarrow> - 1"
  obtain mode family server local opened opt wait where
    m: "(case string_of vs V_mode of None \<Rightarrow> Ret sock_udp | Some m \<Rightarrow> perf_net_parsemode m) = Ret mode"
    and srv: "perf_net_parseserver (env_resolve env) family
       (case string_of vs V_server_name of None \<Rightarrow> cstr ''127.0.0.1'' | Some s \<Rightarrow> s)
       (server_port mode (port_of vs V_server_port)) = Ret server"
    and loc: "perf_net_parselocal (env_pton env) (sa_family server) (string_of vs V_local_name) (port_of vs V_local_port) = Ret local"
    and op: "perf_datafile_open (env_open env (string_of vs V_filename)) ?fmt = Ret opened"
    and opt: "(case string_of vs V_edns_option of
              None \<Rightarrow> Ret None | Some a \<Rightarrow> obind (perf_edns_parseoption a) (\<lambda>e. Ret (Some e))) = Ret opt"
    and wait: "threshold_wait env ?w = Ret wait"
    and bin: "\<not> (bool_of vs V_binary_input \<and> (bool_of vs V_edns \<or> bool_of vs V_dnssec \<or>
          string_of vs V_tsigkey \<noteq> None \<or> bool_of vs V_updates))"
    and fields: "cfg_clients cfg = uint_of vs V_clients 1" "cfg_max_qps cfg = uint_of vs V_max_qps 0"
      "cfg_threads cfg = limit_threads (uint_of vs V_threads 1) (uint_of vs V_max_qps 0) (uint_of vs V_clients 1)"
      "cfg_max_outstanding cfg = uint_of vs V_max_outstanding 100" "cfg_timelimit cfg = time_of vs V_timelimit 0"
      "cfg_maxruns cfg = limit_runs (uint_of vs V_maxruns 0) (time_of vs V_timelimit 0)"
      "cfg_mode cfg = mode" "cfg_server_addr cfg = server" "cfg_local_addr cfg = local"
      "cfg_dnssec cfg = bool_of vs V_dnssec" "cfg_edns_option cfg = opt"
      "cfg_edns cfg = (bool_of vs V_edns \<or> bool_of vs V_dnssec \<or> string_of vs V_edns_option \<noteq> None)"
      "cfg_binary_input cfg = bool_of vs V_binary_input" "cfg_input_format cfg = ?fmt"
      "cfg_tsigkey cfg = string_of vs V_tsigkey" "cfg_qps_threshold_wait cfg = wait"
      "input = perf_datafile_setmaxruns opened (cfg_maxruns cfg)"
    using conf unfolding configure_def Let_def
    by (simp add: if_Exit_Ret) (elim exE conjE, rule that, assumption+, auto)
  have "mode \<in> {sock_udp, sock_tcp, sock_dot, sock_doh}"
    using m parsemode_ok by (auto split: option.splits)
  moreover have "option_wf opt" "opt \<noteq> None \<longleftrightarrow> string_of vs V_edns_option \<noteq> None"
    using opt parseoption_wf by (auto simp: option_wf_def split: option.splits)
  moreover have "?w < 2 ^ 31" using sint32_less by (auto split: option.splits optval.splits)
  then have "0 \<le> wait \<and> wait < 2 ^ 31" by (rule threshold_wait_ok [OF wait])
  moreover have "df_format opened = ?fmt" "df_nruns opened = 0"
    using op by (auto simp: perf_datafile_open_def split: option.splits)
  moreover have "bool_of vs V_binary_input \<longrightarrow> ?fmt = input_format_tcp_wire_format"
    using bin by (auto simp: input_format_of_def)
  ultimately show ?thesis
    using limit_threads_ok [OF assms(3,2), of "uint_of vs V_max_qps 0"] parseserver_ok [OF srv] parselocal_ok [OF loc]
      assms(4) bin server_port_nz [of mode "port_of vs V_server_port"]
    unfolding config_ok_def fields
    by (auto simp: limit_runs_def perf_datafile_setmaxruns_def)
qed

lemma setup_config_ok:
  assumes "setup_dnsperf env = Ret (cfg, input, g)"
  shows "config_ok cfg input"
proof -
  obtain os vs where os: "register_all dnsperf_options no_options = Ret os"
    and vs: "perf_opt_parse (env_floats env) (env_getopt env) os (\<lambda>_. None) = Ret vs"
    and conf: "configure env vs = Ret (cfg, input, g)"
    using assms by (auto simp: setup_dnsperf_def)
  have "well_typed os (\<lambda>_. None)" by (simp add: well_typed_def)
  then have typed: "well_typed os vs" by (rule opt_parse_ok [OF vs])
  note ty = dnsperf_uint_types [OF os]
  show ?thesis
    using uint_of_pos [OF typed ty(1), of 1] uint_of_pos [OF typed ty(2), of 1] uint_of_pos [OF typed ty(3), of 100]
    by (intro configure_ok [OF conf]) (simp_all add: word_le_nat_alt)
qed

lemma per_thread_pos:
  assumes "1 \<le> n" "n \<le> tot" "i < unat n"
  shows "1 \<le> per_thread tot n i"
proof -
  have n: "n \<noteq> 0" "0 < unat n" using assms(1,3) by auto
  have "i < 2 ^ 32" using assms(3) unsigned_less [of n, where ?'a = nat] by simp
  from unat_per_thread [OF n(1) this, of tot]
  have "1 \<le> unat (per_thread tot n i)"
    using assms(2) n(2) by (simp add: word_le_nat_alt div_greater_zero_iff Suc_le_eq)
  then show ?thesis by (simp add: word_le_nat_alt)
qed


definition example_env :: "(unit, unit) environment" where
  "example_env = \<lparr>env_floats = \<lparr>fl_atof = \<lambda>_. (), fl_micros = \<lambda>_. 0\<rparr>,
     env_getopt = (\<lambda>_. ([(CHR ''m'', cstr ''tcp''), (CHR ''D'', []), (CHR ''O'', cstr ''suppress=timeouts'')], False)),
     env_resolve = (\<lambda>_. Some [(AF_INET, [127, 0, 0, 1])]), env_pton = (\<lambda>_ _. None),
     env_open = (\<lambda>_. Some (Some 10)), env_ssl = \<lparr>evp_decode = \<lambda>_. None, evp_setup = \<lambda>_ _. None,
       evp_reinit = \<lambda>_. None, evp_update = \<lambda>_ _. None, evp_final = \<lambda>_. None\<rparr>,
     env_ldns = False, env_clock = (\<lambda>_. Some (0, 0)), env_nanosleep = (\<lambda>_. True)\<rparr>"

lemma example_setup:
  "case setup_dnsperf example_env of
     Ret (cfg, input, g) \<Rightarrow> cfg_mode cfg = sock_tcp \<and> cfg_edns cfg \<and> sup_timeouts (cfg_suppress cfg) \<and> cfg_threads cfg = 1
   | _ \<Rightarrow> False"
  by code_simp


text \<open>
  The limit of outstanding queries is divided without such a guard: with fewer slots than threads
  the last thread gets none, and never takes a query.
\<close>

lemma thread_without_slots:
  assumes "q < n" "t = threadinfo_init hist q mq clients n (unat n - 1) opensocket so"
  shows "max_outstanding t = 0" "take_query ready t = Ret (Limited, t)"
proof -
  have n: "n \<noteq> 0" "unat n - 1 < 2 ^ 32"
    using assms(1) unsigned_less [of n, where ?'a = nat] by (auto simp: word_less_nat_alt)
  have "unat q < unat n" using assms(1) by (simp add: word_less_nat_alt)
  then have "unat (per_thread q n (unat n - 1)) = 0" using unat_per_thread [OF n, of q] by simp
  then have "per_thread q n (unat n - 1) = 0" by (simp add: unat_eq_0)
  then show mo: "max_outstanding t = 0"
    by (simp add: assms(2) threadinfo_init_def Let_def split_beta)
  show "take_query ready t = Ret (Limited, t)" by (simp add: take_query_def mo)
qed

end
