(* ===== verification/Bits.thy ===== *)
theory Bits
  imports Prelude
begin

unbundle bit_operations_syntax

text \<open>
  The arrays of bits of \<^verbatim>\<open>dnsperf.c\<close>, one bit for each socket of a thread: the most significant
  bit of a byte comes first.  An array of 33 bytes has room for the 256 sockets a thread can have.
\<close>

section \<open>Arrays of bits\<close>

definition bit_shift :: "nat \<Rightarrow> nat" where
  "bit_shift i = 7 - i mod 8"

definition bit_set :: "bytes \<Rightarrow> nat \<Rightarrow> bytes" where
  "bit_set bits i = bits[i div 8 := bits ! (i div 8) OR push_bit (bit_shift i) 1]"

definition bit_clear :: "bytes \<Rightarrow> nat \<Rightarrow> bytes" where
  "bit_clear bits i = bits[i div 8 := bits ! (i div 8) AND NOT (push_bit (bit_shift i) 1)]"

definition bit_check :: "bytes \<Rightarrow> nat \<Rightarrow> bool" where
  "bit_check bits i \<longleftrightarrow> drop_bit (bit_shift i) (bits ! (i div 8)) AND 1 \<noteq> 0"

text \<open>What the users of the array rely on: reading back what was written.\<close>

locale bit_array =
  fixes room :: "'b \<Rightarrow> nat"
    and chk :: "'b \<Rightarrow> nat \<Rightarrow> bool"
    and put :: "'b \<Rightarrow> nat \<Rightarrow> 'b"
    and clr :: "'b \<Rightarrow> nat \<Rightarrow> 'b"
  assumes room_put: "room (put b i) = room b"
    and room_clr: "room (clr b i) = room b"
    and chk_put: "i < room b \<Longrightarrow> j < room b \<Longrightarrow> chk (put b i) j \<longleftrightarrow> j = i \<or> chk b j"
    and chk_clr: "i < room b \<Longrightarrow> j < room b \<Longrightarrow> chk (clr b i) j \<longleftrightarrow> j \<noteq> i \<and> chk b j"
begin

lemma chk_fold_put:
  "\<forall>i \<in> set is. i < room b \<Longrightarrow> j < room b \<Longrightarrow> chk (fold (\<lambda>i b. put b i) is b) j \<longleftrightarrow> j \<in> set is \<or> chk b j"
  by (induction "is" arbitrary: b) (auto simp: room_put chk_put)

lemma chk_fold_clr:
  "\<forall>i \<in> set is. i < room b \<Longrightarrow> j < room b \<Longrightarrow> chk (fold (\<lambda>i b. clr b i) is b) j \<longleftrightarrow> j \<notin> set is \<and> chk b j"
  by (induction "is" arbitrary: b) (auto simp: room_clr chk_clr)

end

lemma bit_check_iff: "bit_check bits i \<longleftrightarrow> bit (bits ! (i div 8)) (bit_shift i)"
proof -
  have "drop_bit (bit_shift i) (bits ! (i div 8)) AND 1 = of_bool (odd (drop_bit (bit_shift i) (bits ! (i div 8))))"
    by (rule and_one_eq [THEN trans]) (simp add: mod_2_eq_odd)
  then show ?thesis by (simp add: bit_check_def bit_iff_odd_drop_bit)
qed

lemma bit_position: "i div 8 = j div 8 \<Longrightarrow> bit_shift i = bit_shift j \<longleftrightarrow> i = j"
  unfolding bit_shift_def
proof
  assume "i div 8 = j div 8" "7 - i mod 8 = 7 - j mod 8"
  moreover have "i mod 8 < 8" "j mod 8 < 8" by simp_all
  ultimately have "i div 8 = j div 8" "i mod 8 = j mod 8" by linarith+
  then show "i = j" by (metis div_mult_mod_eq)
qed simp

lemma bit_mask: "bit (push_bit (bit_shift i) 1 :: u8) (bit_shift j) \<longleftrightarrow> bit_shift i = bit_shift j"
proof -
  have "bit_shift j < 8" by (simp add: bit_shift_def)
  then show ?thesis by (auto simp: bit_exp_iff)
qed

lemma bit_set_check:
  assumes "i div 8 < length bits" "j div 8 < length bits"
  shows "bit_check (bit_set bits i) j \<longleftrightarrow> j = i \<or> bit_check bits j"
proof (cases "i div 8 = j div 8")
  case True
  then have "bit_check (bit_set bits i) j \<longleftrightarrow> bit (bits ! (j div 8)) (bit_shift j) \<or> bit_shift i = bit_shift j"
    using assms(2) by (simp add: bit_check_iff bit_set_def bit_or_iff bit_mask del: push_bit_of_1)
  then show ?thesis using bit_position [OF True] by (auto simp: bit_check_iff)
next
  case False
  then show ?thesis by (auto simp: bit_check_iff bit_set_def)
qed

lemma bit_clear_check:
  assumes "i div 8 < length bits" "j div 8 < length bits"
  shows "bit_check (bit_clear bits i) j \<longleftrightarrow> j \<noteq> i \<and> bit_check bits j"
proof (cases "i div 8 = j div 8")
  case True
  have "bit_shift j < 8" by (simp add: bit_shift_def)
  then have "bit_check (bit_clear bits i) j \<longleftrightarrow> bit (bits ! (j div 8)) (bit_shift j) \<and> bit_shift i \<noteq> bit_shift j"
    using assms(2) True by (simp add: bit_check_iff bit_clear_def bit_and_iff bit_not_iff bit_mask del: push_bit_of_1)
  then show ?thesis using bit_position [OF True] by (auto simp: bit_check_iff)
next
  case False
  then show ?thesis by (auto simp: bit_check_iff bit_clear_def)
qed

interpretation sb: bit_array "\<lambda>bits. 8 * length bits" bit_check bit_set bit_clear
proof
  fix bits :: bytes and i j
  assume "i < 8 * length bits" "j < 8 * length bits"
  then have "i div 8 < length bits" "j div 8 < length bits" by simp_all
  then show "bit_check (bit_set bits i) j \<longleftrightarrow> j = i \<or> bit_check bits j"
    and "bit_check (bit_clear bits i) j \<longleftrightarrow> j \<noteq> i \<and> bit_check bits j"
    by (rule bit_set_check, rule bit_clear_check)
qed (simp_all add: bit_set_def bit_clear_def)

end
