(* ===== verification/Os.thy ===== *)
theory Os
  imports Buffer
begin

text \<open>
  Waiting for sockets (\<^verbatim>\<open>os.c\<close>).  \<^verbatim>\<open>poll\<close> is a parameter: it is given the descriptors with the
  events asked for, the last of them the pipe that wakes the threads up, and a time in
  milliseconds, and it fails, times out, or reports events, where only those of the pipe are
  looked at.
\<close>

datatype errno =
    EINTR | EAGAIN | EBADF | ECONNREFUSED | ECONNRESET | ENOTCONN | EPIPE | EINPROGRESS | EOTHER nat

text \<open>
  What the functions of a transport return: \<^verbatim>\<open>perf_net_recv\<close> the number of bytes of the message
  (zero for a closed connection) with the bytes stored, which are fewer when the message does not
  fit, and \<^verbatim>\<open>perf_net_sendto\<close> the number of bytes sent; \<^verbatim>\<open>EINPROGRESS\<close> says that the transport
  keeps the message and will send it.
\<close>

datatype recv_result = Recvd nat bytes | Recv_error errno

datatype send_result = Sent_bytes nat | In_progress | Send_error

datatype poll_event = POLLIN | POLLOUT

datatype poll_result = Poll_failed errno | Poll_timeout | Poll_events bool

type_synonym poll = "(int \<times> poll_event) list \<Rightarrow> int \<Rightarrow> poll_result"

text \<open>Microseconds to the \<^verbatim>\<open>int\<close> of milliseconds.\<close>

definition poll_timeout :: "int \<Rightarrow> int" where
  "poll_timeout timeout =
    (if timeout < 0 then -1
     else let to = signed_take_bit 31 (timeout div 1000) in if timeout \<noteq> 0 \<and> to = 0 then 1 else to)"

definition poll_outcome :: "poll_result \<Rightarrow> perf_result outcome" where
  "poll_outcome r =
    (case r of
       Poll_failed e \<Rightarrow> if e \<noteq> EINTR then Exit 1 else Ret PERF_R_CANCELED
     | Poll_timeout \<Rightarrow> Ret PERF_R_TIMEDOUT
     | Poll_events pipe \<Rightarrow> if pipe then Ret PERF_R_CANCELED else Ret PERF_R_SUCCESS)"

text \<open>A socket is given by its descriptor and by whether it has data in its own buffers.\<close>

definition perf_os_waituntilanyreadable :: "poll \<Rightarrow> (int \<times> bool) list \<Rightarrow> int \<Rightarrow> int \<Rightarrow> perf_result outcome" where
  "perf_os_waituntilanyreadable poll sockets pipe_fd timeout =
    (if list_ex snd sockets then Ret PERF_R_SUCCESS
     else poll_outcome (poll (map (\<lambda>s. (fst s, POLLIN)) sockets @ [(pipe_fd, POLLIN)]) (poll_timeout timeout)))"

definition perf_os_waituntilreadable :: "poll \<Rightarrow> int \<times> bool \<Rightarrow> int \<Rightarrow> int \<Rightarrow> perf_result outcome" where
  "perf_os_waituntilreadable poll sock pipe_fd timeout = perf_os_waituntilanyreadable poll [sock] pipe_fd timeout"

definition perf_os_waituntilanywritable :: "poll \<Rightarrow> int list \<Rightarrow> int \<Rightarrow> int \<Rightarrow> perf_result outcome" where
  "perf_os_waituntilanywritable poll fds pipe_fd timeout =
    poll_outcome (poll (map (\<lambda>fd. (fd, POLLOUT)) fds @ [(pipe_fd, POLLIN)]) (poll_timeout timeout))"

text \<open>
  The rounding keeps the meaning of the time: a negative time waits without limit, zero does not
  wait, and every other time up to 2147483647 milliseconds waits for at least one millisecond and
  at most the time asked for.
\<close>

lemma poll_timeout_rounds:
  assumes "timeout < 2147483648000"
  shows "poll_timeout timeout < 0 \<longleftrightarrow> timeout < 0" "poll_timeout timeout = 0 \<longleftrightarrow> timeout = 0"
    "1000 \<le> timeout \<Longrightarrow> poll_timeout timeout * 1000 \<le> timeout \<and> timeout < (poll_timeout timeout + 1) * 1000"
proof -
  have small: "signed_take_bit 31 (timeout div 1000) = timeout div 1000" if "0 \<le> timeout"
    using that assms by (intro signed_take_bit_int_eq_self) (auto simp: pos_imp_zdiv_nonneg_iff)
  have "timeout div 1000 = 0 \<Longrightarrow> 0 \<le> timeout \<Longrightarrow> timeout < 1000" by simp
  then show "poll_timeout timeout < 0 \<longleftrightarrow> timeout < 0" "poll_timeout timeout = 0 \<longleftrightarrow> timeout = 0"
    using small by (auto simp: poll_timeout_def Let_def pos_imp_zdiv_nonneg_iff not_less)
  show "poll_timeout timeout * 1000 \<le> timeout \<and> timeout < (poll_timeout timeout + 1) * 1000" if "1000 \<le> timeout"
  proof -
    have "timeout div 1000 \<noteq> 0" using that by (auto simp: div_eq_0_iff zdiv_eq_0_iff)
    then have "poll_timeout timeout = timeout div 1000" using that small by (simp add: poll_timeout_def Let_def)
    then show ?thesis by (simp add: algebra_simps) presburger
  qed
qed

text \<open>A wait for reading never blocks while a socket has data in its own buffers.\<close>

lemma readable_with_buffered:
  "(fd, True) \<in> set sockets \<Longrightarrow> perf_os_waituntilanyreadable poll sockets pipe_fd timeout = Ret PERF_R_SUCCESS"
  by (force simp: perf_os_waituntilanyreadable_def list_ex_iff)

end
