(* ===== verification/Sender.thy ===== *)
theory Sender
  imports Workers Dns Runs Setup Bits Os
begin

text \<open>
  The loop of the sending thread, \<^verbatim>\<open>do_send\<close> of \<^verbatim>\<open>dnsperf.c\<close>: flushing of sockets that are still
  sending, rate limiting, taking a query, building its message from the input, and sending it.
  Clock, sockets and \<^verbatim>\<open>time\<close> answer through the record \<open>send_events\<close>, one for each round of the loop.
\<close>

section \<open>State and configuration of the loop\<close>

definition MAX_UDP_PACKET :: nat where
  "MAX_UDP_PACKET = 512"

definition MAX_INPUT_DATA :: nat where
  "MAX_INPUT_DATA = 64 * 1024 + 2"

definition SOCKETBITS :: nat where
  "SOCKETBITS = MAX_SOCKETS div 8 + 1"

record 'c sender =
  snd_now :: u64
  req_time :: u64
  q_sent :: u64
  q_step :: u64
  q_slice :: u64
  any_inprogress :: bool
  socketbits :: bytes
  snd_lines :: perf_buffer
  snd_msg :: perf_buffer
  snd_key :: "'c perf_tsigkey option"

definition do_send_start :: "'c openssl \<Rightarrow> config_t \<Rightarrow> threadinfo \<Rightarrow> u64 \<Rightarrow> 'c sender outcome" where
  "do_send_start ssl cfg t now =
    obind (case cfg_tsigkey cfg of None \<Rightarrow> Ret None | Some k \<Rightarrow> obind (perf_tsig_parsekey ssl k) (\<lambda>key. Ret (Some key))) (\<lambda>key.
    Ret \<lparr>snd_now = now, req_time = now, q_sent = 0,
         q_step = (if max_qps t > 0 then MILLION div ucast (max_qps t) else 0),
         q_slice = now + MILLION, any_inprogress = False, socketbits = replicate SOCKETBITS 0,
         snd_lines = perf_buffer_init (replicate MAX_INPUT_DATA 0) MAX_INPUT_DATA,
         snd_msg = perf_buffer_init (replicate MAX_EDNS_PACKET 0)
           (if cfg_edns cfg then MAX_EDNS_PACKET else MAX_UDP_PACKET),
         snd_key = key\<rparr>)"

section \<open>Sockets that are still sending\<close>

text \<open>\<open>busy i\<close>: \<^verbatim>\<open>perf_net_sockready\<close> returns 0 for socket \<open>i\<close>.\<close>

fun flush_loop :: "(nat \<Rightarrow> bool) \<Rightarrow> nat list \<Rightarrow> bytes \<Rightarrow> bool \<Rightarrow> bytes \<times> bool" where
  "flush_loop busy [] bits anyp = (bits, anyp)"
| "flush_loop busy (i # is) bits anyp =
    (if \<not> bit_check bits i then flush_loop busy is bits anyp
     else if busy i then flush_loop busy is bits True
     else flush_loop busy is (bit_clear bits i) anyp)"

definition flush_sockets :: "(nat \<Rightarrow> bool) \<Rightarrow> nat \<Rightarrow> 'c sender \<Rightarrow> 'c sender" where
  "flush_sockets busy n s =
    (if any_inprogress s then
       (case flush_loop busy [0..<n] (socketbits s) False of
          (bits, anyp) \<Rightarrow> s\<lparr>socketbits := bits, any_inprogress := anyp\<rparr>)
     else s)"

text \<open>The last flush, when the loop has ended: rounds over all sockets until none is busy.\<close>

fun drain_sockets :: "(nat \<Rightarrow> nat \<Rightarrow> bool) \<Rightarrow> nat \<Rightarrow> nat \<Rightarrow> nat \<Rightarrow> bool \<Rightarrow> nat option" where
  "drain_sockets busy n 0 k anyp = (if anyp then None else Some k)"
| "drain_sockets busy n (Suc fuel) k anyp =
    (if anyp then drain_sockets busy n fuel (k + 1) (list_ex (busy k) [0..<n]) else Some k)"

section \<open>Rate limiting\<close>

datatype gate = Go | Wait "(u64 \<times> u64) option"

text \<open>The argument of \<^verbatim>\<open>nanosleep\<close>, if it is called.\<close>

definition wait_time :: "u64 \<Rightarrow> bool \<Rightarrow> u64 \<Rightarrow> (u64 \<times> u64) option" where
  "wait_time threshold busy wait_us =
    (if \<not> busy \<and> threshold \<noteq> 0 \<and> wait_us > threshold then
       (let wait_us = wait_us - threshold in
        Some (if wait_us \<ge> MILLION then (wait_us div MILLION, (wait_us mod MILLION) * 1000)
              else (0, wait_us * 1000)))
     else None)"

definition new_slice :: "'c sender \<Rightarrow> 'c sender" where
  "new_slice s =
    (if q_slice s \<le> snd_now s
     then s\<lparr>q_slice := q_slice s + MILLION, q_sent := 0, req_time := snd_now s\<rparr> else s)"

definition rate_gate :: "u64 \<Rightarrow> u32 \<Rightarrow> 'c sender \<Rightarrow> gate \<times> 'c sender" where
  "rate_gate threshold qps s =
    (if qps > 0 then
       let s = new_slice s in
       if q_sent s \<ge> ucast qps then (Wait (wait_time threshold (any_inprogress s) (q_slice s - snd_now s)), s)
       else if req_time s > snd_now s then (Wait (wait_time threshold (any_inprogress s) (req_time s - snd_now s)), s)
       else (Go, s\<lparr>req_time := req_time s + q_step s\<rparr>)
     else (Go, s))"

section \<open>The message\<close>

datatype built = Built | Build_failed | Input_end

type_synonym builder = "bytes \<Rightarrow> perf_buffer \<Rightarrow> (perf_result \<times> perf_buffer) outcome"

text \<open>The buffer that is sent: the message, or the input for binary input.\<close>

definition send_buffer :: "config_t \<Rightarrow> 'c sender \<Rightarrow> perf_buffer" where
  "send_buffer cfg s =
    (if cfg_input_format cfg = input_format_tcp_wire_format then snd_lines s else snd_msg s)"

definition write_qid :: "u16 \<Rightarrow> perf_buffer \<Rightarrow> perf_buffer" where
  "write_qid qid b =
    (if buf_used b > 1
     then b\<lparr>buf_base := (buf_base b)[0 := ucast (drop_bit 8 qid), 1 := ucast qid]\<rparr> else b)"

definition build_message :: "'c openssl \<Rightarrow> u32 \<Rightarrow> builder option \<Rightarrow> config_t \<Rightarrow> u16 \<Rightarrow>
    'c sender \<times> perf_datafile \<times> input \<Rightarrow> (built \<times> 'c sender \<times> perf_datafile \<times> input) outcome" where
  "build_message ssl time upd cfg qid = (\<lambda>(s, df, inp).
    obind (perf_datafile_next df inp (perf_buffer_clear (snd_lines s))) (\<lambda>(result, df, inp, lines).
    let s = s\<lparr>snd_lines := lines\<rparr> in
    if result \<noteq> PERF_R_SUCCESS then
      (if result = PERF_R_INVALIDFILE then Exit 1 else Ret (Input_end, s, df, inp))
    else if cfg_input_format cfg = input_format_tcp_wire_format then
      Ret (Built, s\<lparr>snd_lines := write_qid qid lines\<rparr>, df, inp)
    else
      obind (perf_dns_buildrequest ssl time upd (perf_buffer_usedregion lines) qid (cfg_edns cfg) (cfg_dnssec cfg)
          (cfg_input_format cfg = input_format_text_update) (snd_key s) (cfg_edns_option cfg)
          (perf_buffer_clear (snd_msg s))) (\<lambda>(result, msg, key).
      let s = s\<lparr>snd_msg := msg, snd_key := key\<rparr> in
      Ret (if result = PERF_R_SUCCESS then Built else Build_failed, s, df, inp))))"

section \<open>A round of the loop\<close>

record send_events =
  ev_now1 :: u64
  ev_busy :: "nat \<Rightarrow> bool"
  ev_now2 :: u64
  ev_ready :: "nat \<Rightarrow> sockready"
  ev_time :: u32
  ev_stamp :: u64
  ev_sendto :: "nat \<Rightarrow> u16 \<Rightarrow> bytes \<Rightarrow> send_result"

definition query_desc :: "config_t \<Rightarrow> 'c sender \<Rightarrow> bytes option \<Rightarrow> bytes option" where
  "query_desc cfg s old_desc =
    (if cfg_verbose cfg then
       Some (if cfg_input_format cfg = input_format_tcp_wire_format then cstr ''binary input''
             else cstring_of (buf_base (snd_lines s)))
     else old_desc)"

definition stamp_query :: "nat \<Rightarrow> u64 \<Rightarrow> bytes option \<Rightarrow> threadinfo \<Rightarrow> threadinfo" where
  "stamp_query q now d t = upd_query q (timestamp_update (\<lambda>_. now) \<circ> desc_update (\<lambda>_. d)) t"

datatype 'a flow = Next 'a | Stop 'a

type_synonym 'c send_state = "threadinfo \<times> 'c sender \<times> perf_datafile \<times> input"

text \<open>After \<^verbatim>\<open>perf_net_sendto\<close>.\<close>

definition after_send :: "send_result \<Rightarrow> nat \<Rightarrow> nat \<Rightarrow> nat \<Rightarrow> threadinfo \<Rightarrow> 'c sender \<Rightarrow> (threadinfo \<times> 'c sender) outcome" where
  "after_send r len q sock t s =
    (case r of
       In_progress \<Rightarrow>
         Ret (t\<lparr>stats := count_sent (of_nat len) (stats t)\<rparr>,
              s\<lparr>any_inprogress := True, socketbits := bit_set (socketbits s) sock, q_sent := q_sent s + 1\<rparr>)
     | Send_error \<Rightarrow> obind (query_move t q prepend_unused) (\<lambda>t. Ret (t, s))
     | Sent_bytes n \<Rightarrow>
         if n \<noteq> len then obind (query_move t q prepend_unused) (\<lambda>t. Ret (t, s))
         else Ret (t\<lparr>stats := count_sent (of_nat len) (stats t)\<rparr>, s\<lparr>q_sent := q_sent s + 1\<rparr>))"

definition do_send_round :: "'c openssl \<Rightarrow> builder option \<Rightarrow> config_t \<Rightarrow> send_events \<Rightarrow>
    'c send_state \<Rightarrow> 'c send_state flow outcome" where
  "do_send_round ssl upd cfg ev = (\<lambda>(t, s, df, inp).
    let s = (if num_sent (stats t) < ucast (max_outstanding t) \<and> num_sent (stats t) mod 2 = 1
             then s\<lparr>snd_now := ev_now1 ev\<rparr> else s);
        s = flush_sockets (ev_busy ev) (nsocks t) s
    in case rate_gate (of_int (cfg_qps_threshold_wait cfg)) (max_qps t) s of
      (Wait w, s) \<Rightarrow> Ret (Next (t, s\<lparr>snd_now := ev_now2 ev\<rparr>, df, inp))
    | (Go, s) \<Rightarrow>
      obind (take_query (ev_ready ev) t) (\<lambda>(taken, t).
      case taken of
        Limited \<Rightarrow> Ret (Next (t, s\<lparr>snd_now := ev_now2 ev\<rparr>, df, inp))
      | NoSocket \<Rightarrow> Ret (Next (t, s\<lparr>snd_now := ev_now2 ev\<rparr>, df, inp))
      | Taken q sock \<Rightarrow>
        obind (build_message ssl (ev_time ev) upd cfg (of_nat q) (s, df, inp)) (\<lambda>(b, s, df, inp).
        case b of
          Input_end \<Rightarrow> Ret (Stop (t, s, df, inp))
        | Build_failed \<Rightarrow> obind (query_move t q prepend_unused) (\<lambda>t. Ret (Next (t, s\<lparr>snd_now := ev_now2 ev\<rparr>, df, inp)))
        | Built \<Rightarrow>
          let msg = perf_buffer_usedregion (send_buffer cfg s);
              s = s\<lparr>snd_now := ev_stamp ev\<rparr>;
              t = stamp_query q (ev_stamp ev) (query_desc cfg s (desc (queries t q))) t
          in obind (after_send (ev_sendto ev sock (of_nat q) msg) (length msg) q sock t s) (\<lambda>(t, s).
             Ret (Next (t, s, df, inp))))))"

text \<open>The loop: the flag of an interruption is read before each round; when the rounds given are used up the result is \<open>None\<close>.\<close>

fun do_send_loop :: "'c openssl \<Rightarrow> builder option \<Rightarrow> config_t \<Rightarrow> u64 \<Rightarrow> (bool \<times> send_events) list \<Rightarrow>
    'c send_state \<Rightarrow> 'c send_state outcome option" where
  "do_send_loop ssl upd cfg stop [] st = None"
| "do_send_loop ssl upd cfg stop ((interrupted, ev) # evs) st =
    (if interrupted \<or> \<not> snd_now (fst (snd st)) < stop then Some (Ret st)
     else case do_send_round ssl upd cfg ev st of
       Ret (Next st) \<Rightarrow> do_send_loop ssl upd cfg stop evs st
     | Ret (Stop st) \<Rightarrow> Some (Ret st)
     | Abort \<Rightarrow> Some Abort
     | Exit n \<Rightarrow> Some (Exit n)
     | UB \<Rightarrow> Some UB)"

definition do_send_end :: "u64 \<Rightarrow> threadinfo \<Rightarrow> threadinfo" where
  "do_send_end now t = t\<lparr>done_send_time := now, done_sending := True\<rparr>"

section \<open>Sockets in progress\<close>

definition progress_ok :: "nat \<Rightarrow> 'c sender \<Rightarrow> bool" where
  "progress_ok n s \<longleftrightarrow> n \<le> 8 * length (socketbits s) \<and> (any_inprogress s \<longleftrightarrow> (\<exists>i < n. bit_check (socketbits s) i))"

lemma flush_loop_fold:
  assumes "distinct is" "\<forall>i \<in> set is. i < 8 * length bits"
  shows "flush_loop busy is bits anyp =
    (fold (\<lambda>i b. bit_clear b i) (filter (\<lambda>i. bit_check bits i \<and> \<not> busy i) is) bits,
     anyp \<or> (\<exists>i \<in> set is. bit_check bits i \<and> busy i))"
  using assms
proof (induction "is" arbitrary: bits anyp)
  case (Cons i "is")
  have "bit_check (bit_clear bits i) j \<longleftrightarrow> bit_check bits j" if "j \<in> set is" for j
    using Cons.prems that by (auto simp: sb.chk_clr)
  then have "filter (\<lambda>j. bit_check (bit_clear bits i) j \<and> \<not> busy j) is = filter (\<lambda>j. bit_check bits j \<and> \<not> busy j) is"
    "(\<exists>j \<in> set is. bit_check (bit_clear bits i) j \<and> busy j) \<longleftrightarrow> (\<exists>j \<in> set is. bit_check bits j \<and> busy j)"
    by (auto intro: filter_cong)
  moreover have "length (bit_clear bits i) = length bits" by (simp add: bit_clear_def)
  ultimately show ?case using Cons by auto
qed simp

lemma flush_sockets_ok:
  assumes "progress_ok n s"
  shows "progress_ok n (flush_sockets busy n s)"
proof (cases "any_inprogress s")
  case True
  let ?is = "filter (\<lambda>i. bit_check (socketbits s) i \<and> \<not> busy i) [0..<n]"
  let ?bits = "fold (\<lambda>i b. bit_clear b i) ?is (socketbits s)"
  have n: "n \<le> 8 * length (socketbits s)" using assms by (simp add: progress_ok_def)
  then have fl: "flush_sockets busy n s =
      s\<lparr>socketbits := ?bits, any_inprogress := (\<exists>i \<in> set [0..<n]. bit_check (socketbits s) i \<and> busy i)\<rparr>"
    using True flush_loop_fold [of "[0..<n]" "socketbits s" busy False] by (auto simp: flush_sockets_def)
  have len: "length ?bits = length (socketbits s)"
    by (rule fold_invariant [where Q = "\<lambda>_. True" and P = "\<lambda>b. length b = length (socketbits s)"])
      (simp_all add: bit_clear_def)
  have "bit_check ?bits j \<longleftrightarrow> bit_check (socketbits s) j \<and> busy j" if "j < n" for j
    using sb.chk_fold_clr [of ?is "socketbits s" j] n that by auto
  then show ?thesis using n len by (auto simp: fl progress_ok_def)
qed (use assms in \<open>simp add: flush_sockets_def\<close>)

section \<open>What a round keeps\<close>

lemma query_move_keeps:
  assumes "query_move t q op = Ret t'"
  shows "stats t' = stats t \<and> max_qps t' = max_qps t \<and> max_outstanding t' = max_outstanding t \<and> nsocks t' = nsocks t"
  using assms
  by (cases op; cases "qlist (queries t q)") (auto simp: query_move_def Let_def put_list_def upd_query_def split_beta)

lemma find_socket_keeps:
  "find_socket q rs t all_fail = (t', r, f) \<Longrightarrow>
    stats t' = stats t \<and> max_qps t' = max_qps t \<and> max_outstanding t' = max_outstanding t \<and> nsocks t' = nsocks t"
  by (induction q rs t all_fail rule: find_socket.induct)
    (auto simp: Let_def upd_query_def split: sockready.splits)

lemma take_query_keeps:
  assumes "take_query ready t = Ret (r, t')"
  shows "stats t' = stats t \<and> max_qps t' = max_qps t \<and> max_outstanding t' = max_outstanding t \<and> nsocks t' = nsocks t"
proof (cases "num_outstanding (stats t) \<ge> ucast (max_outstanding t)")
  case False
  then obtain q t1 where q: "head (unused_queries t) = Some q" "query_move t q prepend_outstanding = Ret t1"
    using assms by (auto simp: take_query_def split: option.splits)
  let ?t1 = "upd_query q (timestamp_update (\<lambda>_. no_time)) t1"
  obtain t2 sock f where f: "find_socket q (map ready [0..<nsocks t1 * 2]) ?t1 True = (t2, sock, f)"
    by (metis prod_cases3)
  have "\<not> f" "t' = t2 \<or> (\<exists>t3. query_move t2 q prepend_unused = Ret t3 \<and> t' = t3)"
    using assms False q f by (auto simp: take_query_def upd_query_def Let_def split: if_splits option.splits)
  then show ?thesis
    using query_move_keeps [OF q(2)] find_socket_keeps [OF f] query_move_keeps [of t2 q prepend_unused t']
    by (auto simp: upd_query_def)
qed (use assms in \<open>simp add: take_query_def\<close>)

definition start_round :: "send_events \<Rightarrow> threadinfo \<Rightarrow> 'c sender \<Rightarrow> 'c sender" where
  "start_round ev t s = flush_sockets (ev_busy ev) (nsocks t)
    (if num_sent (stats t) < ucast (max_outstanding t) \<and> num_sent (stats t) mod 2 = 1
     then s\<lparr>snd_now := ev_now1 ev\<rparr> else s)"

lemma do_send_round_cases:
  assumes "do_send_round ssl upd cfg ev (t, s, df, inp) = Ret fl"
    and "rate_gate (of_int (cfg_qps_threshold_wait cfg)) (max_qps t) (start_round ev t s) = (g, s2)"
  obtains (waited) w where "g = Wait w" "fl = Next (t, s2\<lparr>snd_now := ev_now2 ev\<rparr>, df, inp)"
  | (none) r t' where "g = Go" "take_query (ev_ready ev) t = Ret (r, t')" "r \<in> {Limited, NoSocket}"
      "fl = Next (t', s2\<lparr>snd_now := ev_now2 ev\<rparr>, df, inp)"
  | (ended) q sock t' s' df' inp' where "g = Go" "take_query (ev_ready ev) t = Ret (Taken q sock, t')"
      "build_message ssl (ev_time ev) upd cfg (of_nat q) (s2, df, inp) = Ret (Input_end, s', df', inp')"
      "fl = Stop (t', s', df', inp')"
  | (failed) q sock t' s' df' inp' t'' where "g = Go" "take_query (ev_ready ev) t = Ret (Taken q sock, t')"
      "build_message ssl (ev_time ev) upd cfg (of_nat q) (s2, df, inp) = Ret (Build_failed, s', df', inp')"
      "query_move t' q prepend_unused = Ret t''" "fl = Next (t'', s'\<lparr>snd_now := ev_now2 ev\<rparr>, df', inp')"
  | (sent) q sock t' s' df' inp' msg d t'' s'' where "g = Go" "take_query (ev_ready ev) t = Ret (Taken q sock, t')"
      "build_message ssl (ev_time ev) upd cfg (of_nat q) (s2, df, inp) = Ret (Built, s', df', inp')"
      "msg = perf_buffer_usedregion (send_buffer cfg s')"
      "after_send (ev_sendto ev sock (of_nat q) msg) (length msg) q sock (stamp_query q (ev_stamp ev) d t')
        (s'\<lparr>snd_now := ev_stamp ev\<rparr>) = Ret (t'', s'')"
      "fl = Next (t'', s'', df', inp')"
proof (cases g)
  case (Wait w)
  then show ?thesis using assms waited by (auto simp: do_send_round_def start_round_def Let_def)
next
  case Go
  then obtain r t' where tk: "take_query (ev_ready ev) t = Ret (r, t')"
    using assms by (auto simp: do_send_round_def start_round_def Let_def)
  show ?thesis
  proof (cases r)
    case (Taken q sock)
    then obtain b s' df' inp' where bm:
      "build_message ssl (ev_time ev) upd cfg (of_nat q) (s2, df, inp) = Ret (b, s', df', inp')"
      using assms Go tk by (auto simp: do_send_round_def start_round_def Let_def)
    show ?thesis
    proof (cases b)
      case Built
      have "obind (after_send (ev_sendto ev sock (of_nat q) (perf_buffer_usedregion (send_buffer cfg s')))
          (length (perf_buffer_usedregion (send_buffer cfg s'))) q sock
          (stamp_query q (ev_stamp ev) (query_desc cfg (s'\<lparr>snd_now := ev_stamp ev\<rparr>) (desc (queries t' q))) t')
          (s'\<lparr>snd_now := ev_stamp ev\<rparr>)) (\<lambda>(t, s). Ret (Next (t, s, df', inp'))) = Ret fl"
        using assms Go tk bm Taken Built by (simp add: do_send_round_def start_round_def Let_def)
      then show ?thesis using sent [OF Go _ _ refl] tk bm Taken Built by auto
    qed (use assms Go tk bm Taken ended failed in \<open>auto simp: do_send_round_def start_round_def Let_def\<close>)
  qed (use assms Go tk none in \<open>auto simp: do_send_round_def start_round_def Let_def\<close>)
qed

definition keeps_rates :: "'c sender \<Rightarrow> 'c sender \<Rightarrow> bool" where
  "keeps_rates s s' \<longleftrightarrow> q_sent s' = q_sent s \<and> q_slice s' = q_slice s \<and> any_inprogress s' = any_inprogress s \<and>
    socketbits s' = socketbits s \<and> snd_now s' = snd_now s"

lemma build_message_keeps:
  "build_message ssl tm upd cfg qid (s, df, inp) = Ret (b, s', df', inp') \<Longrightarrow> keeps_rates s s'"
  by (auto simp: build_message_def keeps_rates_def Let_def split: if_splits prod.splits)

section \<open>The limit of queries per second\<close>

text \<open>
  What may still be sent up to time \<open>T\<close>: the rest of the current slice of a second, and a full
  second's worth for every slice that begins by then.
\<close>

definition budget :: "u32 \<Rightarrow> nat \<Rightarrow> 'c sender \<Rightarrow> nat" where
  "budget qps T s = (unat qps - unat (q_sent s)) + unat qps * ((T + 1000000 - unat (q_slice s)) div 1000000)"

lemma new_slice_budget:
  assumes "unat (snd_now s) \<le> T" "T + 1000000 < 2 ^ 64"
  shows "budget qps T (new_slice s) \<le> budget qps T s" "snd_now (new_slice s) = snd_now s"
proof -
  show "snd_now (new_slice s) = snd_now s" by (simp add: new_slice_def)
  show "budget qps T (new_slice s) \<le> budget qps T s"
  proof (cases "q_slice s \<le> snd_now s")
    case True
    then have le: "unat (q_slice s) \<le> T" using assms(1) by (simp add: word_le_nat_alt)
    then have "unat (q_slice s + MILLION) = unat (q_slice s) + 1000000"
      using assms(2) by (subst unat_add_lem [THEN iffD1]) (simp_all add: MILLION_def)
    moreover have split: "T + 1000000 - unat (q_slice s) = (T - unat (q_slice s)) + 1000000" using le by simp
    have "(T + 1000000 - unat (q_slice s)) div 1000000 = (T - unat (q_slice s)) div 1000000 + 1"
      unfolding split by (rule div_add_self2) simp
    ultimately show ?thesis using True by (simp add: budget_def new_slice_def)
  qed (simp add: new_slice_def)
qed

lemma rate_gate_budget:
  assumes "rate_gate threshold qps s = (g, s')" "unat (snd_now s) \<le> T" "T + 1000000 < 2 ^ 64" "0 < qps"
  shows "budget qps T s' \<le> budget qps T s" "snd_now s' = snd_now s" "g = Go \<Longrightarrow> unat (q_sent s') < unat qps"
proof -
  have lt: "x < (ucast qps :: u64) \<longleftrightarrow> unat x < unat qps" for x
    using unsigned_less [of qps, where ?'a = nat]
    by (simp add: word_less_nat_alt unsigned_ucast_eq take_bit_nat_eq_self)
  have "budget qps T (new_slice s\<lparr>req_time := r\<rparr>) = budget qps T (new_slice s)" for r by (simp add: budget_def)
  with assms new_slice_budget [OF assms(2,3)]
  show "budget qps T s' \<le> budget qps T s" "snd_now s' = snd_now s" "g = Go \<Longrightarrow> unat (q_sent s') < unat qps"
    by (auto simp: rate_gate_def Let_def not_le lt split: if_splits)
qed

lemma start_round_budget:
  "budget qps T (start_round ev t s) = budget qps T s"
  "snd_now (start_round ev t s) \<in> {snd_now s, ev_now1 ev}"
  by (auto simp: start_round_def flush_sockets_def budget_def split: prod.splits)

definition clocks_before :: "nat \<Rightarrow> send_events \<Rightarrow> bool" where
  "clocks_before T ev \<longleftrightarrow> unat (ev_now1 ev) \<le> T \<and> unat (ev_now2 ev) \<le> T \<and> unat (ev_stamp ev) \<le> T"

lemma after_send_budget:
  assumes "after_send r len q sock t s = Ret (t', s')" "unat (q_sent s) < unat qps"
  shows "\<exists>k. num_sent (stats t') = num_sent (stats t) + of_nat k \<and> k + budget qps T s' \<le> budget qps T s \<and>
    max_qps t' = max_qps t \<and> snd_now s' = snd_now s"
proof -
  have q: "unat (q_sent s + 1) = unat (q_sent s) + 1"
    using assms(2) unsigned_less [of qps, where ?'a = nat] by (subst unat_add_lem [THEN iffD1]) simp_all
  then have dec: "1 + budget qps T (s\<lparr>q_sent := q_sent s + 1\<rparr>) = budget qps T s"
    using assms(2) by (simp add: budget_def)
  have put_back: "\<exists>k. num_sent (stats t') = num_sent (stats t) + of_nat k \<and> k + budget qps T s' \<le> budget qps T s \<and>
      max_qps t' = max_qps t \<and> snd_now s' = snd_now s" if "query_move t q prepend_unused = Ret t'" "s' = s"
    using query_move_keeps [OF that(1)] that(2) by (intro exI [of _ 0]) simp
  show ?thesis
  proof (cases r)
    case (Sent_bytes n)
    then show ?thesis using assms(1) put_back dec
      by (cases "n = len") (auto simp: after_send_def count_sent_def intro!: exI [of _ "1 :: nat"])
  next
    case In_progress
    then show ?thesis using assms(1) dec
      by (auto simp: after_send_def count_sent_def budget_def intro!: exI [of _ "1 :: nat"])
  next
    case Send_error
    then show ?thesis using assms(1) put_back by (auto simp: after_send_def)
  qed
qed

fun flow_state :: "'a flow \<Rightarrow> 'a" where
  "flow_state (Next st) = st"
| "flow_state (Stop st) = st"

lemma do_send_round_budget:
  assumes r: "do_send_round ssl upd cfg ev (t, s, df, inp) = Ret fl" and Q: "0 < max_qps t"
    and T: "unat (snd_now s) \<le> T" "clocks_before T ev" "T + 1000000 < 2 ^ 64"
    and fl: "flow_state fl = (t', s', df', inp')"
  shows "\<exists>k. num_sent (stats t') = num_sent (stats t) + of_nat k \<and>
    k + budget (max_qps t) T s' \<le> budget (max_qps t) T s \<and> max_qps t' = max_qps t \<and> unat (snd_now s') \<le> T"
proof -
  let ?b = "budget (max_qps t) T"
  obtain g s2 where g: "rate_gate (of_int (cfg_qps_threshold_wait cfg)) (max_qps t) (start_round ev t s) = (g, s2)"
    by fastforce
  have now: "unat (snd_now (start_round ev t s)) \<le> T"
    using start_round_budget(2) [of ev t s] T(1,2) by (auto simp: clocks_before_def)
  note gate = rate_gate_budget [OF g now T(3) Q]
  have le: "?b s2 \<le> ?b s" using gate(1) start_round_budget(1) [of "max_qps t" T ev t s] by simp
  have unchanged: ?thesis if "stats t' = stats t" "max_qps t' = max_qps t" "?b s' = ?b s2" "unat (snd_now s') \<le> T"
    using that le by (intro exI [of _ 0]) simp
  have bump: "?b (x\<lparr>snd_now := n\<rparr>) = ?b x" for x :: "'a sender" and n by (simp add: budget_def)
  have keep: "?b x = ?b y" if "keeps_rates y x" for x y :: "'a sender" using that by (simp add: keeps_rates_def budget_def)
  from r g show ?thesis
  proof (cases rule: do_send_round_cases)
    case (waited w)
    show ?thesis by (rule unchanged) (use waited fl T(2) bump in \<open>auto simp: clocks_before_def\<close>)
  next
    case (none r t1)
    show ?thesis
      by (rule unchanged) (use none(4) fl T(2) bump take_query_keeps [OF none(2)] in \<open>auto simp: clocks_before_def\<close>)
  next
    case (ended q sock t1 s1 df1 inp1)
    note b = build_message_keeps [OF ended(3)]
    show ?thesis
      by (rule unchanged)
        (use fl ended(4) take_query_keeps [OF ended(2)] b gate(2) now keep [OF b] in \<open>auto simp: keeps_rates_def\<close>)
  next
    case (failed q sock t1 s1 df1 inp1 t2)
    note b = keep [OF build_message_keeps [OF failed(3)]]
    show ?thesis
      by (rule unchanged)
        (use fl failed(5) b bump take_query_keeps [OF failed(2)] query_move_keeps [OF failed(4)] T(2)
         in \<open>auto simp: clocks_before_def\<close>)
  next
    case (sent q sock t1 s1 df1 inp1 msg d t2 s2')
    have k: "?b (s1\<lparr>snd_now := ev_stamp ev\<rparr>) = ?b s2" "q_sent (s1\<lparr>snd_now := ev_stamp ev\<rparr>) = q_sent s2"
      using bump keep [OF build_message_keeps [OF sent(3)]] build_message_keeps [OF sent(3)] by (simp_all add: keeps_rates_def)
    have st: "stats (stamp_query q n d t1) = stats t1" "max_qps (stamp_query q n d t1) = max_qps t1" for n
      by (simp_all add: stamp_query_def upd_query_def)
    from after_send_budget [OF sent(5), of "max_qps t" T] show ?thesis
      using fl sent(6) k st gate(3) [OF sent(1)] take_query_keeps [OF sent(2)] le T(2)
      by (auto simp: clocks_before_def intro: le_trans)
  qed
qed

lemma do_send_loop_budget:
  assumes "do_send_loop ssl upd cfg stop evs (t, s, df, inp) = Some (Ret (t', s', df', inp'))" "0 < max_qps t"
    and "unat (snd_now s) \<le> T" "\<forall>(i, ev) \<in> set evs. clocks_before T ev" "T + 1000000 < 2 ^ 64"
  shows "\<exists>k. num_sent (stats t') = num_sent (stats t) + of_nat k \<and> k \<le> budget (max_qps t) T s"
  using assms
proof (induction evs arbitrary: t s df inp)
  case (Cons e evs)
  obtain i ev where e: "e = (i, ev)" by (cases e)
  show ?case
  proof (cases "i \<or> \<not> snd_now s < stop")
    case True
    then show ?thesis using Cons.prems e by (auto intro: exI [of _ 0])
  next
    case False
    then obtain fl where fl: "do_send_round ssl upd cfg ev (t, s, df, inp) = Ret fl"
      using Cons.prems(1) e by (auto split: outcome.splits)
    obtain t1 s1 df1 inp1 where st: "flow_state fl = (t1, s1, df1, inp1)" by (cases "flow_state fl") auto
    have "clocks_before T ev" using Cons.prems(4) e by auto
    from do_send_round_budget [OF fl Cons.prems(2,3) this Cons.prems(5) st] obtain k where
      k: "num_sent (stats t1) = num_sent (stats t) + of_nat k"
      "k + budget (max_qps t) T s1 \<le> budget (max_qps t) T s" "max_qps t1 = max_qps t" "unat (snd_now s1) \<le> T" by blast
    show ?thesis
    proof (cases fl)
      case (Next st')
      then have "do_send_loop ssl upd cfg stop evs (t1, s1, df1, inp1) = Some (Ret (t', s', df', inp'))"
        using Cons.prems(1) False fl st e by simp
      from Cons.IH [OF this] obtain j where "num_sent (stats t') = num_sent (stats t1) + of_nat j" "j \<le> budget (max_qps t) T s1"
        using k Cons.prems by auto
      then show ?thesis using k by (intro exI [of _ "k + j"]) simp
    next
      case (Stop st')
      then show ?thesis using Cons.prems(1) False fl st e k by (intro exI [of _ k]) auto
    qed
  qed
qed simp

text \<open>
  C25.  The limit of queries per second holds over the whole run of a thread: by any time \<open>T\<close> that
  the clock has not passed, at most the limit times the number of seconds begun since the start
  have been counted as sent, whatever the clock, the sockets and the input do in between.
\<close>

theorem rate_limit_respected:
  assumes "do_send_start ssl cfg t now0 = Ret s" "0 < max_qps t"
    and "do_send_loop ssl upd cfg stop evs (t, s, df, inp) = Some (Ret (t', s', df', inp'))"
    and "unat now0 \<le> T" "\<forall>(i, ev) \<in> set evs. clocks_before T ev" "T + 1000000 < 2 ^ 64"
  shows "\<exists>k. num_sent (stats t') = num_sent (stats t) + of_nat k \<and>
    k \<le> unat (max_qps t) * ((T - unat now0) div 1000000 + 1)"
proof -
  have s: "snd_now s = now0" "q_sent s = 0" "q_slice s = now0 + MILLION"
    using assms(1) by (auto simp: do_send_start_def)
  have "unat (now0 + MILLION) = unat now0 + 1000000"
    using assms(4,6) by (subst unat_add_lem [THEN iffD1]) (simp_all add: MILLION_def)
  then have "budget (max_qps t) T s = unat (max_qps t) * ((T - unat now0) div 1000000 + 1)"
    using s by (simp add: budget_def)
  then show ?thesis using do_send_loop_budget [OF assms(3,2) _ assms(5,6)] s assms(4) by simp
qed

section \<open>The loop as steps of the system\<close>

lemma round_steps:
  assumes re: "reachable timeout \<lparr>thr = t, spc = S_idle, rpc = r, stale = n\<rparr>"
    and rd: "do_send_round ssl upd cfg ev (t, s, df, inp) = Ret fl"
  shows "case fl of
      Next (t', _) \<Rightarrow> \<exists>n'. reachable timeout \<lparr>thr = t', spc = S_idle, rpc = r, stale = n'\<rparr>
    | Stop (t', _) \<Rightarrow> \<exists>h n'. reachable timeout \<lparr>thr = t', spc = S_done h, rpc = r, stale = n'\<rparr>"
proof -
  obtain g s2 where g: "rate_gate (of_int (cfg_qps_threshold_wait cfg)) (max_qps t) (start_round ev t s) = (g, s2)"
    by fastforce
  have taken: "reachable timeout \<lparr>thr = t', spc = S_taken q, rpc = r, stale = n\<rparr>"
    if "take_query (ev_ready ev) t = Ret (Taken q sock, t')" for q sock t'
    using reachable.step [OF re step.take_ok, of "ev_ready ev" q sock t'] that by simp
  from rd g show ?thesis
  proof (cases rule: do_send_round_cases)
    case (waited w)
    then show ?thesis using re by auto
  next
    case (none r' t')
    then show ?thesis using reachable.step [OF re step.take_none, of "ev_ready ev" r' t'] by auto
  next
    case (ended q sock t' s' df' inp')
    then show ?thesis using reachable.step [OF taken step.input_end, of q sock t' q] by auto
  next
    case (failed q sock t' s' df' inp' t'')
    then show ?thesis using reachable.step [OF taken step.build_failed, of q sock t' q t''] by auto
  next
    case (sent q sock t' s' df' inp' msg d t'' s'')
    let ?t = "stamp_query q (ev_stamp ev) d t'"
    have st: "reachable timeout \<lparr>thr = ?t, spc = S_stamped q, rpc = r, stale = n\<rparr>"
      using reachable.step [OF taken [OF sent(2)] step.stamp, of q "ev_stamp ev" d] by (simp add: stamp_query_def)
    have failed: ?thesis if "query_move ?t q prepend_unused = Ret t''"
      using reachable.step [OF st step.send_failed, of q t''] that sent(6) by auto
    have counted: ?thesis if "t'' = ?t\<lparr>stats := count_sent (of_nat (length msg)) (stats ?t)\<rparr>"
      using reachable.step [OF reachable.step [OF st step.send_ok, of q "of_nat (length msg)"] step.sent, of q "of_nat (length msg)"]
        that sent(6) by auto
    show ?thesis
      using sent(5) failed counted
      by (auto simp: after_send_def split: send_result.splits if_splits)
  qed
qed

text \<open>
  C24.  The code of the sending thread, executed as one function, is a behaviour of the
  interleaved system: from a reachable state, the loop and the code after it lead to a reachable
  state in which the sender is done.
\<close>

theorem do_send_refines_steps:
  assumes "reachable timeout \<lparr>thr = t, spc = S_idle, rpc = r, stale = n\<rparr>"
    and "do_send_loop ssl upd cfg stop evs (t, s, df, inp) = Some (Ret (t', s', df', inp'))"
  shows "\<exists>h n'. reachable timeout \<lparr>thr = do_send_end now t', spc = S_done h, rpc = r, stale = n'\<rparr>"
proof -
  have "\<exists>h n'. reachable timeout \<lparr>thr = t', spc = S_done h, rpc = r, stale = n'\<rparr>"
    using assms
  proof (induction evs arbitrary: t s df inp n)
    case (Cons e evs)
    obtain i ev where e: "e = (i, ev)" by (cases e)
    show ?case
    proof (cases "i \<or> \<not> snd_now s < stop")
      case True
      then have "t' = t" using Cons.prems(2) e by auto
      moreover have "reachable timeout \<lparr>thr = t, spc = S_done None, rpc = r, stale = n\<rparr>"
        using reachable.step [OF Cons.prems(1) step.stop] by simp
      ultimately show ?thesis by blast
    next
      case False
      then obtain fl where fl: "do_send_round ssl upd cfg ev (t, s, df, inp) = Ret fl"
        using Cons.prems(2) e by (auto split: outcome.splits)
      show ?thesis
        using round_steps [OF Cons.prems(1) fl] Cons.IH Cons.prems(2) False fl e
        by (cases fl) (auto split: prod.splits)
    qed
  qed simp
  then obtain h n' where d: "reachable timeout \<lparr>thr = t', spc = S_done h, rpc = r, stale = n'\<rparr>" by blast
  have "reachable timeout \<lparr>thr = do_send_end now t', spc = S_done h, rpc = r, stale = n'\<rparr>"
    using reachable.step [OF d step.finish, of h now] by (simp add: do_send_end_def)
  then show ?thesis by blast
qed

section \<open>The messages of a run\<close>

text \<open>Successive messages, each with the identifier of its query.\<close>

fun message_run :: "'c openssl \<Rightarrow> u32 \<Rightarrow> builder option \<Rightarrow> config_t \<Rightarrow> u16 list \<Rightarrow>
    'c sender \<times> perf_datafile \<times> input \<Rightarrow> (built \<times> bytes) list outcome" where
  "message_run ssl tm upd cfg [] st = Ret []"
| "message_run ssl tm upd cfg (qid # qids) st =
    obind (build_message ssl tm upd cfg qid st) (\<lambda>(b, s, df, inp).
    obind (message_run ssl tm upd cfg qids (s, df, inp)) (\<lambda>rs.
    Ret ((b, if b = Built then perf_buffer_usedregion (send_buffer cfg s) else []) # rs)))"

definition buffers_ok :: "'c sender \<Rightarrow> bool" where
  "buffers_ok s \<longleftrightarrow> buf_wf (snd_lines s) \<and> buf_length (snd_lines s) = MAX_INPUT_DATA \<and>
    buf_wf (snd_msg s) \<and> 512 \<le> buf_length (snd_msg s)"

text \<open>A line of the input that is a question and leaves room for an OPT record in 512 bytes.\<close>

definition good_line :: "bytes \<Rightarrow> bool" where
  "good_line l \<longleftrightarrow> length l \<le> 200 \<and> question_spec (l @ [0]) \<noteq> None"

definition request_of :: "config_t \<Rightarrow> u16 \<Rightarrow> bytes \<Rightarrow> bytes" where
  "request_of cfg qid l = (case question_spec (l @ [0]) of
     Some (ls, v) \<Rightarrow> unsigned_request qid ls v (cfg_edns cfg) (cfg_dnssec cfg) (cfg_edns_option cfg)
   | None \<Rightarrow> [])"

definition plain_config :: "config_t \<Rightarrow> bool" where
  "plain_config cfg \<longleftrightarrow> cfg_input_format cfg = input_format_text_query \<and> option_wf (cfg_edns_option cfg) \<and>
    length (option_bytes (cfg_edns_option cfg)) \<le> 200"

lemma build_good_line:
  assumes cfg: "plain_config cfg" and s: "buffers_ok s" "snd_key s = None"
    and df: "perf_datafile_next df inp (perf_buffer_clear (snd_lines s)) = Ret (PERF_R_SUCCESS, df', inp, b)"
      "buf_wf b" "buf_length b = MAX_INPUT_DATA" "perf_buffer_usedregion b = text_record MAX_INPUT_DATA l"
    and l: "good_line l"
  shows "\<exists>s'. build_message ssl tm upd cfg qid (s, df, inp) = Ret (Built, s', df', inp) \<and> buffers_ok s' \<and>
    snd_key s' = None \<and> perf_buffer_usedregion (send_buffer cfg s') = request_of cfg qid l"
proof -
  let ?msg = "perf_buffer_clear (snd_msg s)"
  obtain ls v where q: "question_spec (l @ [0]) = Some (ls, v)" using l by (auto simp: good_line_def)
  have rec: "perf_buffer_usedregion b = l @ [0]"
    using df(4) l by (simp add: text_record_def MAX_INPUT_DATA_def good_line_def)
  have "length (unsigned_request qid ls v (cfg_edns cfg) (cfg_dnssec cfg) (cfg_edns_option cfg)) \<le> 12 + 260 + 211"
    using question_room [OF q] cfg
    by (auto simp: unsigned_request_def with_edns_def opt_rr_def plain_config_def)
  then have "fits ?msg (length (unsigned_request qid ls v (cfg_edns cfg) (cfg_dnssec cfg) (cfg_edns_option cfg)))"
    using s(1) by (simp add: fits_clear buffers_ok_def)
  moreover have "fits ?msg (272 + length (l @ [0]))" using l s(1) by (simp add: fits_clear buffers_ok_def good_line_def)
  moreover have "buf_wf ?msg" "buf_used ?msg = 0"
    using s(1) by (simp_all add: buffers_ok_def wf_intros) (simp add: perf_buffer_clear_def)
  moreover have "option_wf (cfg_edns_option cfg)" using cfg by (simp add: plain_config_def)
  ultimately obtain b' where b': "buf_wf b'" "buf_length b' = buf_length ?msg"
    "perf_buffer_usedregion b' = request_of cfg qid l"
    "perf_dns_buildrequest ssl tm upd (l @ [0]) qid (cfg_edns cfg) (cfg_dnssec cfg) False None (cfg_edns_option cfg) ?msg =
      Ret (PERF_R_SUCCESS, b', None)"
    using buildrequest_question [of ?msg "l @ [0]" ls v "cfg_edns_option cfg" qid "cfg_edns cfg" "cfg_dnssec cfg" ssl tm upd None] q
    by (auto simp: after_question_tsig request_of_def)
  have "build_message ssl tm upd cfg qid (s, df, inp) =
      Ret (Built, s\<lparr>snd_lines := b, snd_msg := b', snd_key := None\<rparr>, df', inp)"
    using df(1) b'(4) cfg s(2) rec by (simp add: build_message_def Let_def plain_config_def)
  moreover have "buf_length ?msg = buf_length (snd_msg s)" by (simp add: perf_buffer_clear_def)
  ultimately show ?thesis
    using b' df(2,3) s(1) cfg by (simp add: buffers_ok_def send_buffer_def plain_config_def)
qed

lemma next_spec_mem:
  assumes "next_spec m ls st0 = (r, st)" "set (snd st0) \<subseteq> set ls" "ls \<noteq> []"
  shows "set (snd st) \<subseteq> set ls \<and> (\<forall>l. r = Some l \<longrightarrow> l \<in> set ls)"
proof -
  have "set (tl ls) \<subseteq> set ls" by (cases ls) auto
  then show ?thesis using assms by (cases st0; cases "snd st0") (auto split: if_splits)
qed

lemma message_run_spec:
  assumes "held data m df" "ls = all_lines True data" "ls \<noteq> []" "0 < m" "df_nruns df \<le> m"
    and "df_read_any df \<or> all_lines True (drop (df_at df) data) \<noteq> []"
    and "plain_config cfg" "buffers_ok s" "snd_key s = None" "\<forall>l \<in> set ls. good_line l"
    and "set (snd (abs_runs df)) \<subseteq> set ls"
  shows "message_run ssl tm upd cfg qids (s, df, inp) =
    Ret (map (\<lambda>(qid, r). case r of Some l \<Rightarrow> (Built, request_of cfg qid l) | None \<Rightarrow> (Input_end, []))
      (zip qids (spec_run (length qids) (unat m) ls (abs_runs df))))"
  using assms
proof (induction qids arbitrary: df s)
  case (Cons qid qids)
  let ?b0 = "perf_buffer_clear (snd_lines s)"
  have b0: "empty_buf MAX_INPUT_DATA ?b0" using Cons.prems(8) by (simp add: buffers_ok_def empty_buf_clear)
  have N: "0 < MAX_INPUT_DATA" by (simp add: MAX_INPUT_DATA_def)
  obtain r st where sp: "next_spec (unat m) ls (abs_runs df) = (r, st)" by (meson surj_pair)
  have mem: "set (snd st) \<subseteq> set ls" "\<forall>l. r = Some l \<longrightarrow> l \<in> set ls"
    using next_spec_mem [OF sp Cons.prems(11,3)] by auto
  obtain df' b res where d: "perf_datafile_next df inp ?b0 = Ret (res, df', inp, b)" "buf_wf b" "buf_length b = MAX_INPUT_DATA"
    "held data m df'" "df_nruns df' \<le> m" "df_read_any df' \<or> all_lines True (drop (df_at df') data) \<noteq> []"
    "(res, perf_buffer_usedregion b) = emits MAX_INPUT_DATA r" "abs_runs df' = st"
    using datafile_next_refines [OF Cons.prems(1-5) N b0 Cons.prems(6), of inp] sp by auto
  have "\<exists>s'. build_message ssl tm upd cfg qid (s, df, inp) =
      Ret (case r of None \<Rightarrow> Input_end | Some _ \<Rightarrow> Built, s', df', inp) \<and> buffers_ok s' \<and> snd_key s' = None \<and>
      (\<forall>l. r = Some l \<longrightarrow> perf_buffer_usedregion (send_buffer cfg s') = request_of cfg qid l)"
  proof (cases r)
    case None
    then have "res = PERF_R_EOF" using d(7) by (simp add: emits_def)
    then show ?thesis using None d(1,2,3) Cons.prems(8,9) by (simp add: build_message_def Let_def buffers_ok_def)
  next
    case (Some l)
    then have "res = PERF_R_SUCCESS" "perf_buffer_usedregion b = text_record MAX_INPUT_DATA l"
      using d(7) by (simp_all add: emits_def)
    moreover have "good_line l" using mem(2) Some Cons.prems(10) by blast
    ultimately show ?thesis
      using build_good_line [OF Cons.prems(7,8,9), of df inp df' b l ssl tm upd qid] d(1-3) Some by auto
  qed
  then obtain s' where s': "build_message ssl tm upd cfg qid (s, df, inp) =
      Ret (case r of None \<Rightarrow> Input_end | Some _ \<Rightarrow> Built, s', df', inp)" "buffers_ok s'" "snd_key s' = None"
    "\<forall>l. r = Some l \<longrightarrow> perf_buffer_usedregion (send_buffer cfg s') = request_of cfg qid l" by blast
  have "message_run ssl tm upd cfg qids (s', df', inp) =
    Ret (map (\<lambda>(qid, r). case r of Some l \<Rightarrow> (Built, request_of cfg qid l) | None \<Rightarrow> (Input_end, []))
      (zip qids (spec_run (length qids) (unat m) ls st)))"
    using Cons.IH [OF d(4) Cons.prems(2-4) d(5,6) Cons.prems(7) s'(2,3) Cons.prems(10)] d(8) mem(1) by simp
  then show ?case using s' sp by (auto split: option.splits)
qed simp


section \<open>An example run\<close>

definition example_config :: config_t where
  "example_config = \<lparr>cfg_family = AF_UNSPEC, cfg_clients = 1, cfg_threads = 1, cfg_maxruns = 2, cfg_timelimit = 0,
     cfg_server_addr = perf_sockaddr_fromin [127, 0, 0, 1] 53, cfg_local_addr = perf_sockaddr_fromin [0, 0, 0, 0] 0,
     cfg_timeout = 5000000, cfg_bufsize = 0, cfg_edns = False, cfg_dnssec = False, cfg_tsigkey = None,
     cfg_edns_option = None, cfg_max_outstanding = 10, cfg_max_qps = 5, cfg_stats_interval = 0,
     cfg_verbose_interval_stats = False, cfg_updates = False, cfg_binary_input = False,
     cfg_input_format = input_format_text_query, cfg_verbose = False, cfg_mode = sock_udp,
     cfg_suppress = no_suppress, cfg_num_queries_per_conn = 0, cfg_latency_histogram = False, cfg_qps_threshold_wait = 50\<rparr>"

definition limited_thread :: threadinfo where
  "limited_thread = threadinfo_init False 10 5 1 1 0 (\<lambda>_. 5) 0"

definition example_sender :: "bytes sender" where
  "example_sender = \<lparr>snd_now = 1000, req_time = 1000, q_sent = 0, q_step = 200000, q_slice = 1001000,
     any_inprogress = False, socketbits = replicate SOCKETBITS 0,
     snd_lines = perf_buffer_init (replicate MAX_INPUT_DATA 0) MAX_INPUT_DATA,
     snd_msg = perf_buffer_init (replicate MAX_EDNS_PACKET 0) MAX_UDP_PACKET, snd_key = None\<rparr>"

definition example_events :: send_events where
  "example_events = \<lparr>ev_now1 = 2000, ev_busy = (\<lambda>_. False), ev_now2 = 3000, ev_ready = (\<lambda>_. is_ready), ev_time = 7,
     ev_stamp = 4000, ev_sendto = (\<lambda>_ _ msg. Sent_bytes (length msg))\<rparr>"

lemma example_lines_good:
  "\<forall>l \<in> set (all_lines True example_file). good_line l" "plain_config example_config" "buffers_ok example_sender"
  "snd_key example_sender = None" "held example_file 2 example_held"
proof -
  have "good_line (cstr ''a A'')" "good_line (cstr ''b NS'')" by code_simp+
  then show "\<forall>l \<in> set (all_lines True example_file). good_line l" by (simp add: example_lines)
  show "plain_config example_config" by (simp add: plain_config_def example_config_def option_wf_def option_bytes_def)
  show "buffers_ok example_sender"
    by (simp add: buffers_ok_def example_sender_def buf_wf_init MAX_UDP_PACKET_def MAX_EDNS_PACKET_def)
      (simp add: perf_buffer_init_def)
  show "snd_key example_sender = None" by (simp add: example_sender_def)
  show "held example_file 2 example_held" by (simp add: held_def example_held_def)
qed


lemma limited_thread_facts:
  "thread_ok limited_thread [0..<NQIDS] []" "nsocks limited_thread = 1" "stats limited_thread = cleared False"
  "max_outstanding limited_thread = 10" "max_qps limited_thread = 5"
proof -
  have "unat (per_thread 1 1 0) = 1" "unat (per_thread 10 1 0) = 10" "unat (per_thread 5 1 0) = 5"
    using unat_per_thread [of 1 0 1] unat_per_thread [of 1 0 10] unat_per_thread [of 1 0 5] by simp_all
  then have "per_thread 1 1 0 = 1" "per_thread 10 1 0 = 10" "per_thread 5 1 0 = 5"
    by (simp_all add: word_unat_eq_iff)
  then show "nsocks limited_thread = 1" "stats limited_thread = cleared False" "max_outstanding limited_thread = 10"
    "max_qps limited_thread = 5"
    by (simp_all add: limited_thread_def threadinfo_init_def Let_def MAX_SOCKETS_def NQIDS_def split_beta)
qed (simp add: limited_thread_def threadinfo_init_ok)

lemma example_loop:
  obtains t' s' df' inp' where
    "do_send_loop plain_ssl None example_config 5000000 [(False, example_events), (True, example_events)]
      (limited_thread, example_sender, example_held, example_input) = Some (Ret (t', s', df', inp'))"
    "num_sent (stats t') = 1"
proof -
  note f = limited_thread_facts and g = example_lines_good
  have "0 < NQIDS" by (simp add: NQIDS_def)
  then have split: "[0..<NQIDS] = 0 # [1..<NQIDS]" using upt_conv_Cons [of 0 NQIDS] by simp
  have "num_outstanding (stats limited_thread) < ucast (max_outstanding limited_thread)"
    by (simp add: f num_outstanding_def cleared_def)
  then obtain t sock where t: "take_query (\<lambda>_. is_ready) limited_thread = Ret (Taken 0 sock, t)" "keeps_others 0 limited_thread t"
    using take_query_ready [OF f(1) _ split, of "\<lambda>_. is_ready"] f(2) by auto
  let ?s = "example_sender\<lparr>req_time := 201000\<rparr>"
  have s: "buffers_ok ?s" "snd_key ?s = None" using g(3,4) by (simp_all add: buffers_ok_def)
  have gate: "rate_gate (of_int (cfg_qps_threshold_wait example_config)) (max_qps limited_thread)
      (start_round example_events limited_thread example_sender) = (Go, ?s)"
    by (simp add: rate_gate_def start_round_def flush_sockets_def new_slice_def f cleared_def example_sender_def Let_def)
  obtain df' b where d: "perf_datafile_next example_held example_input (perf_buffer_clear (snd_lines ?s)) =
      Ret (PERF_R_SUCCESS, df', example_input, b)" "buf_wf b" "buf_length b = MAX_INPUT_DATA"
    "perf_buffer_usedregion b = text_record MAX_INPUT_DATA (cstr ''a A'')"
  proof -
    have "empty_buf MAX_INPUT_DATA (perf_buffer_clear (snd_lines ?s))" using s(1) by (simp add: buffers_ok_def empty_buf_clear)
    moreover have "abs_runs example_held = (0, [cstr ''a A'', cstr ''b NS''])"
      using example_lines by (simp add: abs_runs_def example_held_def)
    ultimately show thesis
      using datafile_next_refines [OF g(5) refl, of MAX_INPUT_DATA "perf_buffer_clear (snd_lines ?s)" example_input] that
      by (auto simp: example_lines example_held_def emits_def MAX_INPUT_DATA_def)
  qed
  have "good_line (cstr ''a A'')" using g(1) by (simp add: example_lines)
  from build_good_line [OF g(2) s d this] obtain s' where
    s': "build_message plain_ssl 7 None example_config 0 (?s, example_held, example_input) = Ret (Built, s', df', example_input)"
    by blast
  have "\<exists>t1 s1. do_send_round plain_ssl None example_config example_events
      (limited_thread, example_sender, example_held, example_input) = Ret (Next (t1, s1, df', example_input)) \<and>
      num_sent (stats t1) = 1"
    using gate t s' f(3)
    by (simp add: do_send_round_def start_round_def Let_def example_events_def after_send_def count_sent_def
        stamp_query_def upd_query_def keeps_others_def cleared_def)
  then show thesis using that by (auto simp: example_sender_def)
qed

theorem rate_limit_respected_witness:
  "\<exists>t' s' df' inp' k. do_send_loop plain_ssl None example_config 5000000 [(False, example_events), (True, example_events)]
      (limited_thread, example_sender, example_held, example_input) = Some (Ret (t', s', df', inp')) \<and>
    num_sent (stats t') = 1 \<and> num_sent (stats t') = of_nat k \<and> k \<le> 5"
proof -
  obtain t' s' df' inp' where l: "do_send_loop plain_ssl None example_config 5000000 [(False, example_events), (True, example_events)]
      (limited_thread, example_sender, example_held, example_input) = Some (Ret (t', s', df', inp'))" "num_sent (stats t') = 1"
    by (rule example_loop)
  have s: "do_send_start plain_ssl example_config limited_thread 1000 = Ret example_sender"
    by (simp add: do_send_start_def example_config_def limited_thread_facts example_sender_def MILLION_def)
  have "num_sent (stats limited_thread) = 0" by (simp add: limited_thread_facts cleared_def)
  then show ?thesis
    using rate_limit_respected [OF s _ l(1), of 4000] l
    by (auto simp: limited_thread_facts clocks_before_def example_events_def)
qed

theorem do_send_refines_steps_witness:
  "\<exists>t h n. num_sent (stats t) = 1 \<and> reachable 10 \<lparr>thr = do_send_end 6000 t, spc = S_done h, rpc = R_idle, stale = n\<rparr>"
proof -
  obtain t' s' df' inp' where l: "do_send_loop plain_ssl None example_config 5000000 [(False, example_events), (True, example_events)]
      (limited_thread, example_sender, example_held, example_input) = Some (Ret (t', s', df', inp'))" "num_sent (stats t') = 1"
    by (rule example_loop)
  have "reachable 10 \<lparr>thr = limited_thread, spc = S_idle, rpc = R_idle, stale = 0\<rparr>"
    unfolding limited_thread_def by (rule reachable.start)
  from do_send_refines_steps [OF this l(1), of 6000] l(2) show ?thesis by blast
qed

end
