(* ===== verification/Receiver.thy ===== *)
theory Receiver
  imports Sender
begin

text \<open>
  The receiving thread (\<^verbatim>\<open>recv_one\<close> and \<^verbatim>\<open>do_recv\<close> of \<^verbatim>\<open>dnsperf.c\<close>).  What the network delivers
  in a round is given for each socket as the sequence of the results of \<^verbatim>\<open>perf_net_recv\<close>,
  each with the time read after it.
\<close>

section \<open>A batch of responses\<close>

type_synonym inbox = "nat \<Rightarrow> nat \<Rightarrow> recv_result \<times> u64"

definition recv_one :: "recv_result \<times> u64 \<Rightarrow> nat \<Rightarrow> bytes \<Rightarrow> errno option \<Rightarrow> received_query option \<times> bytes \<times> errno option" where
  "recv_one res which_sock packet err =
    (case fst res of
       Recv_error e \<Rightarrow> (None, packet, Some e)
     | Recvd n bs \<Rightarrow>
       if n = 0 then (None, packet, if err = None then Some EAGAIN else err)
       else (let packet = mem_write packet 0 bs in
        (Some \<lparr>r_sock = which_sock, r_qid = ntohs16 (packet ! 0) (packet ! 1),
           r_rcode = ntohs16 (packet ! 2) (packet ! 3) AND 0xF, r_size = of_nat n, r_when = snd res,
           r_sent = 0, r_unexpected = False, r_short = (n < 4), r_desc = None\<rparr>, packet, err)))"

text \<open>The variables of \<^verbatim>\<open>do_recv\<close> in a batch; \<open>asked s\<close> counts the calls for socket \<open>s\<close>.\<close>

record batch =
  asked :: "nat \<Rightarrow> nat"
  rbits :: bytes
  last_socket :: nat
  saved_errno :: "errno option"
  packet_buffer :: bytes

fun recv_scan :: "inbox \<Rightarrow> nat \<Rightarrow> nat list \<Rightarrow> batch \<Rightarrow> received_query option \<times> batch" where
  "recv_scan inbox n [] st = (None, st)"
| "recv_scan inbox n (j # js) st =
    (let cur = (j + last_socket st) mod n in
     if bit_check (rbits st) cur then recv_scan inbox n js st
     else case recv_one (inbox cur (asked st cur)) cur (packet_buffer st) (saved_errno st) of
       (res, packet, err) \<Rightarrow>
         let st = st\<lparr>asked := (asked st)(cur := asked st cur + 1), packet_buffer := packet, saved_errno := err\<rparr> in
         case res of
           Some r \<Rightarrow> (Some r, st\<lparr>last_socket := cur + 1\<rparr>)
         | None \<Rightarrow> recv_scan inbox n js (st\<lparr>rbits := bit_set (rbits st) cur\<rparr>))"

fun recv_batch :: "inbox \<Rightarrow> nat \<Rightarrow> nat \<Rightarrow> batch \<Rightarrow> received_query list \<times> batch" where
  "recv_batch inbox n 0 st = ([], st)"
| "recv_batch inbox n (Suc k) st =
    (case recv_scan inbox n [0..<n] st of
       (None, st) \<Rightarrow> ([], st)
     | (Some r, st) \<Rightarrow> (case recv_batch inbox n k st of (rs, st) \<Rightarrow> (r # rs, st)))"

definition batch_start :: "nat \<Rightarrow> bytes \<Rightarrow> batch" where
  "batch_start lst packet = \<lparr>asked = (\<lambda>_. 0), rbits = replicate SOCKETBITS 0, last_socket = lst,
     saved_errno = None, packet_buffer = packet\<rparr>"

section \<open>The loop\<close>

definition TIMEOUT_CHECK_TIME :: int where
  "TIMEOUT_CHECK_TIME = 100000"

record recv_events =
  rv_net :: inbox
  rv_more :: "nat \<Rightarrow> bool"
  rv_poll :: poll
  rv_now :: u64

type_synonym recv_state = "threadinfo \<times> u64 \<times> nat \<times> bytes"

definition after_batch :: "int \<Rightarrow> recv_events \<Rightarrow> u64 \<Rightarrow> received_query list \<Rightarrow> batch \<Rightarrow> threadinfo \<Rightarrow> recv_state flow outcome" where
  "after_batch pipe_fd ev now rs st t =
    (if length rs < RECV_BATCH_SIZE then
       case saved_errno st of
         Some EINTR \<Rightarrow> Ret (Next (t, now, last_socket st, packet_buffer st))
       | Some EAGAIN \<Rightarrow>
           obind (perf_os_waituntilanyreadable (rv_poll ev) (map (\<lambda>i. (socks t ! i, rv_more ev i)) [0..<nsocks t])
               pipe_fd TIMEOUT_CHECK_TIME) (\<lambda>_.
           Ret (Next (t, rv_now ev, last_socket st, packet_buffer st)))
       | _ \<Rightarrow> Exit 1
     else Ret (Next (t, now, last_socket st, packet_buffer st)))"

definition count_batch :: "received_query list \<Rightarrow> threadinfo \<Rightarrow> threadinfo" where
  "count_batch rs t =
    (let t = t\<lparr>stats := fold count_received rs (stats t)\<rparr>
     in if rs \<noteq> [] then t\<lparr>last_recv := r_when (last rs)\<rparr> else t)"

definition do_recv_round :: "int \<Rightarrow> u64 \<Rightarrow> recv_events \<Rightarrow> recv_state \<Rightarrow> recv_state flow outcome option" where
  "do_recv_round pipe_fd timeout ev = (\<lambda>(t, now, lst, packet).
    case process_timeouts timeout now t of
      None \<Rightarrow> None
    | Some out \<Rightarrow> Some (obind out (\<lambda>t.
      if done_sending t \<and> num_outstanding (stats t) = 0 then Ret (Stop (t, now, lst, packet))
      else case recv_batch (rv_net ev) (nsocks t) RECV_BATCH_SIZE (batch_start lst packet) of
        (rs, st) \<Rightarrow> obind (match_responses t rs) (\<lambda>(t, rs).
          after_batch pipe_fd ev now rs st (count_batch rs t)))))"

text \<open>
  The loop reads the flag of an interruption before each round; when the rounds given are used
  up the result is \<open>None\<close>.
\<close>

fun do_recv_loop :: "int \<Rightarrow> u64 \<Rightarrow> (bool \<times> recv_events) list \<Rightarrow> recv_state \<Rightarrow> recv_state outcome option" where
  "do_recv_loop pipe_fd timeout [] st = None"
| "do_recv_loop pipe_fd timeout ((interrupted, ev) # evs) st =
    (if interrupted then Some (Ret st)
     else case do_recv_round pipe_fd timeout ev st of
       None \<Rightarrow> None
     | Some (Ret (Next st)) \<Rightarrow> do_recv_loop pipe_fd timeout evs st
     | Some (Ret (Stop st)) \<Rightarrow> Some (Ret st)
     | Some Abort \<Rightarrow> Some Abort
     | Some (Exit n) \<Rightarrow> Some (Exit n)
     | Some UB \<Rightarrow> Some UB)"

section \<open>What a batch holds\<close>

definition is_message :: "recv_result \<Rightarrow> bool" where
  "is_message r \<longleftrightarrow> (case r of Recvd n bs \<Rightarrow> n \<noteq> 0 | Recv_error e \<Rightarrow> False)"

text \<open>The response read from a message: the identifier and the code are those of the message if it has four bytes.\<close>

definition describes :: "nat \<Rightarrow> recv_result \<times> u64 \<Rightarrow> received_query \<Rightarrow> bool" where
  "describes s res r \<longleftrightarrow>
    (\<exists>n bs. fst res = Recvd n bs \<and> n \<noteq> 0 \<and> r_sock r = s \<and> r_size r = of_nat n \<and> r_when r = snd res \<and> \<not> r_unexpected r \<and>
      (r_short r \<longleftrightarrow> n < 4) \<and> r_qid r < NQIDS \<and> r_rcode r < DNSPERF_STATS_RCODECOUNTS \<and>
      (4 \<le> length bs \<longrightarrow> r_qid r = ntohs16 (bs ! 0) (bs ! 1) \<and> r_rcode r = ntohs16 (bs ! 2) (bs ! 3) mod 16))"

lemma recv_one_message:
  assumes "recv_one res s packet err = (Some r, packet', err')"
  shows "describes s res r" "err' = err"
proof -
  obtain n bs where n: "fst res = Recvd n bs" using assms by (auto simp: recv_one_def split: recv_result.splits)
  have "mem_write packet 0 bs ! 0 = bs ! 0 \<and> mem_write packet 0 bs ! 1 = bs ! 1 \<and>
      mem_write packet 0 bs ! 2 = bs ! 2 \<and> mem_write packet 0 bs ! 3 = bs ! 3" if "4 \<le> length bs"
    using that by (auto simp: mem_write_def nth_append)
  then show "describes s res r" "err' = err"
    using assms n
    by (auto simp: recv_one_def describes_def Let_def and_0xF NQIDS_def DNSPERF_STATS_RCODECOUNTS_def split: if_splits)
qed

lemma recv_one_none:
  "recv_one res s packet err = (None, packet', err') \<Longrightarrow>
    \<not> is_message (fst res) \<and> packet' = packet \<and>
    ((\<exists>bs. fst res = Recvd 0 bs) \<and> err' = (if err = None then Some EAGAIN else err) \<or> (\<exists>e. fst res = Recv_error e \<and> err' = Some e))"
  by (auto simp: recv_one_def is_message_def Let_def split: recv_result.splits if_splits)

abbreviation from_socket :: "nat \<Rightarrow> received_query list \<Rightarrow> received_query list" where
  "from_socket s rs \<equiv> filter (\<lambda>r. r_sock r = s) rs"

text \<open>
  A batch in progress: the responses of each socket are the first messages it delivered, in
  order, and the bit of a socket is set when the next result was not a message.
\<close>

definition socket_ok :: "inbox \<Rightarrow> received_query list \<Rightarrow> batch \<Rightarrow> nat \<Rightarrow> bool" where
  "socket_ok inbox rs st s \<longleftrightarrow>
    list_all2 (describes s) (map (inbox s) [0..<length (from_socket s rs)]) (from_socket s rs) \<and>
    asked st s = length (from_socket s rs) + (if bit_check (rbits st) s then 1 else 0) \<and>
    (bit_check (rbits st) s \<longrightarrow> \<not> is_message (fst (inbox s (length (from_socket s rs)))))"

definition errno_ok :: "inbox \<Rightarrow> nat \<Rightarrow> batch \<Rightarrow> bool" where
  "errno_ok inbox n st \<longleftrightarrow>
    ((\<exists>s < n. bit_check (rbits st) s) \<longrightarrow> saved_errno st \<noteq> None) \<and>
    (\<forall>e. saved_errno st = Some e \<longrightarrow> e = EAGAIN \<or> (\<exists>s < n. \<exists>i. fst (inbox s i) = Recv_error e))"

definition batch_ok :: "inbox \<Rightarrow> nat \<Rightarrow> received_query list \<Rightarrow> batch \<Rightarrow> bool" where
  "batch_ok inbox n rs st \<longleftrightarrow> n \<le> 8 * length (rbits st) \<and> last_socket st \<le> n \<and>
    (\<forall>r \<in> set rs. r_sock r < n) \<and> (\<forall>s < n. socket_ok inbox rs st s) \<and> errno_ok inbox n st"

lemma length_bit_set [simp]: "length (bit_set bits i) = length bits"
  by (simp add: bit_set_def)

lemma batch_message:
  assumes ok: "batch_ok inbox n rs st" and cur: "cur < n" "\<not> bit_check (rbits st) cur"
    and r: "describes cur (inbox cur (asked st cur)) r"
  shows "batch_ok inbox n (rs @ [r]) (st\<lparr>asked := (asked st)(cur := asked st cur + 1), packet_buffer := p, last_socket := cur + 1\<rparr>)"
proof -
  have rs: "r_sock r = cur" using r by (auto simp: describes_def)
  have "asked st cur = length (from_socket cur rs)" using ok cur by (simp add: batch_ok_def socket_ok_def)
  then show ?thesis
    using ok cur r rs
    by (auto simp: batch_ok_def socket_ok_def errno_ok_def list_all2_append)
qed

lemma batch_none:
  assumes ok: "batch_ok inbox n rs st" and cur: "cur < n" "\<not> bit_check (rbits st) cur"
    and none: "recv_one (inbox cur (asked st cur)) cur p (saved_errno st) = (None, p', err)"
  shows "batch_ok inbox n rs
    (st\<lparr>asked := (asked st)(cur := asked st cur + 1), packet_buffer := p', saved_errno := err, rbits := bit_set (rbits st) cur\<rparr>)"
proof -
  have bits: "bit_check (bit_set (rbits st) cur) s \<longleftrightarrow> s = cur \<or> bit_check (rbits st) s" if "s < n" for s
    using ok cur that by (intro sb.chk_put) (auto simp: batch_ok_def)
  note res = recv_one_none [OF none]
  have "err \<noteq> None \<and> (\<forall>e. err = Some e \<longrightarrow> e = EAGAIN \<or> (\<exists>s < n. \<exists>i. fst (inbox s i) = Recv_error e))"
    using res ok cur(1) by (auto simp: batch_ok_def errno_ok_def split: if_splits)
  then show ?thesis
    using ok cur res by (auto simp: batch_ok_def socket_ok_def errno_ok_def bits)
qed

lemma recv_scan_ok:
  assumes "batch_ok inbox n rs st" "0 < n" "recv_scan inbox n js st = (res, st')"
  shows "case res of
      Some r \<Rightarrow> batch_ok inbox n (rs @ [r]) st'
    | None \<Rightarrow> batch_ok inbox n rs st' \<and> last_socket st' = last_socket st \<and>
        (\<forall>s < n. bit_check (rbits st) s \<longrightarrow> bit_check (rbits st') s) \<and>
        (\<forall>j \<in> set js. bit_check (rbits st') ((j + last_socket st) mod n))"
  using assms
proof (induction js arbitrary: st)
  case (Cons j js)
  let ?cur = "(j + last_socket st) mod n"
  have cur: "?cur < n" using Cons.prems(2) by simp
  show ?case
  proof (cases "bit_check (rbits st) ?cur")
    case True
    then have "recv_scan inbox n js st = (res, st')" using Cons.prems(3) by simp
    from Cons.IH [OF Cons.prems(1,2) this] show ?thesis using True cur by (auto split: option.splits)
  next
    case False
    obtain x p err where one: "recv_one (inbox ?cur (asked st ?cur)) ?cur (packet_buffer st) (saved_errno st) = (x, p, err)"
      by (cases "recv_one (inbox ?cur (asked st ?cur)) ?cur (packet_buffer st) (saved_errno st)") auto
    show ?thesis
    proof (cases x)
      case (Some r)
      note d = recv_one_message [OF one [unfolded Some]]
      have "res = Some r" "st' = st\<lparr>asked := (asked st)(?cur := asked st ?cur + 1), packet_buffer := p, last_socket := ?cur + 1\<rparr>"
        using Cons.prems(3) False one Some d(2) by (simp_all add: Let_def)
      then show ?thesis using batch_message [OF Cons.prems(1) cur False d(1)] by simp
    next
      case None
      let ?st = "st\<lparr>asked := (asked st)(?cur := asked st ?cur + 1), packet_buffer := p, saved_errno := err, rbits := bit_set (rbits st) ?cur\<rparr>"
      have ok: "batch_ok inbox n rs ?st" by (rule batch_none [OF Cons.prems(1) cur False]) (use one None in simp)
      moreover have "recv_scan inbox n js ?st = (res, st')" using Cons.prems(3) False one None by (simp add: Let_def)
      ultimately have ih: "case res of
          Some r \<Rightarrow> batch_ok inbox n (rs @ [r]) st'
        | None \<Rightarrow> batch_ok inbox n rs st' \<and> last_socket st' = last_socket ?st \<and>
            (\<forall>s < n. bit_check (rbits ?st) s \<longrightarrow> bit_check (rbits st') s) \<and>
            (\<forall>j \<in> set js. bit_check (rbits st') ((j + last_socket ?st) mod n))"
        using Cons.IH [of ?st] Cons.prems(2) by blast
      have n: "n \<le> 8 * length (rbits st)" using Cons.prems(1) by (simp add: batch_ok_def)
      have "bit_check (rbits ?st) s \<longleftrightarrow> s = ?cur \<or> bit_check (rbits st) s" if "s < n" for s
        using sb.chk_put [OF less_le_trans [OF cur n] less_le_trans [OF that n]] by simp
      then show ?thesis using ih cur by (auto split: option.splits)
    qed
  qed
qed simp

lemma all_sockets:
  fixes s n l :: nat
  assumes "s < n" "l \<le> n"
  shows "\<exists>j < n. (j + l) mod n = s"
proof (cases "l \<le> s")
  case True
  then show ?thesis using assms by (intro exI [of _ "s - l"]) auto
next
  case False
  then have "(s + n - l + l) mod n = s" using assms by simp
  then show ?thesis using assms False by (intro exI [of _ "s + n - l"]) auto
qed

lemma recv_batch_ok:
  assumes "batch_ok inbox n rs st" "0 < n" "recv_batch inbox n k st = (rs', st')"
  shows "batch_ok inbox n (rs @ rs') st' \<and> length rs' \<le> k \<and> (length rs' < k \<longrightarrow> (\<forall>s < n. bit_check (rbits st') s))"
  using assms
proof (induction k arbitrary: rs st rs' st')
  case (Suc k)
  obtain x st1 where x: "recv_scan inbox n [0..<n] st = (x, st1)" by fastforce
  note scan = recv_scan_ok [OF Suc.prems(1,2) x]
  show ?case
  proof (cases x)
    case None
    have "bit_check (rbits st1) s" if s: "s < n" for s
    proof -
      obtain j where "j < n" "(j + last_socket st) mod n = s"
        using all_sockets [of s n "last_socket st"] s Suc.prems(1) by (auto simp: batch_ok_def)
      then show ?thesis using scan None by auto
    qed
    then show ?thesis using scan Suc.prems(3) x None by simp
  next
    case (Some r)
    obtain rs1 st2 where b: "recv_batch inbox n k st1 = (rs1, st2)" by fastforce
    have "batch_ok inbox n (rs @ [r]) st1" using scan Some by simp
    from Suc.IH [OF this Suc.prems(2) b] show ?thesis using Suc.prems(3) x Some b by auto
  qed
qed simp

lemma batch_start_ok:
  assumes "n \<le> MAX_SOCKETS" "lst \<le> n"
  shows "batch_ok inbox n [] (batch_start lst packet)"
proof -
  have "\<not> bit_check (replicate SOCKETBITS 0) s" if "s < n" for s
  proof -
    have "s div 8 < SOCKETBITS" using that assms(1) by (simp add: SOCKETBITS_def MAX_SOCKETS_def)
    then show ?thesis by (simp add: bit_check_iff)
  qed
  then show ?thesis
    using assms by (simp add: batch_ok_def batch_start_def socket_ok_def errno_ok_def SOCKETBITS_def MAX_SOCKETS_def)
qed

lemma batch_received_ok:
  assumes "batch_ok inbox (nsocks t) rs st" "r \<in> set rs"
  shows "received_ok t r"
proof -
  let ?s = "r_sock r"
  have s: "?s < nsocks t" using assms by (simp add: batch_ok_def)
  then have la: "list_all2 (describes ?s) (map (inbox ?s) [0..<length (from_socket ?s rs)]) (from_socket ?s rs)"
    using assms by (simp add: batch_ok_def socket_ok_def)
  have "r \<in> set (from_socket ?s rs)" using assms(2) by simp
  then obtain i where i: "i < length (from_socket ?s rs)" "from_socket ?s rs ! i = r" unfolding in_set_conv_nth by blast
  from list_all2_nthD2 [OF la i(1), unfolded i(2)] show ?thesis using s by (auto simp: received_ok_def describes_def)
qed

lemma batch_drains:
  assumes "0 < n" "n \<le> MAX_SOCKETS" "lst \<le> n"
    and "recv_batch inbox n RECV_BATCH_SIZE (batch_start lst packet) = (rs, st)"
  shows "length rs \<le> RECV_BATCH_SIZE"
    and "\<forall>r \<in> set rs. r_sock r < n"
    and "\<forall>s < n. list_all2 (describes s) (map (inbox s) [0..<length (from_socket s rs)]) (from_socket s rs)"
    and "length rs < RECV_BATCH_SIZE \<Longrightarrow>
      (\<forall>s < n. \<not> is_message (fst (inbox s (length (from_socket s rs))))) \<and>
      (\<exists>e. saved_errno st = Some e \<and> (e = EAGAIN \<or> (\<exists>s < n. \<exists>i. fst (inbox s i) = Recv_error e)))"
proof -
  have ok: "batch_ok inbox n rs st \<and> length rs \<le> RECV_BATCH_SIZE \<and>
      (length rs < RECV_BATCH_SIZE \<longrightarrow> (\<forall>s < n. bit_check (rbits st) s))"
    using recv_batch_ok [OF batch_start_ok [OF assms(2,3)] assms(1,4)] by simp
  then show "length rs \<le> RECV_BATCH_SIZE" "\<forall>r \<in> set rs. r_sock r < n"
    "\<forall>s < n. list_all2 (describes s) (map (inbox s) [0..<length (from_socket s rs)]) (from_socket s rs)"
    by (simp_all add: batch_ok_def socket_ok_def)
  show "(\<forall>s < n. \<not> is_message (fst (inbox s (length (from_socket s rs))))) \<and>
      (\<exists>e. saved_errno st = Some e \<and> (e = EAGAIN \<or> (\<exists>s < n. \<exists>i. fst (inbox s i) = Recv_error e)))"
    if "length rs < RECV_BATCH_SIZE"
    using ok that assms(1) by (auto simp: batch_ok_def socket_ok_def errno_ok_def)
qed

text \<open>
  C31.  What one batch of the receiving thread takes from the network.  For every socket the
  responses of the batch are exactly the first messages the socket delivered, in order and none
  left out; each carries the identifier and the response code of its message.  When the batch has
  fewer than sixteen responses every socket has been read until it had nothing more, so no
  message waits while the thread goes to sleep; and the error kept is \<^verbatim>\<open>EAGAIN\<close> or one that a
  socket reported.
\<close>

theorem recv_batch_drains:
  assumes "0 < n" "n \<le> MAX_SOCKETS" "lst \<le> n"
    and "recv_batch inbox n RECV_BATCH_SIZE (batch_start lst packet) = (rs, st)"
  shows "length rs \<le> RECV_BATCH_SIZE \<and> (\<forall>r \<in> set rs. r_sock r < n) \<and>
    (\<forall>s < n. list_all2 (describes s) (map (inbox s) [0..<length (from_socket s rs)]) (from_socket s rs)) \<and>
    (length rs < RECV_BATCH_SIZE \<longrightarrow>
      (\<forall>s < n. \<not> is_message (fst (inbox s (length (from_socket s rs))))) \<and>
      (\<exists>e. saved_errno st = Some e \<and> (e = EAGAIN \<or> (\<exists>s < n. \<exists>i. fst (inbox s i) = Recv_error e))))"
  using batch_drains [OF assms] by blast

section \<open>The loop as steps\<close>

lemma match_response_keeps:
  "match_response t r = Ret (t', r') \<Longrightarrow> nsocks t' = nsocks t \<and> done_sending t' = done_sending t"
  by (cases "qlist (queries t (r_qid r))"; cases "query_move t (r_qid r) append_unused")
    (auto simp: match_response_def Let_def upd_query_def query_move_def put_list_def split_beta
      split: if_splits outcome.splits option.splits)

lemma match_responses_keeps:
  "match_responses t rs = Ret (t', rs') \<Longrightarrow> nsocks t' = nsocks t \<and> done_sending t' = done_sending t"
  by (induction rs arbitrary: t t' rs') (auto dest: match_response_keeps)

text \<open>Expiring queries at the start of a round, as steps.\<close>

lemma timeouts_steps:
  assumes "reachable timeout \<lparr>thr = t, spc = p, rpc = R_idle, stale = n\<rparr>"
  shows "\<exists>t' n'. process_timeouts timeout now t = Some (Ret t') \<and> nsocks t' = nsocks t \<and>
    reachable timeout \<lparr>thr = t', spc = p, rpc = R_idle, stale = n'\<rparr>"
proof -
  obtain us os where ok: "thread_ok t us os" using reachable_ok [OF assms] by (auto simp: system_ok_def)
  obtain t' where t': "process_timeouts timeout now t = Some (Ret t')" "nsocks t' = nsocks t"
    using process_timeouts_ok [OF ok refl, where now = now and timeout = timeout] unfolding keeps_but_stats_def by blast
  show ?thesis
  proof (cases "timeouts_check timeout now t")
    case None
    then show ?thesis using assms t' by (auto simp: process_timeouts_def)
  next
    case (Some q)
    have "reachable timeout \<lparr>thr = t, spc = p, rpc = R_expire q now, stale = n\<rparr>"
      using reachable.step [OF assms step.expire_check, of now q] Some by simp
    from reachable.step [OF this step.expire, of q now t'] show ?thesis
      using t' Some by (auto simp: process_timeouts_def)
  qed
qed

lemma count_steps:
  assumes "reachable timeout \<lparr>thr = t, spc = p, rpc = R_count rs, stale = n\<rparr>"
  shows "reachable timeout \<lparr>thr = t\<lparr>stats := fold count_received rs (stats t)\<rparr>, spc = p, rpc = R_count [], stale = n\<rparr>"
  using assms
proof (induction rs arbitrary: t)
  case (Cons r rs)
  from reachable.step [OF Cons.prems step.count, of r rs] Cons.IH show ?case by force
qed simp

lemma count_batch_steps:
  assumes "reachable timeout \<lparr>thr = t, spc = p, rpc = R_count rs, stale = n\<rparr>"
  shows "reachable timeout \<lparr>thr = count_batch rs t, spc = p, rpc = R_idle, stale = n\<rparr>"
proof -
  let ?t = "t\<lparr>stats := fold count_received rs (stats t)\<rparr>"
  have r: "reachable timeout \<lparr>thr = ?t\<lparr>last_recv := a\<rparr>, spc = p, rpc = R_idle, stale = n\<rparr>" for a
    using reachable.step [OF count_steps [OF assms] step.counted, of a] by simp
  have "?t\<lparr>last_recv := last_recv ?t\<rparr> = ?t" by simp
  then show ?thesis using r [of "r_when (last rs)"] r [of "last_recv ?t"]
    by (cases "rs = []") (simp_all add: count_batch_def Let_def)
qed

definition recv_ok :: "recv_state \<Rightarrow> bool" where
  "recv_ok = (\<lambda>(t, now, lst, packet). 0 < nsocks t \<and> nsocks t \<le> MAX_SOCKETS \<and> lst \<le> nsocks t)"

text \<open>A reason to end the program in a round: a socket reported an error, or \<^verbatim>\<open>poll\<close> failed.\<close>

definition fatal :: "threadinfo \<Rightarrow> recv_events \<Rightarrow> bool" where
  "fatal t ev \<longleftrightarrow> (\<exists>s < nsocks t. \<exists>i e. fst (rv_net ev s i) = Recv_error e \<and> e \<notin> {EINTR, EAGAIN}) \<or>
    (\<exists>fds ms e. rv_poll ev fds ms = Poll_failed e \<and> e \<noteq> EINTR)"

lemma wait_readable_cases:
  "(\<exists>r. perf_os_waituntilanyreadable poll ss fd ms = Ret r) \<or>
   perf_os_waituntilanyreadable poll ss fd ms = Exit 1 \<and> (\<exists>fds k e. poll fds k = Poll_failed e \<and> e \<noteq> EINTR)"
  by (auto simp: perf_os_waituntilanyreadable_def poll_outcome_def split: poll_result.split)

lemma after_batch_cases:
  assumes "batch_ok (rv_net ev) (nsocks t) rs st" "length rs < RECV_BATCH_SIZE \<longrightarrow> (\<forall>s < nsocks t. bit_check (rbits st) s)"
    and "0 < nsocks t" "nsocks t' = nsocks t" "length rs' = length rs"
  shows "(\<exists>now'. after_batch fd ev now rs' st t' = Ret (Next (t', now', last_socket st, packet_buffer st))) \<or>
    after_batch fd ev now rs' st t' = Exit 1 \<and> fatal t ev"
proof (cases "length rs < RECV_BATCH_SIZE")
  case True
  then obtain e where e: "saved_errno st = Some e" "e = EAGAIN \<or> (\<exists>s < nsocks t. \<exists>i. fst (rv_net ev s i) = Recv_error e)"
    using assms(1-3) by (auto simp: batch_ok_def errno_ok_def)
  show ?thesis
  proof (cases "e = EAGAIN")
    case True
    then show ?thesis
      using wait_readable_cases [of "rv_poll ev" "map (\<lambda>i. (socks t' ! i, rv_more ev i)) [0..<nsocks t']" fd TIMEOUT_CHECK_TIME]
        e(1) \<open>length rs < RECV_BATCH_SIZE\<close> assms(5)
      by (auto simp: after_batch_def fatal_def)
  next
    case False
    then show ?thesis using e True assms(5) by (cases e) (auto simp: after_batch_def fatal_def)
  qed
qed (use assms(5) in \<open>simp add: after_batch_def\<close>)

lemma do_recv_round_ok:
  assumes re: "reachable timeout \<lparr>thr = t, spc = p, rpc = R_idle, stale = n\<rparr>" and ok: "recv_ok (t, now, lst, packet)"
  shows "(\<exists>t' now' lst' packet' n'. do_recv_round fd timeout ev (t, now, lst, packet) = Some (Ret (Next (t', now', lst', packet'))) \<and>
      reachable timeout \<lparr>thr = t', spc = p, rpc = R_idle, stale = n'\<rparr> \<and> recv_ok (t', now', lst', packet') \<and> nsocks t' = nsocks t) \<or>
    (\<exists>t' now' lst' packet' n'. do_recv_round fd timeout ev (t, now, lst, packet) = Some (Ret (Stop (t', now', lst', packet'))) \<and>
      reachable timeout \<lparr>thr = t', spc = p, rpc = R_idle, stale = n'\<rparr> \<and> done_sending t' \<and> num_outstanding (stats t') = 0) \<or>
    do_recv_round fd timeout ev (t, now, lst, packet) = Some (Exit 1) \<and> fatal t ev"
proof -
  obtain t1 n1 where t1: "process_timeouts timeout now t = Some (Ret t1)" "nsocks t1 = nsocks t"
    "reachable timeout \<lparr>thr = t1, spc = p, rpc = R_idle, stale = n1\<rparr>"
    using timeouts_steps [OF re] by blast
  show ?thesis
  proof (cases "done_sending t1 \<and> num_outstanding (stats t1) = 0")
    case True
    then show ?thesis using t1 by (auto simp: do_recv_round_def)
  next
    case False
    obtain rs st where b: "recv_batch (rv_net ev) (nsocks t1) RECV_BATCH_SIZE (batch_start lst packet) = (rs, st)" by fastforce
    have n: "0 < nsocks t1" "nsocks t1 \<le> MAX_SOCKETS" "lst \<le> nsocks t1" using ok t1(2) by (simp_all add: recv_ok_def)
    have bok: "batch_ok (rv_net ev) (nsocks t1) rs st" "length rs \<le> RECV_BATCH_SIZE"
      "length rs < RECV_BATCH_SIZE \<longrightarrow> (\<forall>s < nsocks t1. bit_check (rbits st) s)"
      using recv_batch_ok [OF batch_start_ok [OF n(2,3)] n(1) b] by simp_all
    have rok: "\<forall>r \<in> set rs. received_ok t1 r" using batch_received_ok [OF bok(1)] by simp
    obtain us os where "thread_ok t1 us os" using reachable_ok [OF t1(3)] by (auto simp: system_ok_def)
    from match_responses_ok [OF this rok] obtain t2 rs' where
      m: "match_responses t1 rs = Ret (t2, rs')" "length rs' = length rs" by blast
    have "reachable timeout \<lparr>thr = t2, spc = p, rpc = R_count rs', stale = n1\<rparr>"
      using reachable.step [OF t1(3) step.receive, of rs t2 rs'] bok(2) rok m(1) by simp
    note re' = count_batch_steps [OF this]
    let ?t = "count_batch rs' t2"
    have ns: "nsocks ?t = nsocks t1" using match_responses_keeps [OF m(1)] by (simp add: count_batch_def Let_def)
    have round: "do_recv_round fd timeout ev (t, now, lst, packet) = Some (after_batch fd ev now rs' st ?t)"
      using t1(1) False b m(1) by (auto simp: do_recv_round_def)
    have "recv_ok (?t, now', last_socket st, packet_buffer st)" for now'
      using bok(1) ok t1(2) ns by (simp add: recv_ok_def batch_ok_def)
    moreover have "fatal t1 ev \<longleftrightarrow> fatal t ev" using t1(2) by (simp add: fatal_def)
    ultimately show ?thesis
      using after_batch_cases [OF bok(1,3) n(1) ns m(2), of fd now] round re' ns t1(2) by auto
  qed
qed

text \<open>
  C30.  The code of the receiving thread, executed as one function, is a behaviour of the
  interleaved system, whatever the sender is doing: from a reachable state every sequence of
  rounds either is not finished, or ends in a reachable state, or ends the program, and the last
  only because a socket reported an error other than \<^verbatim>\<open>EAGAIN\<close> and \<^verbatim>\<open>EINTR\<close> or \<^verbatim>\<open>poll\<close> failed.
  No assertion fails on the way.  A loop that ends by itself has seen the sender finish and no
  query outstanding.
\<close>

theorem do_recv_refines_steps:
  assumes "reachable timeout \<lparr>thr = t, spc = p, rpc = R_idle, stale = n\<rparr>" "recv_ok (t, now, lst, packet)"
  shows "case do_recv_loop fd timeout evs (t, now, lst, packet) of
      None \<Rightarrow> True
    | Some (Ret (t', _)) \<Rightarrow> (\<exists>n'. reachable timeout \<lparr>thr = t', spc = p, rpc = R_idle, stale = n'\<rparr>) \<and>
        ((\<exists>ev. (True, ev) \<in> set evs) \<or> done_sending t' \<and> num_outstanding (stats t') = 0)
    | Some (Exit k) \<Rightarrow> k = 1 \<and> (\<exists>(i, ev) \<in> set evs. fatal t ev)
    | Some Abort \<Rightarrow> False
    | Some UB \<Rightarrow> False"
  using assms
proof (induction evs arbitrary: t n now lst packet)
  case (Cons e evs)
  obtain i ev where e: "e = (i, ev)" by (cases e)
  show ?case
  proof (cases i)
    case False
    have f: "fatal t' ev' \<longleftrightarrow> fatal t ev'" if "nsocks t' = nsocks t" for t' ev' using that by (simp add: fatal_def)
    from do_recv_round_ok [OF Cons.prems, of fd ev] consider
      (nxt) t' now' lst' packet' n' where "do_recv_round fd timeout ev (t, now, lst, packet) = Some (Ret (Next (t', now', lst', packet')))"
        "reachable timeout \<lparr>thr = t', spc = p, rpc = R_idle, stale = n'\<rparr>" "recv_ok (t', now', lst', packet')" "nsocks t' = nsocks t"
      | (stop) t' now' lst' packet' n' where "do_recv_round fd timeout ev (t, now, lst, packet) = Some (Ret (Stop (t', now', lst', packet')))"
        "reachable timeout \<lparr>thr = t', spc = p, rpc = R_idle, stale = n'\<rparr>" "done_sending t'" "num_outstanding (stats t') = 0"
      | (err) "do_recv_round fd timeout ev (t, now, lst, packet) = Some (Exit 1)" "fatal t ev"
      by blast
    then show ?thesis
    proof cases
      case nxt
      then show ?thesis using Cons.IH [OF nxt(2,3)] e False f [OF nxt(4)] by (auto split: option.splits outcome.splits)
    qed (use e False in auto)
  qed (use Cons.prems(1) e in auto)
qed simp

section \<open>Answers find their queries\<close>

lemma request_id:
  assumes "good_line l" "q < NQIDS" "4 \<le> length bs" "take 2 bs = take 2 (request_of cfg (of_nat q) l)"
  shows "ntohs16 (bs ! 0) (bs ! 1) = q"
proof -
  obtain ls v where "question_spec (l @ [0]) = Some (ls, v)" using assms(1) by (auto simp: good_line_def)
  then have t: "take 2 bs = be16 (of_nat q)"
    using assms(4) by (simp add: request_of_def unsigned_request_def dns_header_def be16_def)
  have "bs ! i = take 2 bs ! i" if "i < 2" for i using that by simp
  from this [of 0] this [of 1] show ?thesis
    using ntohs16_be16 [of q] assms(2) by (simp add: t NQIDS_def)
qed


section \<open>Examples\<close>

definition example_inbox :: inbox where
  "example_inbox s i =
    (if s = 0 \<and> i = 0 then (Recvd 12 [0, 0, 129, 128, 0, 1, 0, 0, 0, 0, 0, 0], 9) else (Recv_error EAGAIN, 9))"

theorem recv_batch_drains_witness:
  "\<exists>rs st. recv_batch example_inbox 2 RECV_BATCH_SIZE (batch_start 1 (replicate 12 0)) = (rs, st) \<and>
    map r_sock rs = [0] \<and> map r_qid rs = [0] \<and>
    (\<forall>s < 2. \<not> is_message (fst (example_inbox s (length (from_socket s rs)))))"
proof -
  obtain rs st where b: "recv_batch example_inbox 2 RECV_BATCH_SIZE (batch_start 1 (replicate 12 0)) = (rs, st)" by fastforce
  have n: "0 < (2::nat)" "2 \<le> MAX_SOCKETS" "1 \<le> (2::nat)" by (simp_all add: MAX_SOCKETS_def)
  have d: "length rs \<le> RECV_BATCH_SIZE" "\<forall>r \<in> set rs. r_sock r < 2"
    "\<forall>s < 2. list_all2 (describes s) (map (example_inbox s) [0..<length (from_socket s rs)]) (from_socket s rs)"
    "length rs < RECV_BATCH_SIZE \<Longrightarrow> \<forall>s < 2. \<not> is_message (fst (example_inbox s (length (from_socket s rs))))"
    using recv_batch_drains [OF n b] by blast+
  have la: "list_all2 (describes 0) (map (example_inbox 0) [0..<length (from_socket 0 rs)]) (from_socket 0 rs)"
    "list_all2 (describes 1) (map (example_inbox 1) [0..<length (from_socket 1 rs)]) (from_socket 1 rs)"
    using d(3) by simp_all
  have l1: "from_socket 1 rs = []"
    using list_all2_nthD2 [OF la(2), of 0] by (cases "from_socket 1 rs") (auto simp: describes_def example_inbox_def)
  have l0: "length (from_socket 0 rs) \<le> 1"
    by (rule ccontr) (use list_all2_nthD2 [OF la(1), of 1] in \<open>auto simp: describes_def example_inbox_def\<close>)
  have rs: "rs = from_socket 0 rs" using d(2) l1 by (auto simp: filter_empty_conv less_2_cases_iff intro!: filter_True [symmetric])
  have short: "length rs < RECV_BATCH_SIZE" using l0 arg_cong [OF rs, of length] by (simp add: RECV_BATCH_SIZE_def)
  have "\<not> is_message (fst (example_inbox 0 (length (from_socket 0 rs))))" using d(4) [OF short] by simp
  then have "length (from_socket 0 rs) \<noteq> 0" by (auto simp: example_inbox_def is_message_def)
  then obtain r where r: "from_socket 0 rs = [r]" using l0 by (cases "from_socket 0 rs") auto
  then have "describes 0 (example_inbox 0 0) r" using la(1) by simp
  then have "r_sock r = 0" "r_qid r = 0" by (auto simp: describes_def example_inbox_def ntohs16_def)
  moreover have "rs = [r]" using rs r by simp
  ultimately show ?thesis using b d(4) [OF short] by auto
qed

definition quiet_events :: recv_events where
  "quiet_events = \<lparr>rv_net = example_inbox, rv_more = (\<lambda>_. False), rv_poll = (\<lambda>_ _. Poll_timeout), rv_now = 12\<rparr>"

theorem do_recv_refines_steps_witness:
  "\<exists>s t' rest n. reachable 10 s \<and> num_outstanding (stats (thr s)) = 1 \<and>
    do_recv_loop 3 10 [(False, quiet_events), (True, quiet_events)] (thr s, 8, 0, replicate 12 0) = Some (Ret (t', rest)) \<and>
    reachable 10 \<lparr>thr = t', spc = S_done None, rpc = R_idle, stale = n\<rparr>"
proof -
  obtain s where s: "reachable 10 s" "spc s = S_done None" "rpc s = R_idle" "stale s = 0"
    "stats (thr s) = count_sent 30 (cleared False)" "nsocks (thr s) = 1" using example_sent by blast
  then have ok: "recv_ok (thr s, 8, 0, replicate 12 0)" by (simp add: recv_ok_def MAX_SOCKETS_def)
  have re: "reachable 10 \<lparr>thr = thr s, spc = S_done None, rpc = R_idle, stale = 0\<rparr>" using s(1-4) by (cases s) simp
  have nf: "\<not> fatal t quiet_events" for t by (simp add: fatal_def quiet_events_def example_inbox_def)
  have "\<exists>st. do_recv_loop 3 10 [(False, quiet_events), (True, quiet_events)] (thr s, 8, 0, replicate 12 0) = Some (Ret st)"
    using do_recv_round_ok [OF re ok, of 3 quiet_events] nf by auto
  then obtain t' rest where l: "do_recv_loop 3 10 [(False, quiet_events), (True, quiet_events)] (thr s, 8, 0, replicate 12 0) = Some (Ret (t', rest))"
    by fastforce
  have "\<exists>n. reachable 10 \<lparr>thr = t', spc = S_done None, rpc = R_idle, stale = n\<rparr>"
    using do_recv_refines_steps [OF re ok, of "[(False, quiet_events), (True, quiet_events)]" 3] unfolding l by simp
  moreover have "num_outstanding (stats (thr s)) = 1" using s(5) by (simp add: num_outstanding_def cleared_def count_sent_def)
  ultimately show ?thesis using s(1) l by blast
qed


end
