(* ===== verification/Framing.thy ===== *)
theory Framing
  imports Stats Os "HOL-Library.Sublist"
begin

text \<open>
  DNS messages in a stream of bytes, each with its length in two bytes in front: what
  \<^verbatim>\<open>net_tcp.c\<close> and \<^verbatim>\<open>net_dot.c\<close> have in common.  The first part is the reading of messages from
  a buffer that is filled in pieces; the second is what a connection carries when messages are
  written to it in pieces.
\<close>

definition TCP_RECV_BUF_SIZE :: nat where
  "TCP_RECV_BUF_SIZE = 65535 + 2"

definition TCP_SEND_BUF_SIZE :: nat where
  "TCP_SEND_BUF_SIZE = 65535 + 2"

section \<open>The buffer of received bytes\<close>

text \<open>
  The first message of a buffer \<open>buf\<close> with \<open>n\<close> bytes in it, if it is complete: what is returned
  for an area of \<open>len\<close> bytes, the buffer and the bytes left, and whether another message follows.
\<close>

definition deliver :: "nat \<Rightarrow> bytes \<Rightarrow> nat \<Rightarrow> (recv_result \<times> bytes \<times> nat \<times> bool) option" where
  "deliver len buf n =
    (let dnslen = ntohs16 (buf ! 0) (buf ! 1) in
     if n < dnslen + 2 then None
     else let out = take (if len < dnslen then len else dnslen) (drop 2 buf);
              n = n - (2 + dnslen);
              buf = mem_write buf 0 (take n (drop (2 + dnslen) buf));
              dnslen2 = ntohs16 (buf ! 0) (buf ! 1)
          in Some (Recvd dnslen out, buf, n, n > 2 \<and> n \<ge> dnslen2 + 2))"

text \<open>
  The operations of a reader: the bytes in its buffer, whether it holds another message, a call
  that takes the next message from the buffer, and one that gets a piece of the stream first.
\<close>

record 's reader =
  rd_at :: "'s \<Rightarrow> nat"
  rd_more :: "'s \<Rightarrow> bool"
  rd_next :: "nat \<Rightarrow> 's \<Rightarrow> recv_result \<times> 's"
  rd_piece :: "bytes \<Rightarrow> nat \<Rightarrow> 's \<Rightarrow> recv_result \<times> 's"

text \<open>
  The calls that follow a piece of the stream: while the buffer holds another message the
  operating system is not asked.
\<close>

fun drain_more :: "'s reader \<Rightarrow> nat \<Rightarrow> nat \<Rightarrow> 's \<Rightarrow> recv_result list \<times> 's" where
  "drain_more rd 0 len s = ([], s)"
| "drain_more rd (Suc k) len s =
    (if rd_more rd s then
       case rd_next rd len s of (r, s) \<Rightarrow>
       case drain_more rd k len s of (rs, s) \<Rightarrow> (r # rs, s)
     else ([], s))"

text \<open>
  A stream read in pieces: the operating system returns at least one byte and not more than
  there is room for, the sizes being otherwise arbitrary.
\<close>

fun recv_stream :: "'s reader \<Rightarrow> nat \<Rightarrow> nat list \<Rightarrow> 's \<Rightarrow> bytes \<Rightarrow> recv_result list \<times> 's \<times> bytes" where
  "recv_stream rd len [] s stream = ([], s, stream)"
| "recv_stream rd len (k # ks) s stream =
    (if stream = [] then ([], s, [])
     else let n = min (Suc k) (TCP_RECV_BUF_SIZE - rd_at rd s) in
       case rd_piece rd (take n stream) len s of (r, s) \<Rightarrow>
       case drain_more rd (rd_at rd s) len s of (rs, s) \<Rightarrow>
       case recv_stream rd len ks s (drop n stream) of (rs', s, rest) \<Rightarrow> (r # rs @ rs', s, rest))"

section \<open>Frames\<close>

definition frame :: "bytes \<Rightarrow> bytes" where
  "frame m = be16 (of_nat (length m)) @ m"

definition frame_length :: "bytes \<Rightarrow> nat" where
  "frame_length bs = ntohs16 (bs ! 0) (bs ! 1) + 2"

text \<open>A complete message at the front of a stream, once a third byte has arrived.\<close>

definition complete :: "bytes \<Rightarrow> bool" where
  "complete bs \<longleftrightarrow> 3 \<le> length bs \<and> frame_length bs \<le> length bs"

function frames :: "bytes \<Rightarrow> bytes list" where
  "frames bs = (if complete bs then drop 2 (take (frame_length bs) bs) # frames (drop (frame_length bs) bs) else [])"
  by pat_completeness auto
termination by (relation "measure length") (auto simp: complete_def frame_length_def)

declare frames.simps [simp del]

function unframed :: "bytes \<Rightarrow> bytes" where
  "unframed bs = (if complete bs then unframed (drop (frame_length bs) bs) else bs)"
  by pat_completeness auto
termination by (relation "measure length") (auto simp: complete_def frame_length_def)

declare unframed.simps [simp del]

lemma incomplete [simp]: "\<not> complete bs \<Longrightarrow> frames bs = []" "\<not> complete bs \<Longrightarrow> unframed bs = bs"
  by (simp_all add: frames.simps [of bs] unframed.simps [of bs])

lemma complete_append:
  assumes "complete bs"
  shows "complete (bs @ cs)" "frame_length (bs @ cs) = frame_length bs"
    "take (frame_length bs) (bs @ cs) = take (frame_length bs) bs"
    "drop (frame_length bs) (bs @ cs) = drop (frame_length bs) bs @ cs"
proof -
  have l: "3 \<le> length bs" "frame_length bs \<le> length bs" using assms by (simp_all add: complete_def)
  then show "frame_length (bs @ cs) = frame_length bs" by (auto simp: frame_length_def nth_append)
  then show "complete (bs @ cs)" using l by (simp add: complete_def)
  show "take (frame_length bs) (bs @ cs) = take (frame_length bs) bs"
    "drop (frame_length bs) (bs @ cs) = drop (frame_length bs) bs @ cs"
    using l(2) by simp_all
qed

lemma frames_append:
  "frames (bs @ cs) = frames bs @ frames (unframed bs @ cs) \<and> unframed (bs @ cs) = unframed (unframed bs @ cs)"
proof (induction bs rule: frames.induct)
  case (1 bs)
  show ?case
  proof (cases "complete bs")
    case True
    note c = complete_append [OF True, of cs]
    have "frame_length bs \<le> length bs" using True by (simp add: complete_def)
    then have f: "frames (bs @ cs) = drop 2 (take (frame_length bs) bs) # frames (drop (frame_length bs) bs @ cs)"
      "unframed (bs @ cs) = unframed (drop (frame_length bs) bs @ cs)"
      using c by (simp_all add: frames.simps [of "bs @ cs"] unframed.simps [of "bs @ cs"])
    have "frames bs = drop 2 (take (frame_length bs) bs) # frames (drop (frame_length bs) bs)"
      "unframed bs = unframed (drop (frame_length bs) bs)"
      using True by (simp_all add: frames.simps [of bs] unframed.simps [of bs])
    then show ?thesis using 1 [OF True] f by simp
  qed (simp add: frames.simps [of bs] unframed.simps [of bs])
qed

text \<open>Messages put into frames are found again, when something follows.\<close>

lemma frame_found:
  assumes "length m < 65536" "bs \<noteq> [] \<or> m \<noteq> []"
  shows "complete (frame m @ bs)" "frame_length (frame m @ bs) = length (frame m)"
proof -
  have "frame_length (frame m @ bs) = length m + 2"
    using ntohs16_be16 [of "length m"] assms(1) by (simp add: frame_length_def frame_def be16_def)
  then show "frame_length (frame m @ bs) = length (frame m)" "complete (frame m @ bs)"
    using assms(2) by (auto simp: complete_def frame_def Suc_le_eq)
qed

lemma frames_frames:
  assumes "\<forall>m \<in> set ms. 0 < length m \<and> length m < 65536"
  shows "frames (concat (map frame ms)) = ms \<and> unframed (concat (map frame ms)) = []"
  using assms
proof (induction ms)
  case Nil
  then show ?case by (simp add: frames.simps [of "[]"] unframed.simps [of "[]"] complete_def)
next
  case (Cons m ms)
  let ?bs = "concat (map frame ms)"
  have "complete (frame m @ ?bs)" "frame_length (frame m @ ?bs) = length (frame m)"
    using frame_found [of m ?bs] Cons.prems by auto
  then show ?case
    using Cons by (simp add: frames.simps [of "frame m @ ?bs"] unframed.simps [of "frame m @ ?bs"]) (simp add: frame_def)
qed

lemma frame_length_take: "2 \<le> n \<Longrightarrow> frame_length (take n bs) = frame_length bs"
  by (simp add: frame_length_def)

lemma take_memmove:
  "n + k \<le> length m \<Longrightarrow> take k (mem_write m 0 (take k (drop n m))) = take k (drop n m)"
  by (auto simp: mem_write_def min_def)

lemma ntohs16_le: "ntohs16 a b \<le> 65535"
  by (rule less_Suc_eq_le [THEN iffD1]) simp

definition msg_result :: "nat \<Rightarrow> bytes \<Rightarrow> recv_result" where
  "msg_result len m = Recvd (length m) (take len m)"

lemma complete_full:
  "length bs = TCP_RECV_BUF_SIZE \<Longrightarrow> complete bs"
  using ntohs16_le by (simp add: complete_def frame_length_def TCP_RECV_BUF_SIZE_def)

lemma deliver_ok:
  assumes "length buf = TCP_RECV_BUF_SIZE" "n \<le> TCP_RECV_BUF_SIZE" "3 \<le> n" "b = take n buf"
  shows "if complete b
    then \<exists>buf' n'. deliver len buf n = Some (msg_result len (drop 2 (take (frame_length b) b)), buf', n', complete (take n' buf')) \<and>
      length buf' = TCP_RECV_BUF_SIZE \<and> n' \<le> TCP_RECV_BUF_SIZE \<and> take n' buf' = drop (frame_length b) b
    else deliver len buf n = None"
proof (cases "complete b")
  case False
  have "length b = n" "frame_length b = frame_length buf" using assms by (simp_all add: frame_length_take)
  then show ?thesis using False assms(3) by (auto simp: complete_def deliver_def Let_def frame_length_def)
next
  case True
  let ?n = "ntohs16 (buf ! 0) (buf ! 1)"
  have len: "length b = n" using assms(1,2,4) by simp
  have fl: "frame_length b = ?n + 2" using assms(3,4) by (simp add: frame_length_take) (simp add: frame_length_def)
  have le: "?n + 2 \<le> n" using True by (simp add: complete_def fl len)
  let ?at = "n - (2 + ?n)"
  let ?buf = "mem_write buf 0 (take ?at (drop (2 + ?n) buf))"
  have t: "take ?at ?buf = take ?at (drop (2 + ?n) buf)" by (rule take_memmove) (use assms(1,2) le in linarith)
  have b: "take ?at ?buf = drop (frame_length b) b" using t fl assms(4) by (simp add: drop_take add.commute)
  have l: "length ?buf = TCP_RECV_BUF_SIZE" using assms(1,2) by simp
  have "(?at > 2 \<and> ?at \<ge> ntohs16 (?buf ! 0) (?buf ! 1) + 2) \<longleftrightarrow> complete (take ?at ?buf)"
  proof (cases "3 \<le> ?at")
    case True
    have "frame_length (take ?at ?buf) = frame_length ?buf" using True by (simp add: frame_length_take)
    then show ?thesis using True l assms(2) by (auto simp: complete_def frame_length_def)
  qed (auto simp: complete_def)
  moreover have "drop 2 (take (?n + 2) b) = take ?n (drop 2 buf)" using le assms(4) by (simp add: drop_take min_def)
  moreover have "length (take ?n (drop 2 buf)) = ?n" using le assms(1,2) by simp
  ultimately have "deliver len buf n = Some (msg_result len (drop 2 (take (frame_length b) b)), ?buf, ?at, complete (take ?at ?buf))"
    using le by (simp add: deliver_def Let_def msg_result_def fl min_def)
  then show ?thesis using True b l assms(2) by force
qed

section \<open>Reading messages\<close>

text \<open>
  What a reader promises.  \<open>content\<close> are the bytes in its buffer; the next message is taken from
  its front, and a piece of the stream is put at its end.
\<close>

locale message_reader =
  fixes rd :: "'s reader"
    and ok :: "'s \<Rightarrow> bool"
    and content :: "'s \<Rightarrow> bytes"
  assumes at_content: "ok s \<Longrightarrow> rd_at rd s = length (content s) \<and> length (content s) \<le> TCP_RECV_BUF_SIZE"
    and more_complete: "ok s \<Longrightarrow> rd_more rd s \<longleftrightarrow> complete (content s)"
    and next_ok: "ok s \<Longrightarrow> complete (content s) \<Longrightarrow>
      \<exists>s'. rd_next rd len s = (msg_result len (drop 2 (take (frame_length (content s)) (content s))), s') \<and>
        ok s' \<and> content s' = drop (frame_length (content s)) (content s)"
    and piece_ok: "ok s \<Longrightarrow> \<not> complete (content s) \<Longrightarrow> bs \<noteq> [] \<Longrightarrow> length (content s @ bs) \<le> TCP_RECV_BUF_SIZE \<Longrightarrow>
      \<exists>s'. ok s' \<and> (if complete (content s @ bs)
        then rd_piece rd bs len s = (msg_result len (drop 2 (take (frame_length (content s @ bs)) (content s @ bs))), s') \<and>
          content s' = drop (frame_length (content s @ bs)) (content s @ bs)
        else rd_piece rd bs len s = (Recv_error EAGAIN, s') \<and> content s' = content s @ bs)"
begin

text \<open>There is always room for another byte when the buffer holds no complete message.\<close>

lemma room:
  assumes "ok s" "\<not> rd_more rd s"
  shows "rd_at rd s < TCP_RECV_BUF_SIZE"
  using assms complete_full [of "content s"] at_content [of s] more_complete [of s] by (cases "length (content s) = TCP_RECV_BUF_SIZE") auto

lemma drain_ok:
  assumes "ok s" "rd_at rd s \<le> k"
  shows "\<exists>s'. drain_more rd k len s = (map (msg_result len) (frames (content s)), s') \<and>
    ok s' \<and> content s' = unframed (content s) \<and> \<not> rd_more rd s'"
  using assms
proof (induction k arbitrary: s)
  case 0
  then have "\<not> complete (content s)" using at_content [of s] by (simp add: complete_def)
  then show ?case using 0 more_complete [of s] by simp
next
  case (Suc k)
  let ?b = "content s"
  show ?case
  proof (cases "complete ?b")
    case True
    obtain s1 where d: "rd_next rd len s = (msg_result len (drop 2 (take (frame_length ?b) ?b)), s1)"
      "ok s1" "content s1 = drop (frame_length ?b) ?b"
      using next_ok [OF Suc.prems(1) True] by blast
    have "rd_at rd s1 = rd_at rd s - frame_length ?b" "0 < frame_length ?b"
      using at_content [OF d(2)] at_content [OF Suc.prems(1)] d(3) by (simp_all add: frame_length_def)
    then have "rd_at rd s1 \<le> k" using Suc.prems(2) by linarith
    from Suc.IH [OF d(2) this] obtain s2 where "drain_more rd k len s1 = (map (msg_result len) (frames (content s1)), s2)"
      "ok s2" "content s2 = unframed (content s1)" "\<not> rd_more rd s2" by blast
    then show ?thesis
      using more_complete [OF Suc.prems(1)] d True by (simp add: frames.simps [of ?b] unframed.simps [of ?b])
  qed (use Suc.prems(1) more_complete in simp)
qed

text \<open>One piece of the stream and what follows from it.\<close>

lemma recv_piece:
  assumes "ok s" "\<not> rd_more rd s" "bs \<noteq> []" "rd_at rd s + length bs \<le> TCP_RECV_BUF_SIZE"
  shows "\<exists>r s1 rs s2. rd_piece rd bs len s = (r, s1) \<and> drain_more rd (rd_at rd s1) len s1 = (rs, s2) \<and>
    filter (\<lambda>r. r \<noteq> Recv_error EAGAIN) (r # rs) = map (msg_result len) (frames (content s @ bs)) \<and>
    ok s2 \<and> \<not> rd_more rd s2 \<and> content s2 = unframed (content s @ bs)"
proof -
  let ?b = "content s @ bs"
  have msgs: "filter (\<lambda>r. r \<noteq> Recv_error EAGAIN) (map (msg_result len) ms) = map (msg_result len) ms" for ms
    by (simp add: filter_map comp_def msg_result_def)
  have "length ?b \<le> TCP_RECV_BUF_SIZE" using assms(1,4) at_content [of s] by simp
  then obtain s1 where s1: "ok s1" "if complete ?b
      then rd_piece rd bs len s = (msg_result len (drop 2 (take (frame_length ?b) ?b)), s1) \<and> content s1 = drop (frame_length ?b) ?b
      else rd_piece rd bs len s = (Recv_error EAGAIN, s1) \<and> content s1 = ?b"
    using piece_ok [OF assms(1) _ assms(3)] more_complete [OF assms(1)] assms(2) by blast
  obtain s2 where e: "drain_more rd (rd_at rd s1) len s1 = (map (msg_result len) (frames (content s1)), s2)"
    "ok s2" "content s2 = unframed (content s1)" "\<not> rd_more rd s2"
    using drain_ok [OF s1(1) order_refl] by blast
  show ?thesis
  proof (cases "complete ?b")
    case True
    then have "frames ?b = drop 2 (take (frame_length ?b) ?b) # frames (content s1)" "unframed ?b = unframed (content s1)"
      using s1(2) by (simp_all add: frames.simps [of ?b] unframed.simps [of ?b])
    then show ?thesis using True s1(2) e msgs [of "frames ?b"] by auto
  qed (use s1(2) e msgs in auto)
qed

lemma recv_stream_ok:
  assumes "ok s" "\<not> rd_more rd s" "recv_stream rd len ks s stream = (rs, s', rest)"
  shows "\<exists>bs. stream = bs @ rest \<and> (length stream \<le> length ks \<longrightarrow> rest = []) \<and>
    filter (\<lambda>r. r \<noteq> Recv_error EAGAIN) rs = map (msg_result len) (frames (content s @ bs)) \<and>
    ok s' \<and> \<not> rd_more rd s' \<and> content s' = unframed (content s @ bs)"
  using assms
proof (induction ks arbitrary: s stream rs rest s')
  case Nil
  then show ?case using more_complete [of s] by simp
next
  case (Cons k ks)
  show ?case
  proof (cases "stream = []")
    case True
    then show ?thesis using Cons.prems more_complete [of s] by simp
  next
    case False
    define n where "n = min (Suc k) (TCP_RECV_BUF_SIZE - rd_at rd s)"
    have n: "0 < n" "rd_at rd s + n \<le> TCP_RECV_BUF_SIZE" using room [OF Cons.prems(1,2)] by (auto simp: n_def)
    let ?bs = "take n stream"
    have piece: "?bs \<noteq> []" "rd_at rd s + length ?bs \<le> TCP_RECV_BUF_SIZE" using False n by auto
    obtain r s1 rs1 s2 where p: "rd_piece rd ?bs len s = (r, s1)" "drain_more rd (rd_at rd s1) len s1 = (rs1, s2)"
      "filter (\<lambda>r. r \<noteq> Recv_error EAGAIN) (r # rs1) = map (msg_result len) (frames (content s @ ?bs))"
      "ok s2" "\<not> rd_more rd s2" "content s2 = unframed (content s @ ?bs)"
      using recv_piece [OF Cons.prems(1,2) piece, of len] by blast
    obtain rs2 s3 rest2 where rec: "recv_stream rd len ks s2 (drop n stream) = (rs2, s3, rest2)" using prod_cases3 by blast
    have eq: "rs = r # rs1 @ rs2" "s' = s3" "rest = rest2"
      using Cons.prems(3) False p(1,2) rec by (simp_all add: n_def [symmetric] Let_def)
    from Cons.IH [OF p(4,5) rec] obtain cs where cs: "drop n stream = cs @ rest2" "length (drop n stream) \<le> length ks \<longrightarrow> rest2 = []"
      "filter (\<lambda>r. r \<noteq> Recv_error EAGAIN) rs2 = map (msg_result len) (frames (content s2 @ cs))"
      "ok s3" "\<not> rd_more rd s3" "content s3 = unframed (content s2 @ cs)" by blast
    have "filter (\<lambda>r. r \<noteq> Recv_error EAGAIN) rs =
        filter (\<lambda>r. r \<noteq> Recv_error EAGAIN) (r # rs1) @ filter (\<lambda>r. r \<noteq> Recv_error EAGAIN) rs2"
      unfolding eq by simp
    then have "filter (\<lambda>r. r \<noteq> Recv_error EAGAIN) rs = map (msg_result len) (frames (content s @ ?bs @ cs))"
      "content s3 = unframed (content s @ ?bs @ cs)"
      using frames_append [of "content s @ ?bs" cs] p(3,6) cs(3,6) by simp_all
    moreover have "stream = (?bs @ cs) @ rest2" using cs(1) by (metis append.assoc append_take_drop_id)
    moreover have "length stream \<le> length (k # ks) \<longrightarrow> rest2 = []" using cs(2) n(1) by auto
    ultimately show ?thesis using eq cs(4,5) by blast
  qed
qed

text \<open>The messages of a stream read from an empty buffer.\<close>

lemma stream_messages:
  assumes "ok s" "content s = []" "recv_stream rd len ks s stream = (rs, s', rest)"
  shows "(\<exists>bs. stream = bs @ rest \<and>
      filter (\<lambda>r. r \<noteq> Recv_error EAGAIN) rs = map (\<lambda>m. Recvd (length m) (take len m)) (frames bs) \<and>
      ok s' \<and> content s' = unframed bs) \<and>
    (\<forall>ms. stream = concat (map frame ms) \<and> (\<forall>m \<in> set ms. 0 < length m \<and> length m < 65536) \<and> length stream \<le> length ks \<longrightarrow>
      filter (\<lambda>r. r \<noteq> Recv_error EAGAIN) rs = map (\<lambda>m. Recvd (length m) (take len m)) ms \<and> content s' = [])"
proof -
  have "\<not> rd_more rd s" using assms(1,2) more_complete [of s] by (simp add: complete_def)
  from recv_stream_ok [OF assms(1) this assms(3)] obtain bs where bs: "stream = bs @ rest"
    "length stream \<le> length ks \<longrightarrow> rest = []"
    "filter (\<lambda>r. r \<noteq> Recv_error EAGAIN) rs = map (\<lambda>m. Recvd (length m) (take len m)) (frames bs)"
    "ok s'" "content s' = unframed bs" unfolding assms(2) msg_result_def by auto
  have "filter (\<lambda>r. r \<noteq> Recv_error EAGAIN) rs = map (\<lambda>m. Recvd (length m) (take len m)) ms \<and> content s' = []"
    if "stream = concat (map frame ms)" "\<forall>m \<in> set ms. 0 < length m \<and> length m < 65536" "length stream \<le> length ks" for ms
    using bs that frames_frames [OF that(2)] by auto
  then show ?thesis using bs by blast
qed

end

section \<open>Writing messages\<close>

text \<open>The bytes of a message as they are put into the buffer: at most 65535 bytes of it, after their number.\<close>

definition send_frame :: "bytes \<Rightarrow> bytes" where
  "send_frame buf =
    (let n = (if length buf < TCP_SEND_BUF_SIZE - 2 then length buf else TCP_SEND_BUF_SIZE - 2)
     in be16 (of_nat n) @ take n buf)"

text \<open>What is left of the message in the send buffer, of which \<open>k\<close> bytes have been written.\<close>

definition unsent_part :: "bytes \<Rightarrow> nat \<Rightarrow> bytes" where
  "unsent_part buf k = take (ntohs16 (buf ! 0) (buf ! 1) + 2 - k) (drop k buf)"

datatype os_send = Os_sent nat | Os_send_error errno

text \<open>
  What the functions of a transport do to the outside: open and close a connection, write bytes
  to it, and call the functions of the program for a delayed query and for a change of the
  connection.
\<close>

datatype action = Opened int | Wrote bytes | Closed int | Sent_callback u16 | Event_callback perf_socket_event u64

text \<open>The bytes written to the current connection.\<close>

fun on_wire :: "bytes \<Rightarrow> action list \<Rightarrow> bytes" where
  "on_wire w [] = w"
| "on_wire w (Opened fd # as) = on_wire [] as"
| "on_wire w (Wrote bs # as) = on_wire (w @ bs) as"
| "on_wire w (Closed fd # as) = on_wire w as"
| "on_wire w (Sent_callback q # as) = on_wire w as"
| "on_wire w (Event_callback e ts # as) = on_wire w as"

lemma on_wire_append [simp]: "on_wire w (as @ bs) = on_wire (on_wire w as) bs"
  by (induction w as rule: on_wire.induct) auto

definition shortened :: "bytes \<Rightarrow> bytes" where
  "shortened m = take 65535 m"

lemma send_frame_frame: "send_frame m = frame (shortened m)"
  by (simp add: send_frame_def frame_def shortened_def TCP_SEND_BUF_SIZE_def min_def)

lemma length_send_frame: "length (send_frame m) = length (shortened m) + 2" "length (send_frame m) \<le> TCP_SEND_BUF_SIZE"
  by (simp_all add: send_frame_frame frame_def shortened_def TCP_SEND_BUF_SIZE_def)

text \<open>
  The state of a connection: complete frames of messages that were given to be sent, each at
  most once and in their order, followed by the part that has been written of the message being
  sent.
\<close>

definition wire_ok :: "bytes list \<Rightarrow> bool \<Rightarrow> nat \<Rightarrow> bytes \<Rightarrow> bytes \<Rightarrow> bool" where
  "wire_ok given pending k buf w \<longleftrightarrow> length buf = TCP_SEND_BUF_SIZE \<and>
    (if pending
     then \<exists>ms m. w = concat (map frame ms) @ take k (frame m) \<and> subseq (ms @ [m]) given \<and> k < length (frame m) \<and>
       length m < 65536 \<and> take (length (frame m)) buf = frame m
     else \<exists>ms. w = concat (map frame ms) \<and> subseq ms given)"

lemma wire_pendingI:
  "length buf = TCP_SEND_BUF_SIZE \<Longrightarrow> w = concat (map frame ms) @ take k (frame m) \<Longrightarrow> subseq (ms @ [m]) given \<Longrightarrow>
    k < length (frame m) \<Longrightarrow> length m < 65536 \<Longrightarrow> take (length (frame m)) buf = frame m \<Longrightarrow> wire_ok given True k buf w"
  unfolding wire_ok_def if_True by blast

lemma wire_idleI:
  "length buf = TCP_SEND_BUF_SIZE \<Longrightarrow> w = concat (map frame ms) \<Longrightarrow> subseq ms given \<Longrightarrow> wire_ok given False k buf w"
  unfolding wire_ok_def if_False by blast

lemma unsent_part_frame:
  assumes "take (length (frame m)) buf = frame m" "length m < 65536"
  shows "unsent_part buf k = drop k (frame m)"
proof -
  have "buf ! i = frame m ! i" if "i < length (frame m)" for i using assms(1) that by (metis nth_take)
  from this [of 0] this [of 1] have "ntohs16 (buf ! 0) (buf ! 1) = length m"
    using ntohs16_be16 [of "length m"] assms(2) by (simp add: frame_def be16_def)
  then have "unsent_part buf k = drop k (take (length (frame m)) buf)"
    by (simp add: unsent_part_def frame_def drop_take)
  then show ?thesis by (simp add: assms(1))
qed

text \<open>A new message: not written at all, written in part, or written completely.\<close>

lemma wire_new:
  assumes "wire_ok given False j buf w" and buf': "buf' = mem_write buf 0 (send_frame m)"
  shows "n < length (send_frame m) \<Longrightarrow> wire_ok (given @ [shortened m]) True n buf' (w @ take n (send_frame m))"
    and "wire_ok (given @ [shortened m]) False i buf' w"
    and "wire_ok (given @ [shortened m]) False i buf' (w @ send_frame m)"
proof -
  obtain ms where ms: "w = concat (map frame ms)" "subseq ms given" and len: "length buf = TCP_SEND_BUF_SIZE"
    using assms(1) by (auto simp: wire_ok_def)
  have len': "length buf' = TCP_SEND_BUF_SIZE" using len length_send_frame(2) [of m] by (simp add: buf')
  have t: "take (length (frame (shortened m))) buf' = frame (shortened m)"
    unfolding buf' send_frame_frame by (simp add: mem_write_def)
  have s: "subseq (ms @ [shortened m]) (given @ [shortened m])" "subseq ms (given @ [shortened m])"
    using ms(2) by (simp_all add: list_emb_append_mono subseq_rev_drop_many)
  have "length (shortened m) < 65536" by (simp add: shortened_def)
  then show "wire_ok (given @ [shortened m]) True n buf' (w @ take n (send_frame m))" if "n < length (send_frame m)"
    using wire_pendingI [OF len' _ s(1) _ _ t] that ms(1) by (simp add: send_frame_frame)
  show "wire_ok (given @ [shortened m]) False i buf' w" by (rule wire_idleI [OF len' ms(1) s(2)])
  have "w @ send_frame m = concat (map frame (ms @ [shortened m]))" using ms(1) by (simp add: send_frame_frame)
  then show "wire_ok (given @ [shortened m]) False i buf' (w @ send_frame m)" by (rule wire_idleI [OF len' _ s(1)])
qed

text \<open>More of the message being sent.\<close>

lemma wire_more:
  assumes "wire_ok given True k buf w" "n \<le> length (unsent_part buf k)"
  shows "k + n < ntohs16 (buf ! 0) (buf ! 1) + 2 \<Longrightarrow> wire_ok given True (k + n) buf (w @ take n (unsent_part buf k))"
    and "\<not> k + n < ntohs16 (buf ! 0) (buf ! 1) + 2 \<Longrightarrow> wire_ok given False i buf (w @ take n (unsent_part buf k))"
proof -
  obtain ms m where m: "w = concat (map frame ms) @ take k (frame m)" "subseq (ms @ [m]) given" "k < length (frame m)"
    "length m < 65536" "take (length (frame m)) buf = frame m" and len: "length buf = TCP_SEND_BUF_SIZE"
    using assms(1) by (auto simp: wire_ok_def)
  have u: "unsent_part buf k = drop k (frame m)" by (rule unsent_part_frame [OF m(5,4)])
  have "unsent_part buf 0 = frame m" using unsent_part_frame [OF m(5,4), of 0] by simp
  then have l: "ntohs16 (buf ! 0) (buf ! 1) + 2 = length (frame m)"
    using len ntohs16_le [of "buf ! 0" "buf ! 1"] by (auto simp: unsent_part_def TCP_SEND_BUF_SIZE_def dest: arg_cong [where f = length])
  have w: "w @ take n (unsent_part buf k) = concat (map frame ms) @ take (k + n) (frame m)"
    by (simp add: m(1) u take_add)
  show "wire_ok given True (k + n) buf (w @ take n (unsent_part buf k))" if "k + n < ntohs16 (buf ! 0) (buf ! 1) + 2"
    using wire_pendingI [OF len w m(2) _ m(4,5)] that unfolding l by simp
  assume "\<not> k + n < ntohs16 (buf ! 0) (buf ! 1) + 2"
  then have "take (k + n) (frame m) = frame m" unfolding l by simp
  then have "w @ take n (unsent_part buf k) = concat (map frame (ms @ [m]))" unfolding w by simp
  then show "wire_ok given False i buf (w @ take n (unsent_part buf k))" by (rule wire_idleI [OF len _ m(2)])
qed

text \<open>A new connection: the message being sent starts again, or is given up.\<close>

lemma wire_opened:
  assumes "wire_ok given p k buf w"
  shows "p \<longrightarrow> k = 0 \<Longrightarrow> wire_ok given p k buf []" and "wire_ok given False i buf []"
proof -
  have len: "length buf = TCP_SEND_BUF_SIZE" using assms by (simp add: wire_ok_def)
  then show idle: "wire_ok given False i buf []" for i by (rule wire_idleI [where ms = "[]"]) simp_all
  show "wire_ok given p k buf []" if "p \<longrightarrow> k = 0"
  proof (cases p)
    case True
    then obtain ms m where m: "subseq (ms @ [m]) given" "length m < 65536" "take (length (frame m)) buf = frame m" "k < length (frame m)"
      using assms by (auto simp: wire_ok_def)
    moreover have "subseq [m] (ms @ [m])" by (rule subseq_drop_many) simp
    ultimately have "subseq ([] @ [m]) given" using subseq_order.trans [of "[m]" "ms @ [m]" given] by simp
    then have "wire_ok given True k buf []"
      by (rule wire_pendingI [OF len _ _ m(4,2,3), rotated]) (use True that in simp)
    then show ?thesis using True by simp
  qed (use idle in simp)
qed

end
