(* ===== verification/Tcp.thy ===== *)
theory Tcp
  imports Threads Net Framing
begin

text \<open>
  DNS over TCP (\<^verbatim>\<open>net_tcp.c\<close>).  The socket is shared by the sending thread, which opens
  connections and writes, and the receiving thread, which reads and reports a lost connection;
  each function below is called by one of them.  The calls of the operating system are
  parameters; where a function makes the same call twice, they are numbered.  What a function does
  to the connection and the callbacks it makes are returned as a list of actions.  Socket options,
  whose failure is only logged, are left out.
\<close>

record tcp_socket =
  t_fd :: int
  t_recvbuf :: bytes
  t_sendbuf :: bytes
  t_at :: nat
  t_sending :: nat
  t_is_ready :: bool
  t_need_reconnect :: bool
  t_have_more :: bool
  t_is_sending :: bool
  t_server :: perf_sockaddr
  t_local :: perf_sockaddr
  t_bufsize :: nat
  t_recvfd :: int
  t_recv_need_reconn :: int
  t_qid :: u16
  t_conn_ts :: u64
  t_conn_event :: perf_socket_event
  t_conning_event :: perf_socket_event
  t_num_queries_per_conn :: nat
  t_nqpc_timeout :: u64
  t_nqpc_sent :: u32
  t_nqpc_recv :: u32
  t_nqpc_ts :: u64
  t_has_sent :: bool
  t_has_event :: bool

text \<open>
  The operating system: \<^verbatim>\<open>socket\<close>, \<^verbatim>\<open>bind\<close>, \<^verbatim>\<open>fcntl\<close>, \<^verbatim>\<open>connect\<close> (\<open>None\<close> for success),
  \<^verbatim>\<open>sendto\<close>, \<^verbatim>\<open>getsockopt(SO_ERROR)\<close>, \<^verbatim>\<open>poll\<close> and the clock.
\<close>

record tcp_os =
  os_socket :: "nat \<Rightarrow> address_family \<Rightarrow> int option"
  os_bind :: "int \<Rightarrow> perf_sockaddr \<Rightarrow> bool"
  os_fcntl :: "int \<Rightarrow> bool"
  os_connect :: "int \<Rightarrow> perf_sockaddr \<Rightarrow> errno option"
  os_sendto :: "nat \<Rightarrow> int \<Rightarrow> bytes \<Rightarrow> os_send"
  os_so_error :: "int \<Rightarrow> errno option"
  os_poll :: poll
  os_time :: "nat \<Rightarrow> u64"

section \<open>Connecting\<close>

definition perf__tcp_connect :: "nat \<Rightarrow> tcp_os \<Rightarrow> tcp_socket \<Rightarrow> (int \<times> action list \<times> tcp_socket) outcome" where
  "perf__tcp_connect i os s =
    (let s = s\<lparr>t_is_ready := True, t_nqpc_sent := 0, t_nqpc_recv := 0, t_nqpc_ts := 0\<rparr> in
     case os_socket os i (sa_family (t_server s)) of
       None \<Rightarrow> Exit 1
     | Some fd \<Rightarrow>
       if \<not> os_bind os fd (t_local s) then Exit 1
       else if \<not> os_fcntl os fd then Exit 1
       else
         let s = s\<lparr>t_conn_ts := os_time os i\<rparr>;
             acts = (if t_has_event s then [Opened fd, Event_callback (t_conning_event s) (t_conn_ts s)] else [Opened fd]);
             s = (if t_has_event s then s\<lparr>t_conning_event := perf_socket_event_reconnecting\<rparr> else s)
         in case os_connect os fd (t_server s) of
              None \<Rightarrow> Ret (fd, acts, s)
            | Some e \<Rightarrow> if e = EINPROGRESS then Ret (fd, acts, s\<lparr>t_is_ready := False\<rparr>) else Exit 1)"

definition tcp_reconnect :: "nat \<Rightarrow> tcp_os \<Rightarrow> tcp_socket \<Rightarrow> (action list \<times> tcp_socket) outcome" where
  "tcp_reconnect i os s =
    obind (perf__tcp_connect i os s) (\<lambda>(fd, acts, s). Ret (acts @ [Closed (t_fd s)], s\<lparr>t_fd := fd\<rparr>))"

definition perf_net_tcp_opensocket :: "tcp_os \<Rightarrow> perf_sockaddr \<Rightarrow> perf_sockaddr \<Rightarrow> nat \<Rightarrow> bool \<Rightarrow> bool \<Rightarrow>
    (action list \<times> tcp_socket) outcome" where
  "perf_net_tcp_opensocket os server local bufsize sent event =
    (let s = \<lparr>t_fd = 0, t_recvbuf = replicate TCP_RECV_BUF_SIZE 0, t_sendbuf = replicate TCP_SEND_BUF_SIZE 0,
           t_at = 0, t_sending = 0, t_is_ready = False, t_need_reconnect = False, t_have_more = False, t_is_sending = False,
           t_server = server, t_local = local, t_bufsize = (if bufsize > 0 then bufsize * 1024 else bufsize),
           t_recvfd = 0, t_recv_need_reconn = 0, t_qid = 0, t_conn_ts = 0,
           t_conn_event = perf_socket_event_connected, t_conning_event = perf_socket_event_connecting,
           t_num_queries_per_conn = 0, t_nqpc_timeout = 0, t_nqpc_sent = 0, t_nqpc_recv = 0, t_nqpc_ts = 0,
           t_has_sent = sent, t_has_event = event\<rparr>
     in obind (perf__tcp_connect 0 os s) (\<lambda>(fd, acts, s).
        Ret (acts, s\<lparr>t_fd := fd, t_recvfd := fd, t_recv_need_reconn := -1\<rparr>)))"

definition perf__tcp_num_queries_per_conn :: "nat \<Rightarrow> u64 \<Rightarrow> tcp_socket \<Rightarrow> tcp_socket" where
  "perf__tcp_num_queries_per_conn n timeout s = s\<lparr>t_num_queries_per_conn := n, t_nqpc_timeout := timeout\<rparr>"

definition perf__tcp_close :: "tcp_socket \<Rightarrow> action list" where
  "perf__tcp_close s = [Closed (t_fd s)]"

definition perf__tcp_sockeq :: "tcp_socket \<Rightarrow> tcp_socket \<Rightarrow> bool" where
  "perf__tcp_sockeq a b \<longleftrightarrow> t_fd a = t_fd b"

definition perf__tcp_have_more :: "tcp_socket \<Rightarrow> bool" where
  "perf__tcp_have_more s = t_have_more s"

section \<open>Receiving\<close>

datatype os_recv = Os_bytes bytes | Os_closed | Os_recv_error errno

definition tcp_deliver :: "nat \<Rightarrow> tcp_socket \<Rightarrow> recv_result \<times> tcp_socket" where
  "tcp_deliver len s =
    (case deliver len (t_recvbuf s) (t_at s) of
       None \<Rightarrow> (Recv_error EAGAIN, s)
     | Some (r, buf, at', hm) \<Rightarrow>
         (r, s\<lparr>t_recvbuf := buf, t_at := at', t_have_more := hm,
           t_nqpc_recv := (if t_num_queries_per_conn s \<noteq> 0 then t_nqpc_recv s + 1 else t_nqpc_recv s)\<rparr>))"

definition perf__tcp_recv :: "os_recv \<Rightarrow> nat \<Rightarrow> tcp_socket \<Rightarrow> recv_result \<times> tcp_socket" where
  "perf__tcp_recv osr len s =
    (let fd = t_fd s;
         s = (if fd \<noteq> t_recvfd s then s\<lparr>t_have_more := False, t_at := 0, t_recvfd := fd\<rparr> else s)
     in if t_have_more s then tcp_deliver len s
        else case osr of
          Os_closed \<Rightarrow> (Recvd 0 [], s\<lparr>t_recv_need_reconn := fd\<rparr>)
        | Os_recv_error e \<Rightarrow>
            if e \<in> {EBADF, ECONNREFUSED, ECONNRESET, ENOTCONN}
            then (Recv_error EAGAIN, s\<lparr>t_recv_need_reconn := fd\<rparr>) else (Recv_error e, s)
        | Os_bytes bs \<Rightarrow>
            (let s = s\<lparr>t_recvbuf := mem_write (t_recvbuf s) (t_at s) bs, t_at := t_at s + length bs\<rparr>
             in if t_at s < 3 then (Recv_error EAGAIN, s) else tcp_deliver len s))"

section \<open>Sending\<close>

definition perf__tcp_sendto :: "tcp_os \<Rightarrow> u16 \<Rightarrow> bytes \<Rightarrow> tcp_socket \<Rightarrow> send_result \<times> action list \<times> tcp_socket" where
  "perf__tcp_sendto os qid buf s =
    (let fr = send_frame buf;
         s = s\<lparr>t_sendbuf := mem_write (t_sendbuf s) 0 fr, t_qid := qid\<rparr>;
         again = s\<lparr>t_need_reconnect := True, t_is_sending := True, t_sending := 0\<rparr>
     in if t_recv_need_reconn s = t_fd s then (In_progress, [], again)
        else case os_sendto os 0 (t_fd s) fr of
          Os_send_error e \<Rightarrow>
            if e \<in> {ECONNREFUSED, ECONNRESET, ENOTCONN, EPIPE} then (In_progress, [], again)
            else (if e = EINPROGRESS then In_progress else Send_error, [], s)
        | Os_sent n \<Rightarrow>
            if n < length fr then (In_progress, [Wrote (take n fr)], s\<lparr>t_is_sending := True, t_sending := n\<rparr>)
            else (Sent_bytes (n - 2), [Wrote fr], s\<lparr>t_nqpc_sent := t_nqpc_sent s + 1\<rparr>))"

text \<open>The message in the buffer has been sent.\<close>

definition tcp_sent :: "tcp_socket \<Rightarrow> action list \<times> tcp_socket" where
  "tcp_sent s =
    (if t_has_sent s then [Sent_callback (t_qid s)] else [],
     s\<lparr>t_sending := 0, t_is_sending := False, t_nqpc_sent := t_nqpc_sent s + 1\<rparr>)"

definition tcp_nqpc :: "tcp_os \<Rightarrow> tcp_socket \<Rightarrow> sockready \<times> tcp_socket" where
  "tcp_nqpc os s =
    (if t_num_queries_per_conn s \<noteq> 0 \<and> unat (t_nqpc_sent s) \<ge> t_num_queries_per_conn s then
       let s = (if t_nqpc_ts s = 0 then s\<lparr>t_nqpc_ts := os_time os 2 + t_nqpc_timeout s\<rparr> else s)
       in (not_ready, if t_nqpc_recv s \<ge> t_nqpc_sent s \<or> os_time os 3 > t_nqpc_ts s
                      then s\<lparr>t_need_reconnect := True\<rparr> else s)
     else (is_ready, s))"

text \<open>Label \<^verbatim>\<open>conn_cont\<close>: the connection is being set up.\<close>

definition tcp_conn_cont :: "tcp_os \<Rightarrow> int \<Rightarrow> int \<Rightarrow> tcp_socket \<Rightarrow> (sockready \<times> action list \<times> tcp_socket) outcome" where
  "tcp_conn_cont os pipe_fd timeout s =
    obind (perf_os_waituntilanywritable (os_poll os) [t_fd s] pipe_fd timeout) (\<lambda>r.
    if r = PERF_R_SUCCESS then
      (case os_so_error os (t_fd s) of
         Some e \<Rightarrow> Ret (not_ready, [], if e \<in> {EINPROGRESS, EAGAIN} then s else s\<lparr>t_need_reconnect := True\<rparr>)
       | None \<Rightarrow>
         let acts = (if t_has_event s then [Event_callback (t_conn_event s) (os_time os 4 - t_conn_ts s)] else []);
             s = s\<lparr>t_is_ready := True\<rparr>;
             s = (if t_has_event s then s\<lparr>t_conn_event := perf_socket_event_reconnected\<rparr> else s)
         in if t_is_sending s then
              (case os_sendto os 1 (t_fd s) (unsent_part (t_sendbuf s) (t_sending s)) of
                 Os_send_error e \<Rightarrow> Ret (not_ready, acts, if e \<noteq> EAGAIN then s\<lparr>t_need_reconnect := True\<rparr> else s)
               | Os_sent n \<Rightarrow>
                   let acts = acts @ [Wrote (take n (unsent_part (t_sendbuf s) (t_sending s)))];
                       s = s\<lparr>t_sending := t_sending s + n\<rparr>
                   in if t_sending s < ntohs16 (t_sendbuf s ! 0) (t_sendbuf s ! 1) + 2 then Ret (not_ready, acts, s)
                      else (case tcp_sent s of (as, s) \<Rightarrow> Ret (is_ready, acts @ as, s)))
            else Ret (is_ready, acts, s))
    else Ret (failed, [], s))"

text \<open>After a new connection in the middle of a message that message is given up.\<close>

definition tcp_give_up :: "tcp_socket \<Rightarrow> tcp_socket" where
  "tcp_give_up s = (if t_sending s \<noteq> 0 then s\<lparr>t_sending := 0, t_is_sending := False\<rparr> else s)"

definition tcp_flush :: "tcp_os \<Rightarrow> int \<Rightarrow> int \<Rightarrow> tcp_socket \<Rightarrow> (sockready \<times> action list \<times> tcp_socket) outcome" where
  "tcp_flush os pipe_fd timeout s =
    (case os_sendto os 0 (t_fd s) (unsent_part (t_sendbuf s) (t_sending s)) of
       Os_send_error e \<Rightarrow>
         if e = EAGAIN then Ret (not_ready, [], s)
         else obind (tcp_reconnect 1 os s) (\<lambda>(acts, s).
              obind (tcp_conn_cont os pipe_fd timeout (tcp_give_up s)) (\<lambda>(r, as, s). Ret (r, acts @ as, s)))
     | Os_sent n \<Rightarrow>
         let acts = [Wrote (take n (unsent_part (t_sendbuf s) (t_sending s)))];
             s = s\<lparr>t_sending := t_sending s + n\<rparr>
         in if t_sending s < ntohs16 (t_sendbuf s ! 0) (t_sendbuf s ! 1) + 2 then Ret (not_ready, acts, s)
            else (case tcp_sent s of (as, s) \<Rightarrow> case tcp_nqpc os s of (r, s) \<Rightarrow> Ret (r, acts @ as, s)))"

definition perf__tcp_sockready :: "tcp_os \<Rightarrow> int \<Rightarrow> int \<Rightarrow> tcp_socket \<Rightarrow> (sockready \<times> action list \<times> tcp_socket) outcome" where
  "perf__tcp_sockready os pipe_fd timeout s =
    obind (if t_recv_need_reconn s = t_fd s \<or> t_need_reconnect s
           then obind (tcp_reconnect 0 os s) (\<lambda>(acts, s). Ret (acts, s\<lparr>t_need_reconnect := False\<rparr>))
           else Ret ([], s)) (\<lambda>(acts, s).
    obind (if t_is_ready s then
             if t_is_sending s then tcp_flush os pipe_fd timeout s
             else (case tcp_nqpc os s of (r, s) \<Rightarrow> Ret (r, [], s))
           else tcp_conn_cont os pipe_fd timeout s) (\<lambda>(r, as, s).
    Ret (r, acts @ as, s)))"

section \<open>Reading the stream\<close>

definition buffered :: "tcp_socket \<Rightarrow> bytes" where
  "buffered s = take (t_at s) (t_recvbuf s)"

definition recv_buf_ok :: "tcp_socket \<Rightarrow> bool" where
  "recv_buf_ok s \<longleftrightarrow> length (t_recvbuf s) = TCP_RECV_BUF_SIZE \<and> t_at s \<le> TCP_RECV_BUF_SIZE \<and> t_recvfd s = t_fd s \<and>
    (t_have_more s \<longleftrightarrow> complete (buffered s))"

definition tcp_reader :: "tcp_socket reader" where
  "tcp_reader = \<lparr>rd_at = t_at, rd_more = perf__tcp_have_more, rd_next = perf__tcp_recv Os_closed, rd_piece = (\<lambda>bs. perf__tcp_recv (Os_bytes bs))\<rparr>"

lemma tcp_deliver_ok:
  assumes "length (t_recvbuf s) = TCP_RECV_BUF_SIZE" "t_at s \<le> TCP_RECV_BUF_SIZE" "t_recvfd s = t_fd s" "3 \<le> t_at s"
  shows "if complete (buffered s)
    then \<exists>s'. tcp_deliver len s = (msg_result len (drop 2 (take (frame_length (buffered s)) (buffered s))), s') \<and>
      recv_buf_ok s' \<and> buffered s' = drop (frame_length (buffered s)) (buffered s)
    else tcp_deliver len s = (Recv_error EAGAIN, s)"
  using deliver_ok [OF assms(1,2,4) buffered_def, of len] assms(3)
  by (auto simp: tcp_deliver_def recv_buf_ok_def buffered_def split: if_splits)

interpretation tcp: message_reader tcp_reader recv_buf_ok buffered
proof
  fix s :: tcp_socket and len and bs :: bytes
  assume ok: "recv_buf_ok s"
  have b: "length (t_recvbuf s) = TCP_RECV_BUF_SIZE" "t_at s \<le> TCP_RECV_BUF_SIZE" "t_recvfd s = t_fd s"
    using ok by (simp_all add: recv_buf_ok_def)
  show "rd_at tcp_reader s = length (buffered s) \<and> length (buffered s) \<le> TCP_RECV_BUF_SIZE"
    "rd_more tcp_reader s \<longleftrightarrow> complete (buffered s)"
    using ok by (auto simp: tcp_reader_def perf__tcp_have_more_def recv_buf_ok_def buffered_def)
  show "\<exists>s'. rd_next tcp_reader len s = (msg_result len (drop 2 (take (frame_length (buffered s)) (buffered s))), s') \<and>
      recv_buf_ok s' \<and> buffered s' = drop (frame_length (buffered s)) (buffered s)" if c: "complete (buffered s)"
  proof -
    have "3 \<le> t_at s" using c b by (simp add: complete_def buffered_def)
    moreover have "perf__tcp_recv Os_closed len s = tcp_deliver len s"
      using ok c by (simp add: perf__tcp_recv_def recv_buf_ok_def Let_def)
    ultimately show ?thesis using tcp_deliver_ok [OF b, of len] c by (simp add: tcp_reader_def)
  qed
  assume c: "\<not> complete (buffered s)" and l: "length (buffered s @ bs) \<le> TCP_RECV_BUF_SIZE"
  let ?s = "s\<lparr>t_recvbuf := mem_write (t_recvbuf s) (t_at s) bs, t_at := t_at s + length bs\<rparr>"
  have at: "t_at s + length bs \<le> TCP_RECV_BUF_SIZE" using l b by (simp add: buffered_def)
  have buf: "length (t_recvbuf ?s) = TCP_RECV_BUF_SIZE" "t_at ?s \<le> TCP_RECV_BUF_SIZE" "t_recvfd ?s = t_fd ?s"
    using b at by simp_all
  have eq: "buffered ?s = buffered s @ bs" using b at by (simp add: buffered_def)
  have hm: "\<not> t_have_more ?s" using ok c by (simp add: recv_buf_ok_def)
  have recv: "rd_piece tcp_reader bs len s = (if t_at ?s < 3 then (Recv_error EAGAIN, ?s) else tcp_deliver len ?s)"
    using b hm by (simp add: tcp_reader_def perf__tcp_recv_def Let_def)
  show "\<exists>s'. recv_buf_ok s' \<and> (if complete (buffered s @ bs)
      then rd_piece tcp_reader bs len s = (msg_result len (drop 2 (take (frame_length (buffered s @ bs)) (buffered s @ bs))), s') \<and>
        buffered s' = drop (frame_length (buffered s @ bs)) (buffered s @ bs)
      else rd_piece tcp_reader bs len s = (Recv_error EAGAIN, s') \<and> buffered s' = buffered s @ bs)"
  proof (cases "complete (buffered s @ bs)")
    case True
    then have "3 \<le> t_at ?s" using b by (simp add: complete_def buffered_def)
    then show ?thesis using tcp_deliver_ok [OF buf, of len] recv True unfolding eq by auto
  next
    case False
    then have "recv_buf_ok ?s" using buf hm eq by (simp add: recv_buf_ok_def)
    moreover have "rd_piece tcp_reader bs len s = (Recv_error EAGAIN, ?s)"
      using tcp_deliver_ok [OF buf, of len] recv False unfolding eq by (auto simp: not_less)
    ultimately show ?thesis using False eq by auto
  qed
qed

text \<open>
  C33.  Reading DNS messages from a TCP connection does not depend on how the stream is cut: from
  an empty buffer, whatever the sizes of the pieces, the messages returned are those framed in the
  part of the stream that was read, in order, none lost, split or merged, and the only error on
  the way is \<^verbatim>\<open>EAGAIN\<close>.  If the stream is a sequence of framed messages and there are enough reads,
  exactly these messages are returned.
\<close>

theorem tcp_stream_independent:
  assumes "recv_buf_ok s" "buffered s = []" "recv_stream tcp_reader len ks s stream = (rs, s', rest)"
  shows "(\<exists>bs. stream = bs @ rest \<and>
      filter (\<lambda>r. r \<noteq> Recv_error EAGAIN) rs = map (\<lambda>m. Recvd (length m) (take len m)) (frames bs) \<and>
      recv_buf_ok s' \<and> buffered s' = unframed bs) \<and>
    (\<forall>ms. stream = concat (map frame ms) \<and> (\<forall>m \<in> set ms. 0 < length m \<and> length m < 65536) \<and> length stream \<le> length ks \<longrightarrow>
      filter (\<lambda>r. r \<noteq> Recv_error EAGAIN) rs = map (\<lambda>m. Recvd (length m) (take len m)) ms \<and> buffered s' = [])"
  by (rule tcp.stream_messages [OF assms])

section \<open>Writing the stream\<close>

text \<open>The operating system never writes more than it is given.\<close>

definition sends_ok :: "tcp_os \<Rightarrow> bool" where
  "sends_ok os \<longleftrightarrow> (\<forall>i fd bs n. os_sendto os i fd bs = Os_sent n \<longrightarrow> n \<le> length bs)"

abbreviation tcp_wire_ok :: "bytes list \<Rightarrow> tcp_socket \<Rightarrow> bytes \<Rightarrow> bool" where
  "tcp_wire_ok given s w \<equiv> wire_ok given (t_is_sending s) (t_sending s) (t_sendbuf s) w"

lemma connect_wire:
  assumes "perf__tcp_connect i os s = Ret (fd, acts, s')"
  shows "on_wire w acts = [] \<and> t_sendbuf s' = t_sendbuf s \<and> t_sending s' = t_sending s \<and> t_is_sending s' = t_is_sending s"
  using assms
  by (auto simp: perf__tcp_connect_def Let_def split: option.splits if_splits)

lemma reconnect_wire:
  assumes "tcp_reconnect i os s = Ret (acts, s')"
  shows "on_wire w acts = [] \<and> t_sendbuf s' = t_sendbuf s \<and> t_sending s' = t_sending s \<and> t_is_sending s' = t_is_sending s"
  using assms by (auto simp: tcp_reconnect_def split_beta dest!: connect_wire [where w = w])

lemma nqpc_wire:
  "tcp_nqpc os s = (r, s') \<Longrightarrow> t_sendbuf s' = t_sendbuf s \<and> t_sending s' = t_sending s \<and> t_is_sending s' = t_is_sending s"
  by (auto simp: tcp_nqpc_def Let_def split: if_splits)

lemma conn_cont_wire:
  assumes "sends_ok os" "tcp_wire_ok given s w" "tcp_conn_cont os pipe_fd timeout s = Ret (r, acts, s')"
  shows "tcp_wire_ok given s' (on_wire w acts) \<and> (r = is_ready \<longrightarrow> \<not> t_is_sending s')"
proof (cases "t_is_sending s")
  case False
  then show ?thesis using assms(2,3)
    by (auto simp: tcp_conn_cont_def Let_def split: if_splits option.splits)
next
  case True
  let ?u = "unsent_part (t_sendbuf s) (t_sending s)"
  have w: "wire_ok given True (t_sending s) (t_sendbuf s) w" using assms(2) True by simp
  have n: "os_sendto os 1 (t_fd s) ?u = Os_sent n \<Longrightarrow> n \<le> length ?u" for n using assms(1) by (simp add: sends_ok_def)
  from assms(3) show ?thesis
    using True w wire_more [OF w n]
    by (auto simp: tcp_conn_cont_def tcp_sent_def Let_def split: if_splits option.splits os_send.splits)
qed

lemma flush_wire:
  assumes "sends_ok os" "tcp_wire_ok given s w" "t_is_sending s" "tcp_flush os pipe_fd timeout s = Ret (r, acts, s')"
  shows "tcp_wire_ok given s' (on_wire w acts) \<and> (r = is_ready \<longrightarrow> \<not> t_is_sending s')"
proof -
  let ?u = "unsent_part (t_sendbuf s) (t_sending s)"
  have w: "wire_ok given True (t_sending s) (t_sendbuf s) w" using assms(2,3) by simp
  show ?thesis
  proof (cases "os_sendto os 0 (t_fd s) ?u")
    case (Os_sent n)
    then have "n \<le> length ?u" using assms(1) by (simp add: sends_ok_def)
    from wire_more [OF w this] show ?thesis
      using assms(3,4) Os_sent
      by (auto simp: tcp_flush_def tcp_sent_def Let_def split: if_splits prod.splits dest!: nqpc_wire)
  next
    case (Os_send_error e)
    show ?thesis
    proof (cases "e = EAGAIN")
      case True
      then show ?thesis using assms(2-4) Os_send_error by (simp add: tcp_flush_def)
    next
      case False
      obtain a1 s1 where s1: "tcp_reconnect 1 os s = Ret (a1, s1)"
        using assms(4) Os_send_error False by (cases "tcp_reconnect 1 os s") (auto simp: tcp_flush_def)
      let ?s = "tcp_give_up s1"
      note rw = reconnect_wire [OF s1]
      have "tcp_wire_ok given ?s []" using wire_opened [OF w] rw assms(3) by (auto simp: tcp_give_up_def)
      moreover obtain a2 where a2: "tcp_conn_cont os pipe_fd timeout ?s = Ret (r, a2, s')" "acts = a1 @ a2"
        using assms(4) Os_send_error False s1 by (auto simp: tcp_flush_def Let_def split_beta)
      ultimately show ?thesis using conn_cont_wire [OF assms(1) _ a2(1), of given "[]"] rw a2(2) by simp
    qed
  qed
qed

text \<open>
  The connection is replaced at the start of \<^verbatim>\<open>perf__tcp_sockready\<close> while a message has been
  written in part.
\<close>

definition mid_message :: "tcp_socket \<Rightarrow> bool" where
  "mid_message s \<longleftrightarrow> (t_recv_need_reconn s = t_fd s \<or> t_need_reconnect s) \<and> t_is_sending s \<and> t_sending s \<noteq> 0"

lemma sockready_wire:
  assumes "sends_ok os" "tcp_wire_ok given s w" "\<not> mid_message s" "perf__tcp_sockready os pipe_fd timeout s = Ret (r, acts, s')"
  shows "tcp_wire_ok given s' (on_wire w acts) \<and> (r = is_ready \<longrightarrow> \<not> t_is_sending s')"
proof -
  obtain a1 s1 where s1: "(if t_recv_need_reconn s = t_fd s \<or> t_need_reconnect s
           then obind (tcp_reconnect 0 os s) (\<lambda>(acts, s). Ret (acts, s\<lparr>t_need_reconnect := False\<rparr>))
           else Ret ([], s)) = Ret (a1, s1)"
    using assms(4) by (auto simp: perf__tcp_sockready_def split: if_splits)
  have w1: "tcp_wire_ok given s1 (on_wire w a1)"
  proof (cases "t_recv_need_reconn s = t_fd s \<or> t_need_reconnect s")
    case True
    then obtain s0 where s0: "tcp_reconnect 0 os s = Ret (a1, s0)" "s1 = s0\<lparr>t_need_reconnect := False\<rparr>"
      using s1 by (auto simp: split_beta)
    have "t_is_sending s \<longrightarrow> t_sending s = 0" using assms(3) True by (auto simp: mid_message_def)
    then show ?thesis using reconnect_wire [OF s0(1), of w] wire_opened(1) [OF assms(2)] s0(2) by simp
  qed (use s1 assms(2) in auto)
  obtain a2 where a2: "(if t_is_ready s1 then
             if t_is_sending s1 then tcp_flush os pipe_fd timeout s1
             else (case tcp_nqpc os s1 of (r, s) \<Rightarrow> Ret (r, [], s))
           else tcp_conn_cont os pipe_fd timeout s1) = Ret (r, a2, s')" "acts = a1 @ a2"
    using assms(4) s1 unfolding perf__tcp_sockready_def by (auto simp: split_beta)
  show ?thesis
  proof (cases "t_is_ready s1 \<and> \<not> t_is_sending s1")
    case True
    then obtain "tcp_nqpc os s1 = (r, s')" "a2 = []" using a2(1) by (auto split: prod.splits)
    then show ?thesis using nqpc_wire [of os s1 r s'] w1 a2(2) True by simp
  next
    case False
    then show ?thesis
      using a2 conn_cont_wire [OF assms(1) w1, of pipe_fd timeout r a2 s'] flush_wire [OF assms(1) w1, of pipe_fd timeout r a2 s']
      by (auto split: if_splits)
  qed
qed

lemma sendto_wire:
  assumes "sends_ok os" "tcp_wire_ok given s w" "\<not> t_is_sending s" "perf__tcp_sendto os qid m s = (r, acts, s')"
  shows "tcp_wire_ok (given @ [shortened m]) s' (on_wire w acts)"
proof -
  have w: "wire_ok given False (t_sending s) (t_sendbuf s) w" using assms(2,3) by simp
  note new = wire_new [OF w refl, where m = m]
  have "0 < length (send_frame m)" by (simp add: length_send_frame)
  from new(1) [OF this] show ?thesis
    using new assms(3,4)
    by (auto simp: perf__tcp_sendto_def Let_def split: if_splits os_send.splits)
qed

lemma recv_wire:
  "perf__tcp_recv osr len s = (r, s') \<Longrightarrow>
    t_sendbuf s' = t_sendbuf s \<and> t_sending s' = t_sending s \<and> t_is_sending s' = t_is_sending s"
  by (auto simp: perf__tcp_recv_def tcp_deliver_def Let_def split: if_splits os_recv.splits option.splits)

text \<open>
  A socket in use: the sending thread checks that it is ready before it sends, the receiving
  thread reads at any time.  With the socket go the messages given to be sent, shortened to what
  the length field can say, and the bytes on the current connection.
\<close>

inductive tcp_use :: "tcp_socket \<Rightarrow> bytes list \<Rightarrow> bytes \<Rightarrow> bool" where
  opened: "perf_net_tcp_opensocket os server local bufsize sent event = Ret (acts, s) \<Longrightarrow> tcp_use s [] []"
| limit: "tcp_use s given w \<Longrightarrow> tcp_use (perf__tcp_num_queries_per_conn n timeout s) given w"
| ready: "tcp_use s given w \<Longrightarrow> sends_ok os \<Longrightarrow> \<not> mid_message s \<Longrightarrow>
    perf__tcp_sockready os pipe_fd timeout s = Ret (r, acts, s') \<Longrightarrow> tcp_use s' given (on_wire w acts)"
| send: "tcp_use s given w \<Longrightarrow> sends_ok os \<Longrightarrow> \<not> t_is_sending s \<Longrightarrow>
    perf__tcp_sendto os qid m s = (r, acts, s') \<Longrightarrow> tcp_use s' (given @ [shortened m]) (on_wire w acts)"
| recv: "tcp_use s given w \<Longrightarrow> perf__tcp_recv osr len s = (r, s') \<Longrightarrow> tcp_use s' given w"

lemma opensocket_wire:
  assumes "perf_net_tcp_opensocket os server local bufsize sent event = Ret (acts, s)"
  shows "tcp_wire_ok [] s []"
proof -
  have "\<not> t_is_sending s \<and> t_sendbuf s = replicate TCP_SEND_BUF_SIZE 0"
    using assms by (auto simp: perf_net_tcp_opensocket_def Let_def dest!: connect_wire [where w = "[]"])
  then show ?thesis using wire_idleI [of "t_sendbuf s" "[]" "[]"] by simp
qed

lemma tcp_use_wire: "tcp_use s given w \<Longrightarrow> tcp_wire_ok given s w"
proof (induction rule: tcp_use.induct)
  case (opened os server local bufsize sent event acts s)
  then show ?case by (rule opensocket_wire)
next
  case (limit s given w n timeout)
  then show ?case by (simp add: perf__tcp_num_queries_per_conn_def)
next
  case (ready s given w os pipe_fd timeout r acts s')
  then show ?case using sockready_wire by blast
next
  case (send s given w os qid m r acts s')
  then show ?case by (blast intro: sendto_wire)
next
  case (recv s given w osr len r s')
  then show ?case using recv_wire [OF recv.hyps(2)] by simp
qed

text \<open>
  C34.  Every connection carries whole messages: as long as no connection is replaced in the middle
  of a message, the bytes written to the current connection are the frames of messages given to be
  sent, in their order and none twice, followed by the part already written of the message being
  sent; and when \<^verbatim>\<open>perf__tcp_sockready\<close> reports that the socket is ready no message is half
  written.
\<close>

theorem tcp_frames_intact:
  assumes "tcp_use s given w"
  shows "(\<exists>ms. if t_is_sending s
      then \<exists>m. w = concat (map frame ms) @ take (t_sending s) (frame m) \<and> subseq (ms @ [m]) given
      else w = concat (map frame ms) \<and> subseq ms given) \<and>
    (\<forall>os pipe_fd timeout acts s'. sends_ok os \<and> \<not> mid_message s \<and>
      perf__tcp_sockready os pipe_fd timeout s = Ret (is_ready, acts, s') \<longrightarrow> \<not> t_is_sending s')"
proof -
  have w: "tcp_wire_ok given s w" by (rule tcp_use_wire [OF assms])
  then have "\<exists>ms. if t_is_sending s
      then \<exists>m. w = concat (map frame ms) @ take (t_sending s) (frame m) \<and> subseq (ms @ [m]) given
      else w = concat (map frame ms) \<and> subseq ms given"
    by (auto simp: wire_ok_def split: if_splits)
  then show ?thesis using sockready_wire [OF _ w] by blast
qed

section \<open>Examples\<close>

text \<open>An operating system in which everything succeeds, with the descriptor and the bytes written per call given.\<close>

definition example_os :: "int \<Rightarrow> nat \<Rightarrow> tcp_os" where
  "example_os fd k = \<lparr>os_socket = (\<lambda>_ _. Some fd), os_bind = (\<lambda>_ _. True), os_fcntl = (\<lambda>_. True), os_connect = (\<lambda>_ _. None),
     os_sendto = (\<lambda>_ _ bs. Os_sent (min k (length bs))), os_so_error = (\<lambda>_. None), os_poll = (\<lambda>_ _. Poll_events False),
     os_time = (\<lambda>_. 1000)\<rparr>"

definition example_socket :: tcp_socket where
  "example_socket = \<lparr>t_fd = 10, t_recvbuf = replicate TCP_RECV_BUF_SIZE 0, t_sendbuf = replicate TCP_SEND_BUF_SIZE 0,
     t_at = 0, t_sending = 0, t_is_ready = True, t_need_reconnect = False, t_have_more = False, t_is_sending = False,
     t_server = perf_sockaddr_fromin [127, 0, 0, 1] 53, t_local = perf_sockaddr_fromin [0, 0, 0, 0] 0, t_bufsize = 0,
     t_recvfd = 10, t_recv_need_reconn = -1, t_qid = 0, t_conn_ts = 1000,
     t_conn_event = perf_socket_event_connected, t_conning_event = perf_socket_event_connecting,
     t_num_queries_per_conn = 0, t_nqpc_timeout = 0, t_nqpc_sent = 0, t_nqpc_recv = 0, t_nqpc_ts = 0,
     t_has_sent = True, t_has_event = False\<rparr>"

lemma example_opened: "tcp_use example_socket [] []"
  by (rule tcp_use.opened [of "example_os 10 0" "perf_sockaddr_fromin [127, 0, 0, 1] 53" "perf_sockaddr_fromin [0, 0, 0, 0] 0" 0
        True False "[Opened 10]"])
    (simp add: perf_net_tcp_opensocket_def perf__tcp_connect_def Let_def example_os_def example_socket_def)

definition half_sent :: tcp_socket where
  "half_sent = example_socket\<lparr>t_sendbuf := mem_write (replicate TCP_SEND_BUF_SIZE 0) 0 [0, 3, 1, 2, 3], t_qid := 7,
     t_is_sending := True, t_sending := 3\<rparr>"

lemma example_half_sent: "tcp_use half_sent [[1, 2, 3]] [0, 3, 1]"
proof -
  have f: "send_frame [1, 2, 3] = [0, 3, 1, 2, 3]" by (simp add: send_frame_def TCP_SEND_BUF_SIZE_def be16_def)
  have "perf__tcp_sendto (example_os 10 3) 7 [1, 2, 3] example_socket = (In_progress, [Wrote [0, 3, 1]], half_sent)"
    by (simp add: perf__tcp_sendto_def f Let_def example_os_def half_sent_def) (simp add: example_socket_def)
  then show ?thesis
    using tcp_use.send [OF example_opened, of "example_os 10 3" 7 "[1, 2, 3]"]
    by (simp add: sends_ok_def example_os_def shortened_def) (simp add: example_socket_def)
qed

theorem tcp_frames_intact_witness:
  "t_is_sending half_sent \<and> (\<exists>ms m. [0, 3, 1] = concat (map frame ms) @ take 3 (frame m) \<and> subseq (ms @ [m]) [[1, 2, 3]])"
  using tcp_frames_intact [OF example_half_sent] by (simp add: half_sent_def)

text \<open>
  The condition is needed: when the receiving thread finds the connection closed while a
  message is half written, the next \<^verbatim>\<open>perf__tcp_sockready\<close> opens a connection and sends it the
  second half of the message.
\<close>

lemma reconnect_in_mid_message:
  "\<exists>s1 acts s2. perf__tcp_recv Os_closed 4096 half_sent = (Recvd 0 [], s1) \<and>
    perf__tcp_sockready (example_os 11 100) 3 100000 s1 = Ret (is_ready, acts, s2) \<and> on_wire [0, 3, 1] acts = [2, 3]"
proof -
  let ?s1 = "half_sent\<lparr>t_recv_need_reconn := 10\<rparr>"
  have r: "perf__tcp_recv Os_closed 4096 half_sent = (Recvd 0 [], ?s1)"
    by (simp add: perf__tcp_recv_def Let_def half_sent_def example_socket_def)
  have u: "unsent_part (mem_write (replicate TCP_SEND_BUF_SIZE 0) 0 [0, 3, 1, 2, 3]) 3 = [2, 3]"
    by (simp add: unsent_part_def mem_write_def ntohs16_def)
  have len: "ntohs16 (mem_write (replicate TCP_SEND_BUF_SIZE 0) 0 [0, 3, 1, 2, 3] ! 0)
      (mem_write (replicate TCP_SEND_BUF_SIZE 0) 0 [0, 3, 1, 2, 3] ! Suc 0) = 3"
    by (simp add: mem_write_def ntohs16_def)
  have "\<exists>s2. perf__tcp_sockready (example_os 11 100) 3 100000 ?s1 =
      Ret (is_ready, [Opened 11, Closed 10, Wrote [2, 3], Sent_callback 7], s2)"
    by (simp add: perf__tcp_sockready_def tcp_reconnect_def perf__tcp_connect_def tcp_flush_def tcp_nqpc_def tcp_sent_def
        Let_def half_sent_def example_socket_def example_os_def u len)
  then show ?thesis using r by auto
qed

theorem tcp_stream_independent_witness:
  "\<exists>rs s' rest. recv_stream tcp_reader 4096 [0, 2, 0, 0, 0, 0, 0, 0] example_socket (concat (map frame [[1, 2], [3, 4]])) = (rs, s', rest) \<and>
    filter (\<lambda>r. r \<noteq> Recv_error EAGAIN) rs = [Recvd 2 [1, 2], Recvd 2 [3, 4]]"
proof -
  obtain rs s' rest where r: "recv_stream tcp_reader 4096 [0, 2, 0, 0, 0, 0, 0, 0] example_socket (concat (map frame [[1, 2], [3, 4]])) = (rs, s', rest)"
    using prod_cases3 by blast
  have b: "buffered example_socket = []" by (simp add: buffered_def example_socket_def)
  then have "recv_buf_ok example_socket" by (simp add: recv_buf_ok_def complete_def) (simp add: example_socket_def)
  from tcp_stream_independent [OF this b r, THEN conjunct2, rule_format, of "[[1, 2], [3, 4]]"] have
    "filter (\<lambda>r. r \<noteq> Recv_error EAGAIN) rs = map (\<lambda>m. Recvd (length m) (take 4096 m)) [[1, 2], [3, 4]]"
    by (simp add: frame_def)
  then show ?thesis using r by simp
qed

end
