(* ===== verification/Dot.thy ===== *)
theory Dot
  imports Threads Net Framing
begin

text \<open>
  DNS over TLS (\<^verbatim>\<open>net_dot.c\<close>).  Sending and receiving thread take the lock of the socket before
  they touch the connection; a function that finds the lock held waits, which is the result
  \<open>None\<close>.  The functions of the operating system and of OpenSSL are parameters; the bytes on the
  connection are those before encryption.  Socket options, whose failure is only logged, are left
  out.
\<close>

record dot_socket =
  d_fd :: int
  d_locked :: bool
  d_recvbuf :: bytes
  d_sendbuf :: bytes
  d_at :: nat
  d_sending :: nat
  d_is_ready :: bool
  d_is_conn_ready :: bool
  d_have_more :: bool
  d_is_sending :: bool
  d_do_reconnect :: bool
  d_server :: perf_sockaddr
  d_local :: perf_sockaddr
  d_bufsize :: nat
  d_qid :: u16
  d_conn_ts :: u64
  d_conn_event :: perf_socket_event
  d_conning_event :: perf_socket_event
  d_num_queries_per_conn :: nat
  d_nqpc_timeout :: u64
  d_nqpc_sent :: u32
  d_nqpc_recv :: u32
  d_nqpc_ts :: u64
  d_has_sent :: bool
  d_has_event :: bool

text \<open>The result of \<^verbatim>\<open>SSL_get_error\<close>; with \<^verbatim>\<open>SSL_ERROR_SYSCALL\<close> goes the \<^verbatim>\<open>errno\<close>.\<close>

datatype ssl_error =
    SSL_ERROR_WANT_READ | SSL_ERROR_WANT_WRITE | SSL_ERROR_SYSCALL errno | SSL_ERROR_SSL | SSL_ERROR_OTHER nat

datatype ssl_read = Ssl_bytes bytes | Ssl_eof | Ssl_read_error ssl_error

datatype ssl_write = Ssl_sent nat | Ssl_write_error ssl_error

datatype ssl_connect = Ssl_connected | Ssl_refused | Ssl_connect_error ssl_error

text \<open>
  \<open>tls_new\<close> stands for \<^verbatim>\<open>SSL_new\<close>, \<^verbatim>\<open>SSL_set_tlsext_host_name\<close> and \<^verbatim>\<open>SSL_set_fd\<close>, which end the
  program when they fail; \<open>tls_version3\<close> for the version of OpenSSL the program is built with.
\<close>

record dot_os =
  tls_socket :: "address_family \<Rightarrow> int option"
  tls_new :: "int \<Rightarrow> bool"
  tls_bind :: "int \<Rightarrow> perf_sockaddr \<Rightarrow> bool"
  tls_fcntl :: "int \<Rightarrow> bool"
  tls_tcp_connect :: "int \<Rightarrow> perf_sockaddr \<Rightarrow> errno option"
  tls_write :: "bytes \<Rightarrow> ssl_write"
  tls_connect :: ssl_connect
  tls_so_error :: "int \<Rightarrow> errno option"
  tls_poll :: poll
  tls_time :: "nat \<Rightarrow> u64"
  tls_version3 :: bool

section \<open>Connecting\<close>

definition perf__dot_connect :: "dot_os \<Rightarrow> dot_socket \<Rightarrow> (action list \<times> dot_socket) outcome" where
  "perf__dot_connect os s =
    (let s = s\<lparr>d_nqpc_sent := 0, d_nqpc_recv := 0, d_nqpc_ts := 0\<rparr> in
     case tls_socket os (sa_family (d_server s)) of
       None \<Rightarrow> Exit 1
     | Some fd \<Rightarrow>
       let s = s\<lparr>d_fd := fd\<rparr> in
       if \<not> tls_new os fd then Exit 1
       else if \<not> tls_bind os fd (d_local s) then Exit 1
       else if \<not> tls_fcntl os fd then Exit 1
       else
         let s = s\<lparr>d_conn_ts := tls_time os 0\<rparr>;
             acts = (if d_has_event s then [Opened fd, Event_callback (d_conning_event s) (d_conn_ts s)] else [Opened fd]);
             s = (if d_has_event s then s\<lparr>d_conning_event := perf_socket_event_reconnecting\<rparr> else s)
         in case tls_tcp_connect os fd (d_server s) of
              None \<Rightarrow> Ret (acts, s\<lparr>d_is_conn_ready := True\<rparr>)
            | Some e \<Rightarrow> if e = EINPROGRESS then Ret (acts, s) else Exit 1)"

definition perf__dot_reconnect :: "dot_os \<Rightarrow> dot_socket \<Rightarrow> (action list \<times> dot_socket) outcome" where
  "perf__dot_reconnect os s =
    (let acts = [Closed (d_fd s)];
         s = s\<lparr>d_have_more := False, d_at := 0\<rparr>;
         s = (if d_sending s \<noteq> 0 then s\<lparr>d_sending := 0, d_is_sending := False\<rparr> else s);
         s = s\<lparr>d_is_ready := False, d_is_conn_ready := False\<rparr>
     in obind (perf__dot_connect os s) (\<lambda>(as, s). Ret (acts @ as, s)))"

definition perf_net_dot_opensocket :: "dot_os \<Rightarrow> perf_sockaddr \<Rightarrow> perf_sockaddr \<Rightarrow> nat \<Rightarrow> bool \<Rightarrow> bool \<Rightarrow>
    (action list \<times> dot_socket) outcome" where
  "perf_net_dot_opensocket os server local bufsize sent event =
    (let s = \<lparr>d_fd = 0, d_locked = False, d_recvbuf = replicate TCP_RECV_BUF_SIZE 0, d_sendbuf = replicate TCP_SEND_BUF_SIZE 0,
           d_at = 0, d_sending = 0, d_is_ready = False, d_is_conn_ready = False, d_have_more = False, d_is_sending = False,
           d_do_reconnect = False, d_server = server, d_local = local,
           d_bufsize = (if bufsize > 0 then bufsize * 1024 else bufsize), d_qid = 0, d_conn_ts = 0,
           d_conn_event = perf_socket_event_connected, d_conning_event = perf_socket_event_connecting,
           d_num_queries_per_conn = 0, d_nqpc_timeout = 0, d_nqpc_sent = 0, d_nqpc_recv = 0, d_nqpc_ts = 0,
           d_has_sent = sent, d_has_event = event\<rparr>
     in perf__dot_connect os s)"

definition perf__dot_num_queries_per_conn :: "nat \<Rightarrow> u64 \<Rightarrow> dot_socket \<Rightarrow> dot_socket" where
  "perf__dot_num_queries_per_conn n timeout s = s\<lparr>d_num_queries_per_conn := n, d_nqpc_timeout := timeout\<rparr>"

definition perf__dot_close :: "dot_socket \<Rightarrow> action list" where
  "perf__dot_close s = [Closed (d_fd s)]"

definition perf__dot_sockeq :: "dot_socket \<Rightarrow> dot_socket \<Rightarrow> bool" where
  "perf__dot_sockeq a b \<longleftrightarrow> d_fd a = d_fd b"

definition perf__dot_have_more :: "dot_socket \<Rightarrow> bool" where
  "perf__dot_have_more s = d_have_more s"

section \<open>Receiving\<close>

definition dot_deliver :: "nat \<Rightarrow> dot_socket \<Rightarrow> recv_result \<times> dot_socket" where
  "dot_deliver len s =
    (case deliver len (d_recvbuf s) (d_at s) of
       None \<Rightarrow> (Recv_error EAGAIN, s)
     | Some (r, buf, at', hm) \<Rightarrow>
         (r, s\<lparr>d_recvbuf := buf, d_at := at', d_have_more := hm,
           d_nqpc_recv := (if d_num_queries_per_conn s \<noteq> 0 then d_nqpc_recv s + 1 else d_nqpc_recv s)\<rparr>))"

text \<open>The \<^verbatim>\<open>errno\<close> of a failed \<^verbatim>\<open>SSL_read\<close>, and whether the connection is opened again.\<close>

definition read_failed :: "bool \<Rightarrow> ssl_error \<Rightarrow> errno \<times> bool" where
  "read_failed version3 err =
    (case err of
       SSL_ERROR_WANT_READ \<Rightarrow> (EAGAIN, False)
     | SSL_ERROR_SSL \<Rightarrow> if version3 then (EAGAIN, True) else (EBADF, False)
     | SSL_ERROR_SYSCALL e \<Rightarrow> if e \<in> {EBADF, ECONNREFUSED, ECONNRESET, ENOTCONN} then (EAGAIN, True) else (e, False)
     | _ \<Rightarrow> (EBADF, False))"

definition perf__dot_recv :: "dot_os \<Rightarrow> ssl_read \<Rightarrow> nat \<Rightarrow> dot_socket \<Rightarrow> (recv_result \<times> action list \<times> dot_socket) outcome option" where
  "perf__dot_recv os res len s =
    (if d_have_more s then (case dot_deliver len s of (r, s) \<Rightarrow> Some (Ret (r, [], s)))
     else if d_locked s then None
     else if \<not> d_is_ready s then Some (Ret (Recv_error EAGAIN, [], s))
     else case res of
       Ssl_eof \<Rightarrow> Some (obind (perf__dot_reconnect os s) (\<lambda>(acts, s). Ret (Recv_error EAGAIN, acts, s)))
     | Ssl_read_error err \<Rightarrow>
         (case read_failed (tls_version3 os) err of (e, again) \<Rightarrow>
            if again then Some (obind (perf__dot_reconnect os s) (\<lambda>(acts, s). Ret (Recv_error e, acts, s)))
            else Some (Ret (Recv_error e, [], s)))
     | Ssl_bytes bs \<Rightarrow>
         (let s = s\<lparr>d_recvbuf := mem_write (d_recvbuf s) (d_at s) bs, d_at := d_at s + length bs\<rparr>
          in if d_at s < 3 then Some (Ret (Recv_error EAGAIN, [], s))
             else (case dot_deliver len s of (r, s) \<Rightarrow> Some (Ret (r, [], s)))))"

section \<open>Sending\<close>

definition perf__dot_sendto :: "dot_os \<Rightarrow> u16 \<Rightarrow> bytes \<Rightarrow> dot_socket \<Rightarrow> (send_result \<times> action list \<times> dot_socket) outcome option" where
  "perf__dot_sendto os qid buf s =
    (if d_locked s then None
     else
       let fr = send_frame buf;
           s = s\<lparr>d_sendbuf := mem_write (d_sendbuf s) 0 fr, d_qid := qid\<rparr>
       in if \<not> d_is_ready s then Some (Ret (In_progress, [], s\<lparr>d_is_sending := True, d_sending := 0\<rparr>))
          else case tls_write os fr of
            Ssl_write_error err \<Rightarrow>
              (case err of
                 SSL_ERROR_SYSCALL e \<Rightarrow>
                   if e \<in> {ECONNREFUSED, ECONNRESET, ENOTCONN, EPIPE}
                   then Some (obind (perf__dot_reconnect os s) (\<lambda>(acts, s).
                     Ret (In_progress, acts, s\<lparr>d_is_sending := True, d_sending := 0\<rparr>)))
                   else Some (Ret (if e = EINPROGRESS then In_progress else Send_error, [], s))
               | SSL_ERROR_WANT_READ \<Rightarrow> Some (Ret (In_progress, [], s\<lparr>d_is_sending := True, d_sending := 0\<rparr>))
               | SSL_ERROR_WANT_WRITE \<Rightarrow> Some (Ret (In_progress, [], s\<lparr>d_is_sending := True, d_sending := 0\<rparr>))
               | _ \<Rightarrow> Some (Ret (Send_error, [], s\<lparr>d_locked := True\<rparr>)))
          | Ssl_sent n \<Rightarrow>
              if n < length fr then Some (Ret (In_progress, [Wrote (take n fr)], s\<lparr>d_sending := n, d_is_sending := True\<rparr>))
              else Some (Ret (Sent_bytes (n - 2), [Wrote fr], s\<lparr>d_nqpc_sent := d_nqpc_sent s + 1\<rparr>)))"

definition dot_nqpc :: "dot_os \<Rightarrow> dot_socket \<Rightarrow> (sockready \<times> action list \<times> dot_socket) outcome" where
  "dot_nqpc os s =
    (if d_num_queries_per_conn s \<noteq> 0 \<and> unat (d_nqpc_sent s) \<ge> d_num_queries_per_conn s then
       let s = (if d_nqpc_ts s = 0 then s\<lparr>d_nqpc_ts := tls_time os 1 + d_nqpc_timeout s\<rparr> else s)
       in if d_nqpc_recv s \<ge> d_nqpc_sent s \<or> tls_time os 2 > d_nqpc_ts s
          then obind (perf__dot_reconnect os s) (\<lambda>(acts, s). Ret (not_ready, acts, s))
          else Ret (not_ready, [], s)
     else Ret (is_ready, [], s))"

definition dot_flush :: "dot_os \<Rightarrow> dot_socket \<Rightarrow> (sockready \<times> action list \<times> dot_socket) outcome" where
  "dot_flush os s =
    (case tls_write os (unsent_part (d_sendbuf s) (d_sending s)) of
       Ssl_write_error err \<Rightarrow>
         (case err of
            SSL_ERROR_SYSCALL e \<Rightarrow> obind (perf__dot_reconnect os s) (\<lambda>(acts, s). Ret (not_ready, acts, s))
          | _ \<Rightarrow> Ret (not_ready, [], s))
     | Ssl_sent n \<Rightarrow>
         let acts = [Wrote (take n (unsent_part (d_sendbuf s) (d_sending s)))];
             s = s\<lparr>d_sending := d_sending s + n\<rparr>
         in if d_sending s < ntohs16 (d_sendbuf s ! 0) (d_sendbuf s ! 1) + 2 then Ret (not_ready, acts, s)
            else
              let s = s\<lparr>d_sending := 0, d_is_sending := False, d_nqpc_sent := d_nqpc_sent s + 1\<rparr>;
                  acts = (if d_has_sent s then acts @ [Sent_callback (d_qid s)] else acts)
              in obind (dot_nqpc os s) (\<lambda>(r, as, s). Ret (r, acts @ as, s)))"

text \<open>The wait for the connection: \<open>Some\<close> of the result when \<^verbatim>\<open>perf__dot_sockready\<close> returns here.\<close>

definition dot_wait :: "dot_os \<Rightarrow> int \<Rightarrow> int \<Rightarrow> dot_socket \<Rightarrow> (sockready option \<times> dot_socket) outcome" where
  "dot_wait os pipe_fd timeout s =
    (if d_is_conn_ready s then Ret (None, s)
     else obind (perf_os_waituntilanywritable (tls_poll os) [d_fd s] pipe_fd timeout) (\<lambda>r.
       if r = PERF_R_SUCCESS then
         (case tls_so_error os (d_fd s) of
            Some e \<Rightarrow> Ret (Some not_ready, if e \<in> {EINPROGRESS, EAGAIN} then s else s\<lparr>d_do_reconnect := True\<rparr>)
          | None \<Rightarrow> Ret (None, s\<lparr>d_is_conn_ready := True\<rparr>))
       else Ret (Some failed, s)))"

definition dot_handshake :: "dot_os \<Rightarrow> dot_socket \<Rightarrow> sockready \<times> action list \<times> dot_socket" where
  "dot_handshake os s =
    (case tls_connect os of
       Ssl_refused \<Rightarrow> (not_ready, [], s\<lparr>d_do_reconnect := True\<rparr>)
     | Ssl_connect_error err \<Rightarrow>
         (not_ready, [], if err \<in> {SSL_ERROR_WANT_READ, SSL_ERROR_WANT_WRITE} then s else s\<lparr>d_do_reconnect := True\<rparr>)
     | Ssl_connected \<Rightarrow>
         (let s = s\<lparr>d_is_ready := True\<rparr>;
              acts = (if d_has_event s then [Event_callback (d_conn_event s) (tls_time os 3 - d_conn_ts s)] else []);
              s = (if d_has_event s then s\<lparr>d_conn_event := perf_socket_event_reconnected\<rparr> else s)
          in (if d_is_sending s then not_ready else is_ready, acts, s)))"

definition perf__dot_sockready :: "dot_os \<Rightarrow> int \<Rightarrow> int \<Rightarrow> dot_socket \<Rightarrow> (sockready \<times> action list \<times> dot_socket) outcome option" where
  "perf__dot_sockready os pipe_fd timeout s =
    (if d_locked s then None
     else Some (
       obind (if d_do_reconnect s
              then obind (perf__dot_reconnect os s) (\<lambda>(acts, s). Ret (acts, s\<lparr>d_do_reconnect := False\<rparr>))
              else Ret ([], s)) (\<lambda>(acts, s).
       obind (if d_is_ready s then
                if d_is_sending s then dot_flush os s else dot_nqpc os s
              else obind (dot_wait os pipe_fd timeout s) (\<lambda>(r, s).
                case r of
                  Some r \<Rightarrow> Ret (r, [], s)
                | None \<Rightarrow> Ret (dot_handshake os s))) (\<lambda>(r, as, s).
       Ret (r, acts @ as, s)))))"

section \<open>Reading the stream\<close>

definition dot_buffered :: "dot_socket \<Rightarrow> bytes" where
  "dot_buffered s = take (d_at s) (d_recvbuf s)"

text \<open>A socket that is connected, whose lock is free, with a consistent buffer.\<close>

definition dot_recv_ok :: "dot_socket \<Rightarrow> bool" where
  "dot_recv_ok s \<longleftrightarrow> length (d_recvbuf s) = TCP_RECV_BUF_SIZE \<and> d_at s \<le> TCP_RECV_BUF_SIZE \<and> d_is_ready s \<and> \<not> d_locked s \<and>
    (d_have_more s \<longleftrightarrow> complete (dot_buffered s))"

text \<open>Calls of \<^verbatim>\<open>perf__dot_recv\<close> that return.\<close>

definition dot_call :: "dot_os \<Rightarrow> ssl_read \<Rightarrow> nat \<Rightarrow> dot_socket \<Rightarrow> recv_result \<times> dot_socket" where
  "dot_call os res len s =
    (case perf__dot_recv os res len s of Some (Ret (r, acts, s)) \<Rightarrow> (r, s) | _ \<Rightarrow> (Recv_error EINTR, s))"

definition dot_reader :: "dot_os \<Rightarrow> dot_socket reader" where
  "dot_reader os = \<lparr>rd_at = d_at, rd_more = perf__dot_have_more, rd_next = dot_call os Ssl_eof, rd_piece = (\<lambda>bs. dot_call os (Ssl_bytes bs))\<rparr>"

lemma dot_deliver_ok:
  assumes "length (d_recvbuf s) = TCP_RECV_BUF_SIZE" "d_at s \<le> TCP_RECV_BUF_SIZE" "d_is_ready s" "\<not> d_locked s" "3 \<le> d_at s"
  shows "if complete (dot_buffered s)
    then \<exists>s'. dot_deliver len s = (msg_result len (drop 2 (take (frame_length (dot_buffered s)) (dot_buffered s))), s') \<and>
      dot_recv_ok s' \<and> dot_buffered s' = drop (frame_length (dot_buffered s)) (dot_buffered s)
    else dot_deliver len s = (Recv_error EAGAIN, s)"
  using deliver_ok [OF assms(1,2,5) dot_buffered_def, of len] assms(3,4)
  by (auto simp: dot_deliver_def dot_recv_ok_def dot_buffered_def split: if_splits)

interpretation dot: message_reader "dot_reader os" dot_recv_ok dot_buffered for os
proof
  fix s :: dot_socket and len and bs :: bytes
  assume ok: "dot_recv_ok s"
  have b: "length (d_recvbuf s) = TCP_RECV_BUF_SIZE" "d_at s \<le> TCP_RECV_BUF_SIZE" "d_is_ready s" "\<not> d_locked s"
    using ok by (simp_all add: dot_recv_ok_def)
  show "rd_at (dot_reader os) s = length (dot_buffered s) \<and> length (dot_buffered s) \<le> TCP_RECV_BUF_SIZE"
    "rd_more (dot_reader os) s \<longleftrightarrow> complete (dot_buffered s)"
    using ok by (auto simp: dot_reader_def perf__dot_have_more_def dot_recv_ok_def dot_buffered_def)
  show "\<exists>s'. rd_next (dot_reader os) len s = (msg_result len (drop 2 (take (frame_length (dot_buffered s)) (dot_buffered s))), s') \<and>
      dot_recv_ok s' \<and> dot_buffered s' = drop (frame_length (dot_buffered s)) (dot_buffered s)" if c: "complete (dot_buffered s)"
  proof -
    have "3 \<le> d_at s" using c b by (simp add: complete_def dot_buffered_def)
    moreover have "dot_call os Ssl_eof len s = dot_deliver len s"
      using ok c by (simp add: dot_call_def perf__dot_recv_def dot_recv_ok_def split: prod.split)
    ultimately show ?thesis using dot_deliver_ok [OF b, of len] c by (simp add: dot_reader_def)
  qed
  assume c: "\<not> complete (dot_buffered s)" and l: "length (dot_buffered s @ bs) \<le> TCP_RECV_BUF_SIZE"
  let ?s = "s\<lparr>d_recvbuf := mem_write (d_recvbuf s) (d_at s) bs, d_at := d_at s + length bs\<rparr>"
  have at: "d_at s + length bs \<le> TCP_RECV_BUF_SIZE" using l b by (simp add: dot_buffered_def)
  have buf: "length (d_recvbuf ?s) = TCP_RECV_BUF_SIZE" "d_at ?s \<le> TCP_RECV_BUF_SIZE" "d_is_ready ?s" "\<not> d_locked ?s"
    using b at by simp_all
  have eq: "dot_buffered ?s = dot_buffered s @ bs" using b at by (simp add: dot_buffered_def)
  have hm: "\<not> d_have_more ?s" using ok c by (simp add: dot_recv_ok_def)
  have recv: "rd_piece (dot_reader os) bs len s = (if d_at ?s < 3 then (Recv_error EAGAIN, ?s) else dot_deliver len ?s)"
    using b hm by (simp add: dot_reader_def dot_call_def perf__dot_recv_def Let_def split: prod.split)
  show "\<exists>s'. dot_recv_ok s' \<and> (if complete (dot_buffered s @ bs)
      then rd_piece (dot_reader os) bs len s = (msg_result len (drop 2 (take (frame_length (dot_buffered s @ bs)) (dot_buffered s @ bs))), s') \<and>
        dot_buffered s' = drop (frame_length (dot_buffered s @ bs)) (dot_buffered s @ bs)
      else rd_piece (dot_reader os) bs len s = (Recv_error EAGAIN, s') \<and> dot_buffered s' = dot_buffered s @ bs)"
  proof (cases "complete (dot_buffered s @ bs)")
    case True
    then have "3 \<le> d_at ?s" using b by (simp add: complete_def dot_buffered_def)
    then show ?thesis using dot_deliver_ok [OF buf, of len] recv True unfolding eq by auto
  next
    case False
    then have "dot_recv_ok ?s" using buf hm eq by (simp add: dot_recv_ok_def)
    moreover have "rd_piece (dot_reader os) bs len s = (Recv_error EAGAIN, ?s)"
      using dot_deliver_ok [OF buf, of len] recv False unfolding eq by (auto simp: not_less)
    ultimately show ?thesis using False eq by auto
  qed
qed

text \<open>The messages of a TLS stream do not depend on how it is cut into records and reads.\<close>

lemmas dot_stream_independent = dot.stream_messages

section \<open>Writing the stream\<close>

definition writes_ok :: "dot_os \<Rightarrow> bool" where
  "writes_ok os \<longleftrightarrow> (\<forall>bs n. tls_write os bs = Ssl_sent n \<longrightarrow> n \<le> length bs)"

abbreviation dot_wire_ok :: "bytes list \<Rightarrow> dot_socket \<Rightarrow> bytes \<Rightarrow> bool" where
  "dot_wire_ok given s w \<equiv> wire_ok given (d_is_sending s) (d_sending s) (d_sendbuf s) w"

lemma dot_connect_wire:
  assumes "perf__dot_connect os s = Ret (acts, s')"
  shows "on_wire w acts = [] \<and> d_sendbuf s' = d_sendbuf s \<and> d_sending s' = d_sending s \<and> d_is_sending s' = d_is_sending s \<and>
    d_locked s' = d_locked s"
  using assms by (auto simp: perf__dot_connect_def Let_def split: option.splits if_splits)

lemma dot_reconnect_wire:
  assumes "dot_wire_ok given s w" "perf__dot_reconnect os s = Ret (acts, s')"
  shows "dot_wire_ok given s' (on_wire w acts) \<and> d_locked s' = d_locked s \<and> d_sendbuf s' = d_sendbuf s \<and> on_wire w acts = []"
  using assms(2) wire_opened [OF assms(1)]
  by (cases "d_sending s = 0") (auto simp: perf__dot_reconnect_def Let_def dest!: dot_connect_wire [where w = w])

lemma dot_nqpc_wire:
  assumes "dot_wire_ok given s w" "dot_nqpc os s = Ret (r, acts, s')"
  shows "dot_wire_ok given s' (on_wire w acts) \<and> d_locked s' = d_locked s \<and> (r = is_ready \<longrightarrow> d_is_sending s' = d_is_sending s)"
  using assms
  by (auto simp: dot_nqpc_def Let_def split: if_splits dest!: dot_reconnect_wire [where given = given and w = w, rotated])

lemma dot_flush_wire:
  assumes "writes_ok os" "dot_wire_ok given s w" "d_is_sending s" "dot_flush os s = Ret (r, acts, s')"
  shows "dot_wire_ok given s' (on_wire w acts) \<and> d_locked s' = d_locked s \<and> (r = is_ready \<longrightarrow> \<not> d_is_sending s')"
proof -
  let ?u = "unsent_part (d_sendbuf s) (d_sending s)"
  have w: "wire_ok given True (d_sending s) (d_sendbuf s) w" using assms(2,3) by simp
  show ?thesis
  proof (cases "tls_write os ?u")
    case (Ssl_sent n)
    then have "n \<le> length ?u" using assms(1) by (simp add: writes_ok_def)
    note more = wire_more [OF w this]
    let ?w = "w @ take n ?u"
    let ?s = "s\<lparr>d_sending := 0, d_is_sending := False, d_nqpc_sent := d_nqpc_sent s + 1\<rparr>"
    show ?thesis
    proof (cases "d_sending s + n < ntohs16 (d_sendbuf s ! 0) (d_sendbuf s ! 1) + 2")
      case True
      then show ?thesis using assms(3,4) Ssl_sent more(1) by (auto simp: dot_flush_def Let_def)
    next
      case False
      then obtain as where n: "dot_nqpc os ?s = Ret (r, as, s')"
        "acts = (if d_has_sent s then [Wrote (take n ?u), Sent_callback (d_qid s)] else [Wrote (take n ?u)]) @ as"
        using assms(4) Ssl_sent by (auto simp: dot_flush_def Let_def)
      have "dot_wire_ok given ?s ?w" using more(2) [OF False] by simp
      from dot_nqpc_wire [OF this n(1)] show ?thesis using n(2) by (cases "d_has_sent s") auto
    qed
  next
    case (Ssl_write_error err)
    then show ?thesis
      using assms(2-4) dot_reconnect_wire [OF assms(2)]
      by (cases err) (auto simp: dot_flush_def)
  qed
qed

lemma dot_sockready_wire:
  assumes "writes_ok os" "dot_wire_ok given s w" "perf__dot_sockready os pipe_fd timeout s = Some (Ret (r, acts, s'))"
  shows "dot_wire_ok given s' (on_wire w acts) \<and> \<not> d_locked s' \<and> (r = is_ready \<longrightarrow> \<not> d_is_sending s')"
proof -
  have nl: "\<not> d_locked s" using assms(3) by (auto simp: perf__dot_sockready_def split: if_splits)
  obtain a1 s1 where s1: "(if d_do_reconnect s
              then obind (perf__dot_reconnect os s) (\<lambda>(acts, s). Ret (acts, s\<lparr>d_do_reconnect := False\<rparr>))
              else Ret ([], s)) = Ret (a1, s1)"
    using assms(3) nl by (auto simp: perf__dot_sockready_def split: if_splits)
  have w1: "dot_wire_ok given s1 (on_wire w a1)" "\<not> d_locked s1"
    using s1 assms(2) nl by (auto split: if_splits dest!: dot_reconnect_wire [OF assms(2)])
  obtain a2 where a2: "(if d_is_ready s1 then
                if d_is_sending s1 then dot_flush os s1 else dot_nqpc os s1
              else obind (dot_wait os pipe_fd timeout s1) (\<lambda>(r, s).
                case r of
                  Some r \<Rightarrow> Ret (r, [], s)
                | None \<Rightarrow> Ret (dot_handshake os s))) = Ret (r, a2, s')" "acts = a1 @ a2"
    using assms(3) nl s1 unfolding perf__dot_sockready_def by (auto simp: split_beta)
  show ?thesis
  proof (cases "d_is_ready s1")
    case True
    then show ?thesis
      using a2 dot_flush_wire [OF assms(1) w1(1), of r a2 s'] dot_nqpc_wire [OF w1(1), of os r a2 s'] w1(2)
      by (auto split: if_splits)
  next
    case False
    then obtain q s2 where q: "dot_wait os pipe_fd timeout s1 = Ret (q, s2)" using a2(1) by auto
    then have s2: "d_sendbuf s2 = d_sendbuf s1 \<and> d_sending s2 = d_sending s1 \<and> d_is_sending s2 = d_is_sending s1 \<and> d_locked s2 = d_locked s1 \<and>
        q \<noteq> Some is_ready"
      by (auto simp: dot_wait_def split: if_splits option.splits)
    then show ?thesis
      using a2 False q w1
      by (auto simp: dot_handshake_def Let_def split: option.splits ssl_connect.splits if_splits)
  qed
qed

lemma dot_sendto_wire:
  assumes "writes_ok os" "dot_wire_ok given s w" "\<not> d_is_sending s" "perf__dot_sendto os qid m s = Some (Ret (r, acts, s'))"
  shows "dot_wire_ok (given @ [shortened m]) s' (on_wire w acts)"
proof -
  have w: "wire_ok given False (d_sending s) (d_sendbuf s) w" using assms(2,3) by simp
  note new = wire_new [OF w refl, where m = m]
  have "0 < length (send_frame m)" by (simp add: length_send_frame)
  note zero = new(1) [OF this]
  let ?s = "s\<lparr>d_sendbuf := mem_write (d_sendbuf s) 0 (send_frame m), d_qid := qid\<rparr>"
  have idle: "dot_wire_ok (given @ [shortened m]) ?s w" using new(2) assms(3) by simp
  have open_again: "wire_ok (given @ [shortened m]) True 0 (d_sendbuf ?s) []" using wire_opened(1) [OF zero] by simp
  have re: "wire_ok (given @ [shortened m]) True 0 (d_sendbuf s2) (on_wire w as)" if "perf__dot_reconnect os ?s = Ret (as, s2)" for as s2
    using dot_reconnect_wire [OF idle that] open_again by simp
  show ?thesis
    using new zero re assms(3,4)
    by (auto simp: perf__dot_sendto_def Let_def split: if_splits ssl_write.splits ssl_error.splits)
qed

lemma dot_recv_wire:
  assumes "dot_wire_ok given s w" "perf__dot_recv os res len s = Some (Ret (r, acts, s'))"
  shows "dot_wire_ok given s' (on_wire w acts) \<and> d_locked s' = d_locked s"
proof -
  have "d_sendbuf s2 = d_sendbuf s1 \<and> d_sending s2 = d_sending s1 \<and> d_is_sending s2 = d_is_sending s1 \<and> d_locked s2 = d_locked s1"
    if "dot_deliver len s1 = (r', s2)" for s1 s2 r'
    using that by (auto simp: dot_deliver_def split: option.splits)
  note del = this
  have re: "dot_wire_ok given s2 (on_wire w as)" "d_locked s2 = d_locked s" if "perf__dot_reconnect os s = Ret (as, s2)" for as s2
    using dot_reconnect_wire [OF assms(1) that] by blast+
  show ?thesis
  proof (cases "d_have_more s")
    case True
    then show ?thesis using assms del by (auto simp: perf__dot_recv_def split: prod.splits)
  next
    case False
    then show ?thesis
      using assms del re
      by (cases res) (auto simp: perf__dot_recv_def Let_def split: if_splits prod.splits)
  qed
qed

text \<open>
  A socket in use, with the messages given to be sent and the bytes on the current connection:
  the sending thread checks that the socket is ready before it sends, the receiving thread reads
  at any time, and both may open a new connection.
\<close>

inductive dot_use :: "dot_socket \<Rightarrow> bytes list \<Rightarrow> bytes \<Rightarrow> bool" where
  opened: "perf_net_dot_opensocket os server local bufsize sent event = Ret (acts, s) \<Longrightarrow> dot_use s [] []"
| limit: "dot_use s given w \<Longrightarrow> dot_use (perf__dot_num_queries_per_conn n timeout s) given w"
| ready: "dot_use s given w \<Longrightarrow> writes_ok os \<Longrightarrow>
    perf__dot_sockready os pipe_fd timeout s = Some (Ret (r, acts, s')) \<Longrightarrow> dot_use s' given (on_wire w acts)"
| send: "dot_use s given w \<Longrightarrow> writes_ok os \<Longrightarrow> \<not> d_is_sending s \<Longrightarrow>
    perf__dot_sendto os qid m s = Some (Ret (r, acts, s')) \<Longrightarrow> dot_use s' (given @ [shortened m]) (on_wire w acts)"
| recv: "dot_use s given w \<Longrightarrow> perf__dot_recv os res len s = Some (Ret (r, acts, s')) \<Longrightarrow> dot_use s' given (on_wire w acts)"

lemma dot_use_wire: "dot_use s given w \<Longrightarrow> dot_wire_ok given s w"
proof (induction rule: dot_use.induct)
  case (opened os server local bufsize sent event acts s)
  then have "\<not> d_is_sending s \<and> d_sendbuf s = replicate TCP_SEND_BUF_SIZE 0"
    by (auto simp: perf_net_dot_opensocket_def Let_def dest!: dot_connect_wire [where w = "[]"])
  then show ?case using wire_idleI [of "d_sendbuf s" "[]" "[]"] by simp
next
  case (limit s given w n timeout)
  then show ?case by (simp add: perf__dot_num_queries_per_conn_def)
next
  case (ready s given w os pipe_fd timeout r acts s')
  then show ?case using dot_sockready_wire by blast
next
  case (send s given w os qid m r acts s')
  then show ?case by (blast intro: dot_sendto_wire)
next
  case (recv s given w os res len r acts s')
  then show ?case using dot_recv_wire by blast
qed


section \<open>The lock\<close>

text \<open>
  Every function that returns has released the lock, but for \<^verbatim>\<open>perf__dot_sendto\<close> on an error of
  \<^verbatim>\<open>SSL_write\<close> that is neither a system error nor a request to try again.
\<close>

lemma dot_locks:
  "perf__dot_recv os res len s = Some (Ret (r, acts, s')) \<Longrightarrow> dot_wire_ok given s w \<Longrightarrow> \<not> d_locked s \<Longrightarrow> \<not> d_locked s'"
  "perf__dot_sockready os pipe_fd timeout s = Some (Ret (q, acts, s')) \<Longrightarrow> dot_wire_ok given s w \<Longrightarrow> writes_ok os \<Longrightarrow> \<not> d_locked s'"
  using dot_recv_wire dot_sockready_wire by blast+

lemma dot_lock_kept:
  assumes "\<not> d_locked s" "\<not> d_have_more s" "d_is_ready s" "tls_write os (send_frame m) = Ssl_write_error SSL_ERROR_SSL"
  shows "\<exists>s'. perf__dot_sendto os qid m s = Some (Ret (Send_error, [], s')) \<and>
    (\<forall>os pipe_fd timeout. perf__dot_sockready os pipe_fd timeout s' = None) \<and> (\<forall>os res len. perf__dot_recv os res len s' = None)"
  using assms by (simp add: perf__dot_sendto_def perf__dot_sockready_def perf__dot_recv_def Let_def)

section \<open>Examples\<close>

definition example_tls :: dot_os where
  "example_tls = \<lparr>tls_socket = (\<lambda>_. Some 10), tls_new = (\<lambda>_. True), tls_bind = (\<lambda>_ _. True), tls_fcntl = (\<lambda>_. True),
     tls_tcp_connect = (\<lambda>_ _. None), tls_write = (\<lambda>bs. Ssl_sent (min 3 (length bs))), tls_connect = Ssl_connected,
     tls_so_error = (\<lambda>_. None), tls_poll = (\<lambda>_ _. Poll_events False), tls_time = (\<lambda>_. 1000), tls_version3 = True\<rparr>"

definition example_dot :: dot_socket where
  "example_dot = \<lparr>d_fd = 10, d_locked = False, d_recvbuf = replicate TCP_RECV_BUF_SIZE 0, d_sendbuf = replicate TCP_SEND_BUF_SIZE 0,
     d_at = 0, d_sending = 0, d_is_ready = False, d_is_conn_ready = True, d_have_more = False, d_is_sending = False,
     d_do_reconnect = False, d_server = perf_sockaddr_fromin [127, 0, 0, 1] 853, d_local = perf_sockaddr_fromin [0, 0, 0, 0] 0,
     d_bufsize = 0, d_qid = 0, d_conn_ts = 1000,
     d_conn_event = perf_socket_event_connected, d_conning_event = perf_socket_event_connecting,
     d_num_queries_per_conn = 0, d_nqpc_timeout = 0, d_nqpc_sent = 0, d_nqpc_recv = 0, d_nqpc_ts = 0,
     d_has_sent = True, d_has_event = False\<rparr>"

lemma example_tls_writes: "writes_ok example_tls"
  by (simp add: writes_ok_def example_tls_def)

lemma example_dot_opened: "dot_use example_dot [] []"
  by (rule dot_use.opened [of example_tls "perf_sockaddr_fromin [127, 0, 0, 1] 853" "perf_sockaddr_fromin [0, 0, 0, 0] 0" 0
        True False "[Opened 10]"])
    (simp add: perf_net_dot_opensocket_def perf__dot_connect_def Let_def example_tls_def example_dot_def)

lemma example_dot_ready: "dot_use (example_dot\<lparr>d_is_ready := True\<rparr>) [] []"
proof -
  have "perf__dot_sockready example_tls 3 100000 example_dot = Some (Ret (is_ready, [], example_dot\<lparr>d_is_ready := True\<rparr>))"
    by (simp add: perf__dot_sockready_def dot_wait_def dot_handshake_def Let_def example_tls_def example_dot_def)
  from dot_use.ready [OF example_dot_opened example_tls_writes this] show ?thesis by simp
qed


end
