(* ===== verification/Transport.thy ===== *)
theory Transport
  imports Tcp Dot
begin

text \<open>
  UDP sockets (\<^verbatim>\<open>net_udp.c\<close>), and what the three transports promise to their user: the contract
  written into \<^verbatim>\<open>struct perf_net_socket\<close> of \<^verbatim>\<open>net.h\<close>.
\<close>

section \<open>UDP\<close>

record udp_socket =
  u_fd :: int

record udp_os =
  udp_new :: "address_family \<Rightarrow> int option"
  udp_bind :: "int \<Rightarrow> perf_sockaddr \<Rightarrow> bool"
  udp_fcntl :: "int \<Rightarrow> bool"
  udp_recv :: "int \<Rightarrow> nat \<Rightarrow> recv_result"
  udp_sendto :: "int \<Rightarrow> bytes \<Rightarrow> os_send"

definition perf__udp_recv :: "udp_os \<Rightarrow> nat \<Rightarrow> udp_socket \<Rightarrow> recv_result" where
  "perf__udp_recv os len s = udp_recv os (u_fd s) len"

definition perf__udp_sendto :: "udp_os \<Rightarrow> u16 \<Rightarrow> bytes \<Rightarrow> udp_socket \<Rightarrow> send_result \<times> action list" where
  "perf__udp_sendto os qid buf s =
    (case udp_sendto os (u_fd s) buf of
       Os_sent n \<Rightarrow> (Sent_bytes n, [Wrote (take n buf)])
     | Os_send_error e \<Rightarrow> (if e = EINPROGRESS then In_progress else Send_error, []))"

definition perf__udp_close :: "udp_socket \<Rightarrow> action list" where
  "perf__udp_close s = [Closed (u_fd s)]"

definition perf__udp_sockeq :: "udp_socket \<Rightarrow> udp_socket \<Rightarrow> bool" where
  "perf__udp_sockeq a b \<longleftrightarrow> u_fd a = u_fd b"

definition perf__udp_sockready :: "udp_socket \<Rightarrow> sockready" where
  "perf__udp_sockready s = is_ready"

definition perf_net_udp_opensocket :: "udp_os \<Rightarrow> perf_sockaddr \<Rightarrow> perf_sockaddr \<Rightarrow> udp_socket outcome" where
  "perf_net_udp_opensocket os server local =
    (case udp_new os (sa_family server) of
       None \<Rightarrow> Exit 1
     | Some fd \<Rightarrow>
       if \<not> udp_bind os fd local then Exit 1
       else if \<not> udp_fcntl os fd then Exit 1
       else Ret \<lparr>u_fd = fd\<rparr>)"

section \<open>The contract\<close>

fun callbacks :: "action list \<Rightarrow> u16 list" where
  "callbacks [] = []"
| "callbacks (Sent_callback q # as) = q # callbacks as"
| "callbacks (_ # as) = callbacks as"

lemma callbacks_append [simp]: "callbacks (as @ bs) = callbacks as @ callbacks bs"
  by (induction as rule: callbacks.induct) auto

text \<open>
  The two functions a sender calls, with the parameters of the environment for each call; the
  result is \<open>None\<close> when a call does not return.
\<close>

record ('o, 's) net_socket =
  ns_ready :: "'o \<Rightarrow> 's \<Rightarrow> (sockready \<times> action list \<times> 's) option"
  ns_sendto :: "'o \<Rightarrow> u16 \<Rightarrow> bytes \<Rightarrow> 's \<Rightarrow> (send_result \<times> action list \<times> 's) option"

text \<open>
  A sender with one socket: it checks that the socket is ready and, if so, sends the next message.
  The result are the identifiers for which \<^verbatim>\<open>perf_net_sendto\<close> said that sending is in progress, and
  those the callback was called with.
\<close>

fun sender_session :: "('o, 's) net_socket \<Rightarrow> ('o \<times> 'o) list \<Rightarrow> (u16 \<times> bytes) list \<Rightarrow> 's \<Rightarrow> u16 list \<times> u16 list \<times> 's" where
  "sender_session ns [] ms s = ([], [], s)"
| "sender_session ns ((o1, o2) # os) ms s =
    (case ns_ready ns o1 s of
       None \<Rightarrow> ([], [], s)
     | Some (r, acts, s) \<Rightarrow>
       (case (r, ms) of
          (is_ready, (q, m) # ms) \<Rightarrow>
            (case ns_sendto ns o2 q m s of
               None \<Rightarrow> ([], callbacks acts, s)
             | Some (r, acts', s) \<Rightarrow>
               (case sender_session ns os ms s of (ds, cs, s) \<Rightarrow>
                  ((if r = In_progress then [q] else []) @ ds, callbacks acts @ callbacks acts' @ cs, s)))
        | _ \<Rightarrow> (case sender_session ns os ms s of (ds, cs, s) \<Rightarrow> (ds, callbacks acts @ cs, s))))"

locale transport =
  fixes ns :: "('o, 's) net_socket"
    and good :: "'s \<Rightarrow> bool"
    and busy :: "'s \<Rightarrow> u16 option"
  assumes ready_ok: "good s \<Longrightarrow> ns_ready ns e s = Some (rr, acts, s') \<Longrightarrow>
      good s' \<and> (rr = is_ready \<longrightarrow> busy s' = None) \<and>
      (callbacks acts = [] \<and> (busy s' = busy s \<or> busy s' = None) \<or> (\<exists>q. busy s = Some q \<and> callbacks acts = [q] \<and> busy s' = None))"
    and sendto_ok: "good s \<Longrightarrow> busy s = None \<Longrightarrow> ns_sendto ns e q m s = Some (r, acts, s') \<Longrightarrow>
      good s' \<and> callbacks acts = [] \<and> (busy s' = None \<or> busy s' = Some q \<and> r = In_progress)"
begin

lemma session_callbacks:
  assumes "good s" "sender_session ns os ms s = (ds, cs, s')"
  shows "subseq cs ((case busy s of None \<Rightarrow> [] | Some q \<Rightarrow> [q]) @ ds)"
  using assms
proof (induction os arbitrary: ms s ds cs s')
  case (Cons o12 os)
  obtain o1 o2 where o12: "o12 = (o1, o2)" by (cases o12)
  show ?case
  proof (cases "ns_ready ns o1 s")
    case None
    then show ?thesis using Cons.prems o12 by simp
  next
    case (Some x)
    obtain r acts s1 where x: "x = (r, acts, s1)" by (cases x)
    note rdy = ready_ok [OF Cons.prems(1) Some [unfolded x]]
    have keep: "subseq (callbacks acts @ cs1) ((case busy s of None \<Rightarrow> [] | Some q \<Rightarrow> [q]) @ ds1)"
      if "subseq cs1 ((case busy s1 of None \<Rightarrow> [] | Some q \<Rightarrow> [q]) @ ds1)" for cs1 ds1
      using rdy that by (auto split: option.splits intro: subseq_drop_many list_emb_append_mono)
    show ?thesis
    proof (cases "r = is_ready \<and> ms \<noteq> []")
      case True
      then obtain q m ms' where ms: "ms = (q, m) # ms'" by (cases ms) auto
      have idle: "busy s1 = None" using rdy True by simp
      show ?thesis
      proof (cases "ns_sendto ns o2 q m s1")
        case None
        then show ?thesis using Cons.prems(2) o12 Some x ms True keep [of "[]" "[]"] by simp
      next
        case (Some y)
        obtain r2 a2 s2 where y: "y = (r2, a2, s2)" by (cases y)
        note snd = sendto_ok [OF conjunct1 [OF rdy] idle Some [unfolded y]]
        obtain ds2 cs2 s3 where ses: "sender_session ns os ms' s2 = (ds2, cs2, s3)" using prod_cases3 by blast
        have eq: "ds = (if r2 = In_progress then [q] else []) @ ds2" "cs = callbacks acts @ cs2"
          using Cons.prems(2) o12 \<open>ns_ready ns o1 s = Some x\<close> x ms True Some y ses snd by (auto split: prod.splits)
        have "subseq cs2 ((case busy s2 of None \<Rightarrow> [] | Some q \<Rightarrow> [q]) @ ds2)" using Cons.IH [OF _ ses] snd by simp
        then have "subseq cs2 ((if r2 = In_progress then [q] else []) @ ds2)"
          using snd by (auto split: option.splits intro: subseq_drop_many)
        then show ?thesis using keep [of cs2 ds] idle eq by simp
      qed
    next
      case False
      obtain ds1 cs1 s3 where ses: "sender_session ns os ms s1 = (ds1, cs1, s3)" using prod_cases3 by blast
      have eq: "ds = ds1" "cs = callbacks acts @ cs1"
        using Cons.prems(2) o12 Some x False ses by (cases r; cases ms; auto split: prod.splits)+
      have "subseq cs1 ((case busy s1 of None \<Rightarrow> [] | Some q \<Rightarrow> [q]) @ ds1)" using Cons.IH [OF _ ses] rdy by simp
      then show ?thesis using keep eq by simp
    qed
  qed
qed simp

end

section \<open>The transports keep it\<close>

definition udp_net :: "(udp_os, udp_socket) net_socket" where
  "udp_net = \<lparr>ns_ready = (\<lambda>os s. Some (perf__udp_sockready s, [], s)),
     ns_sendto = (\<lambda>os q m s. case perf__udp_sendto os q m s of (r, acts) \<Rightarrow> Some (r, acts, s))\<rparr>"

fun returned :: "'a outcome \<Rightarrow> 'a option" where
  "returned (Ret x) = Some x"
| "returned _ = None"

definition tcp_net :: "int \<Rightarrow> int \<Rightarrow> (tcp_os, tcp_socket) net_socket" where
  "tcp_net pipe_fd timeout = \<lparr>ns_ready = (\<lambda>os s. returned (perf__tcp_sockready os pipe_fd timeout s)),
     ns_sendto = (\<lambda>os q m s. Some (perf__tcp_sendto os q m s))\<rparr>"

definition dot_net :: "int \<Rightarrow> int \<Rightarrow> (dot_os, dot_socket) net_socket" where
  "dot_net pipe_fd timeout = \<lparr>ns_ready = (\<lambda>os s. Option.bind (perf__dot_sockready os pipe_fd timeout s) returned),
     ns_sendto = (\<lambda>os q m s. Option.bind (perf__dot_sendto os q m s) returned)\<rparr>"

lemma returned_Some [simp]: "returned x = Some y \<longleftrightarrow> x = Ret y"
  by (cases x) auto

definition tcp_busy :: "tcp_socket \<Rightarrow> u16 option" where
  "tcp_busy s = (if t_is_sending s then Some (t_qid s) else None)"

definition dot_busy :: "dot_socket \<Rightarrow> u16 option" where
  "dot_busy s = (if d_is_sending s then Some (d_qid s) else None)"

interpretation udp_net: transport udp_net "\<lambda>_. True" "\<lambda>_. None"
  by unfold_locales (auto simp: udp_net_def perf__udp_sockready_def perf__udp_sendto_def split: os_send.splits)

lemma tcp_connect_callbacks:
  "perf__tcp_connect i os s = Ret (fd, acts, s') \<Longrightarrow> callbacks acts = [] \<and> tcp_busy s' = tcp_busy s \<and> t_sending s' = t_sending s"
  by (auto simp: perf__tcp_connect_def tcp_busy_def Let_def split: option.splits if_splits)

lemma tcp_reconnect_callbacks:
  "tcp_reconnect i os s = Ret (acts, s') \<Longrightarrow> callbacks acts = [] \<and> tcp_busy s' = tcp_busy s \<and> t_sending s' = t_sending s"
  by (auto simp: tcp_reconnect_def tcp_busy_def split: if_splits dest!: tcp_connect_callbacks)

abbreviation called_back :: "action list \<Rightarrow> u16 option \<Rightarrow> u16 option \<Rightarrow> bool" where
  "called_back acts b b' \<equiv> callbacks acts = [] \<and> (b' = b \<or> b' = None) \<or> (\<exists>q. b = Some q \<and> callbacks acts = [q] \<and> b' = None)"

lemma tcp_conn_cont_callbacks:
  assumes "tcp_conn_cont os pipe_fd timeout s = Ret (r, acts, s')"
  shows "(r = is_ready \<longrightarrow> tcp_busy s' = None) \<and> called_back acts (tcp_busy s) (tcp_busy s')"
  using assms
  by (auto simp: tcp_conn_cont_def tcp_sent_def tcp_busy_def Let_def split: if_splits option.splits os_send.splits)

lemma tcp_nqpc_busy: "tcp_nqpc os s = (r, s') \<Longrightarrow> tcp_busy s' = tcp_busy s"
  by (auto simp: tcp_nqpc_def tcp_busy_def Let_def split: if_splits)

lemma tcp_flush_callbacks:
  assumes "t_is_sending s" "tcp_flush os pipe_fd timeout s = Ret (r, acts, s')"
  shows "(r = is_ready \<longrightarrow> tcp_busy s' = None) \<and> called_back acts (tcp_busy s) (tcp_busy s')"
proof (cases "os_sendto os 0 (t_fd s) (unsent_part (t_sendbuf s) (t_sending s))")
  case (Os_sent n)
  then show ?thesis
    using assms by (auto simp: tcp_flush_def tcp_sent_def Let_def split: if_splits prod.splits dest!: tcp_nqpc_busy) (auto simp: tcp_busy_def)
next
  case (Os_send_error e)
  show ?thesis
  proof (cases "e = EAGAIN")
    case False
    obtain a1 s1 where s1: "tcp_reconnect 1 os s = Ret (a1, s1)"
      using assms(2) Os_send_error False by (cases "tcp_reconnect 1 os s") (auto simp: tcp_flush_def)
    obtain a2 where a2: "tcp_conn_cont os pipe_fd timeout (tcp_give_up s1) = Ret (r, a2, s')" "acts = a1 @ a2"
      using assms(2) Os_send_error False s1 by (auto simp: tcp_flush_def split_beta)
    have "tcp_busy (tcp_give_up s1) = tcp_busy s1 \<or> tcp_busy (tcp_give_up s1) = None" by (simp add: tcp_give_up_def tcp_busy_def)
    then show ?thesis using tcp_conn_cont_callbacks [OF a2(1)] tcp_reconnect_callbacks [OF s1] a2(2) by auto
  qed (use assms Os_send_error in \<open>simp add: tcp_flush_def\<close>)
qed

lemma tcp_sockready_callbacks:
  assumes "perf__tcp_sockready os pipe_fd timeout s = Ret (r, acts, s')"
  shows "(r = is_ready \<longrightarrow> tcp_busy s' = None) \<and> called_back acts (tcp_busy s) (tcp_busy s')"
proof -
  obtain a1 s1 where s1: "(if t_recv_need_reconn s = t_fd s \<or> t_need_reconnect s
           then obind (tcp_reconnect 0 os s) (\<lambda>(acts, s). Ret (acts, s\<lparr>t_need_reconnect := False\<rparr>))
           else Ret ([], s)) = Ret (a1, s1)"
    using assms by (auto simp: perf__tcp_sockready_def split: if_splits)
  have b: "callbacks a1 = [] \<and> tcp_busy s1 = tcp_busy s"
    using s1 by (auto simp: tcp_busy_def split: if_splits dest!: tcp_reconnect_callbacks)
  obtain a2 where a2: "(if t_is_ready s1 then
             if t_is_sending s1 then tcp_flush os pipe_fd timeout s1
             else (case tcp_nqpc os s1 of (r, s) \<Rightarrow> Ret (r, [], s))
           else tcp_conn_cont os pipe_fd timeout s1) = Ret (r, a2, s')" "acts = a1 @ a2"
    using assms s1 unfolding perf__tcp_sockready_def by (auto simp: split_beta)
  have "(r = is_ready \<longrightarrow> tcp_busy s' = None) \<and> called_back a2 (tcp_busy s1) (tcp_busy s')"
  proof (cases "t_is_ready s1 \<and> \<not> t_is_sending s1")
    case True
    then obtain "tcp_nqpc os s1 = (r, s')" "a2 = []" using a2(1) by (auto split: prod.splits)
    then show ?thesis using tcp_nqpc_busy [of os s1 r s'] True by (auto simp: tcp_busy_def)
  next
    case False
    then show ?thesis
      using a2(1) tcp_conn_cont_callbacks [of os pipe_fd timeout s1 r a2 s'] tcp_flush_callbacks [of s1 os pipe_fd timeout r a2 s']
      by (auto split: if_splits)
  qed
  then show ?thesis using b a2(2) by auto
qed

interpretation tcp_net: transport "tcp_net pipe_fd timeout" "\<lambda>_. True" tcp_busy for pipe_fd timeout
proof
  fix s e rr acts s'
  assume "ns_ready (tcp_net pipe_fd timeout) e s = Some (rr, acts, s')"
  then have "perf__tcp_sockready e pipe_fd timeout s = Ret (rr, acts, s')" by (simp add: tcp_net_def)
  from tcp_sockready_callbacks [OF this]
  show "True \<and> (rr = is_ready \<longrightarrow> tcp_busy s' = None) \<and> called_back acts (tcp_busy s) (tcp_busy s')" by simp
next
  fix s e q m r acts s'
  assume "tcp_busy s = None" "ns_sendto (tcp_net pipe_fd timeout) e q m s = Some (r, acts, s')"
  then show "True \<and> callbacks acts = [] \<and> (tcp_busy s' = None \<or> tcp_busy s' = Some q \<and> r = In_progress)"
    by (auto simp: tcp_net_def tcp_busy_def perf__tcp_sendto_def Let_def split: if_splits os_send.splits)
qed

lemma dot_reconnect_callbacks:
  "perf__dot_reconnect os s = Ret (acts, s') \<Longrightarrow> callbacks acts = [] \<and> (dot_busy s' = dot_busy s \<or> dot_busy s' = None) \<and>
    (d_sending s = 0 \<longrightarrow> dot_busy s' = dot_busy s) \<and> d_qid s' = d_qid s"
  by (auto simp: perf__dot_reconnect_def perf__dot_connect_def dot_busy_def Let_def split: option.splits if_splits)

lemma dot_nqpc_callbacks:
  "dot_nqpc os s = Ret (r, acts, s') \<Longrightarrow> callbacks acts = [] \<and> (dot_busy s' = dot_busy s \<or> dot_busy s' = None)"
  by (auto simp: dot_nqpc_def Let_def dot_busy_def split: if_splits dest!: dot_reconnect_callbacks)

lemma dot_flush_callbacks:
  assumes "d_is_sending s" "dot_flush os s = Ret (r, acts, s')"
  shows "(r = is_ready \<longrightarrow> dot_busy s' = None) \<and> called_back acts (dot_busy s) (dot_busy s')"
  using assms
  by (auto simp: dot_flush_def Let_def dot_busy_def split: if_splits ssl_write.splits ssl_error.splits
      dest!: dot_reconnect_callbacks dot_nqpc_callbacks)

lemma dot_sockready_callbacks:
  assumes "perf__dot_sockready os pipe_fd timeout s = Some (Ret (r, acts, s'))"
  shows "(r = is_ready \<longrightarrow> dot_busy s' = None) \<and> called_back acts (dot_busy s) (dot_busy s')"
proof -
  have nl: "\<not> d_locked s" using assms by (auto simp: perf__dot_sockready_def split: if_splits)
  obtain a1 s1 where s1: "(if d_do_reconnect s
              then obind (perf__dot_reconnect os s) (\<lambda>(acts, s). Ret (acts, s\<lparr>d_do_reconnect := False\<rparr>))
              else Ret ([], s)) = Ret (a1, s1)"
    using assms nl by (auto simp: perf__dot_sockready_def split: if_splits)
  have b: "callbacks a1 = [] \<and> (dot_busy s1 = dot_busy s \<or> dot_busy s1 = None)"
    using s1 by (auto simp: dot_busy_def split: if_splits dest!: dot_reconnect_callbacks)
  obtain a2 where a2: "(if d_is_ready s1 then
                if d_is_sending s1 then dot_flush os s1 else dot_nqpc os s1
              else obind (dot_wait os pipe_fd timeout s1) (\<lambda>(r, s).
                case r of
                  Some r \<Rightarrow> Ret (r, [], s)
                | None \<Rightarrow> Ret (dot_handshake os s))) = Ret (r, a2, s')" "acts = a1 @ a2"
    using assms nl s1 unfolding perf__dot_sockready_def by (auto simp: split_beta)
  have "(r = is_ready \<longrightarrow> dot_busy s' = None) \<and> called_back a2 (dot_busy s1) (dot_busy s')"
  proof (cases "d_is_ready s1")
    case True
    then show ?thesis
      using a2(1) dot_flush_callbacks [of s1 os r a2 s'] dot_nqpc_callbacks [of os s1 r a2 s']
      by (auto simp: dot_busy_def split: if_splits)
  next
    case False
    then obtain q s2 where q: "dot_wait os pipe_fd timeout s1 = Ret (q, s2)" using a2(1) by auto
    then have "dot_busy s2 = dot_busy s1 \<and> q \<noteq> Some is_ready"
      by (auto simp: dot_wait_def dot_busy_def split: if_splits option.splits)
    then show ?thesis
      using a2(1) False q
      by (auto simp: dot_handshake_def dot_busy_def Let_def split: option.splits ssl_connect.splits if_splits)
  qed
  then show ?thesis using b a2(2) by auto
qed

interpretation dot_net: transport "dot_net pipe_fd timeout" "\<lambda>_. True" dot_busy for pipe_fd timeout
proof
  fix s e rr acts s'
  assume "ns_ready (dot_net pipe_fd timeout) e s = Some (rr, acts, s')"
  then have "perf__dot_sockready e pipe_fd timeout s = Some (Ret (rr, acts, s'))" by (auto simp: dot_net_def Option.bind_eq_Some_conv)
  from dot_sockready_callbacks [OF this]
  show "True \<and> (rr = is_ready \<longrightarrow> dot_busy s' = None) \<and> called_back acts (dot_busy s) (dot_busy s')" by simp
next
  fix s e q m r acts s'
  assume idle: "dot_busy s = None" and "ns_sendto (dot_net pipe_fd timeout) e q m s = Some (r, acts, s')"
  then have "perf__dot_sendto e q m s = Some (Ret (r, acts, s'))" by (auto simp: dot_net_def Option.bind_eq_Some_conv)
  then show "True \<and> callbacks acts = [] \<and> (dot_busy s' = None \<or> dot_busy s' = Some q \<and> r = In_progress)"
    using idle
    by (auto simp: perf__dot_sendto_def dot_busy_def Let_def split: if_splits ssl_write.splits ssl_error.splits
        dest!: dot_reconnect_callbacks)
qed


lemma example_flush:
  "\<exists>s'. perf__tcp_sockready (example_os 10 100) 3 100000 half_sent = Ret (is_ready, [Wrote [2, 3], Sent_callback 7], s')"
proof -
  have u: "unsent_part (mem_write (replicate TCP_SEND_BUF_SIZE 0) 0 [0, 3, 1, 2, 3]) 3 = [2, 3]"
    by (simp add: unsent_part_def mem_write_def ntohs16_def)
  have len: "ntohs16 (mem_write (replicate TCP_SEND_BUF_SIZE 0) 0 [0, 3, 1, 2, 3] ! 0)
      (mem_write (replicate TCP_SEND_BUF_SIZE 0) 0 [0, 3, 1, 2, 3] ! Suc 0) = 3"
    by (simp add: mem_write_def ntohs16_def)
  show ?thesis
    by (simp add: perf__tcp_sockready_def tcp_flush_def tcp_nqpc_def tcp_sent_def Let_def half_sent_def example_socket_def
        example_os_def u len)
qed


end
