(* ===== verification/Resperf.thy ===== *)
theory Resperf
  imports Qlist Stats Framing Dns Runs Threads
begin

text \<open>
  The program \<^verbatim>\<open>resperf\<close> (\<^verbatim>\<open>resperf.c\<close>): one thread that raises the rate of queries step by
  step, keeps it, and waits for the last responses.  The static variables are the record
  \<open>resperf\<close>.  Every call of a transport returns, besides its result, the callbacks it makes
  meanwhile; the number of queries that should have been sent by a given time, which the code
  computes with floating-point numbers, is a parameter.  Sums of floating-point latencies are kept
  as sums of the microseconds they are made from.
\<close>

section \<open>State\<close>

datatype rp_list = on_instanding | on_outstanding

record rp_query = link +
  sent_timestamp :: u64
  is_inprogress :: bool
  rp_on :: rp_list

record ramp_bucket =
  b_queries :: u32
  b_responses :: u32
  b_failures :: u32
  b_latency_sum :: nat
  b_connections :: u32
  b_conn_latency_sum :: nat

datatype rp_phase = PHASE_RAMP | PHASE_SUSTAIN | PHASE_WAIT

record resperf =
  rp_queries :: "nat \<Rightarrow> rp_query"
  rp_outstanding :: plist
  rp_instanding :: plist
  rp_nsocks :: nat
  rp_max_outstanding :: nat
  rp_query_timeout :: u64
  rp_ramp_time :: u64
  rp_traffic_time :: u64
  rp_end_time :: u64
  rp_buckets :: "ramp_bucket list"
  rp_max_fall_behind :: u32
  num_queries_sent :: u64
  num_queries_outstanding :: u64
  num_responses_received :: u64
  num_queries_timed_out :: u64
  rp_rcodecounts :: "u64 list"
  num_conn_completed :: u64
  num_conn_attempts :: u64
  time_now :: u64
  time_of_program_start :: u64
  rp_phase :: rp_phase
  sustain_phase_began :: u64
  wait_phase_began :: u64

text \<open>The input and the buffers of \<^verbatim>\<open>main\<close>.\<close>

record 'c rp_io =
  io_edns :: bool
  io_dnssec :: bool
  io_option :: "perf_ednsoption option"
  io_key :: "'c perf_tsigkey option"
  io_lines :: perf_buffer
  io_msg :: perf_buffer
  io_file :: perf_datafile
  io_input :: input

section \<open>Callbacks\<close>

definition n_buckets :: "resperf \<Rightarrow> nat" where
  "n_buckets st = length (rp_buckets st)"

text \<open>The index of a bucket; the quotient is converted to \<^verbatim>\<open>int\<close>.\<close>

definition find_bucket :: "u64 \<Rightarrow> resperf \<Rightarrow> nat" where
  "find_bucket wh st =
    (let sent_at = wh - time_of_program_start st;
         i = sint (ucast ((of_nat (n_buckets st) * sent_at) div rp_traffic_time st) :: u32)
     in if i < 0 then 0
        else if i > int (n_buckets st) - 1 then n_buckets st - 1 else nat i)"

definition upd_bucket :: "u64 \<Rightarrow> (ramp_bucket \<Rightarrow> ramp_bucket) \<Rightarrow> resperf \<Rightarrow> resperf" where
  "upd_bucket wh f st =
    (let i = find_bucket wh st in st\<lparr>rp_buckets := (rp_buckets st)[i := f (rp_buckets st ! i)]\<rparr>)"

definition rp_net_event :: "perf_socket_event \<Rightarrow> u64 \<Rightarrow> resperf \<Rightarrow> resperf" where
  "rp_net_event event elapsed_time st =
    (if event = perf_socket_event_reconnected \<or> event = perf_socket_event_connected then
       (upd_bucket (time_now st) (\<lambda>b. b\<lparr>b_connections := b_connections b + 1,
          b_conn_latency_sum := b_conn_latency_sum b + unat elapsed_time\<rparr>) st)
         \<lparr>num_conn_completed := num_conn_completed st + 1\<rparr>
     else st\<lparr>num_conn_attempts := num_conn_attempts st + 1\<rparr>)"

definition upd_rp_query :: "nat \<Rightarrow> (rp_query \<Rightarrow> rp_query) \<Rightarrow> resperf \<Rightarrow> resperf" where
  "upd_rp_query q f st = st\<lparr>rp_queries := (rp_queries st)(q := f (rp_queries st q))\<rparr>"

definition rp_net_sent :: "nat \<Rightarrow> u16 \<Rightarrow> resperf \<Rightarrow> resperf outcome" where
  "rp_net_sent sock qid st =
    (let st = upd_bucket (time_now st) (\<lambda>b. b\<lparr>b_queries := b_queries b + 1\<rparr>) st;
         idx = unat qid * rp_nsocks st + sock
     in if idx < rp_max_outstanding st then Ret (upd_rp_query idx (sent_timestamp_update (\<lambda>_. time_now st)) st) else Abort)"

text \<open>What a call for socket \<open>sock\<close> makes of callbacks.\<close>

fun rp_callbacks :: "nat \<Rightarrow> action list \<Rightarrow> resperf \<Rightarrow> resperf outcome" where
  "rp_callbacks sock [] st = Ret st"
| "rp_callbacks sock (Sent_callback q # as) st = obind (rp_net_sent sock q st) (rp_callbacks sock as)"
| "rp_callbacks sock (Event_callback e ts # as) st = rp_callbacks sock as (rp_net_event e ts st)"
| "rp_callbacks sock (_ # as) st = rp_callbacks sock as st"

section \<open>Sending\<close>

text \<open>A query has been sent: it goes to the front of the outstanding ones.\<close>

definition query_sent :: "nat \<Rightarrow> resperf \<Rightarrow> resperf outcome" where
  "query_sent q st =
    obind (perf_list_unlink (rp_queries st) (rp_instanding st) q) (\<lambda>(h, p).
    case perf_list_prepend h (rp_outstanding st) q of (h, p') \<Rightarrow>
      Ret (upd_rp_query q (rp_on_update (\<lambda>_. on_outstanding))
        (st\<lparr>rp_queries := h, rp_instanding := p, rp_outstanding := p',
            num_queries_sent := num_queries_sent st + 1, num_queries_outstanding := num_queries_outstanding st + 1\<rparr>)))"

text \<open>A query has been answered or has timed out: it goes to the end of the available ones.\<close>

definition query_done :: "nat \<Rightarrow> resperf \<Rightarrow> resperf outcome" where
  "query_done q st =
    obind (perf_list_unlink (rp_queries st) (rp_outstanding st) q) (\<lambda>(h, p).
    case perf_list_append h (rp_instanding st) q of (h, p') \<Rightarrow>
      Ret (upd_rp_query q (rp_on_update (\<lambda>_. on_instanding))
        (st\<lparr>rp_queries := h, rp_outstanding := p, rp_instanding := p',
            num_queries_outstanding := num_queries_outstanding st - 1\<rparr>)))"

datatype head_result = Head nat | Head_busy | No_ids

text \<open>
  The loop over queries whose sending was in progress; the \<open>i\<close>-th call of \<^verbatim>\<open>perf_net_sockready\<close> has
  the result \<open>ready i sock\<close>.
\<close>

fun inprogress_loop :: "nat \<Rightarrow> (nat \<Rightarrow> nat \<Rightarrow> sockready \<times> action list) \<Rightarrow> nat \<Rightarrow> resperf \<Rightarrow> (head_result \<times> resperf) outcome option" where
  "inprogress_loop 0 ready i st = None"
| "inprogress_loop (Suc k) ready i st =
    (case head (rp_instanding st) of
       None \<Rightarrow> Some (Ret (No_ids, st))
     | Some q \<Rightarrow>
       if \<not> is_inprogress (rp_queries st q) then Some (Ret (Head q, st))
       else
         let sock = q mod rp_nsocks st in
         case rp_callbacks sock (snd (ready i sock)) st of
           Ret st \<Rightarrow>
             if fst (ready i sock) = failed then Some (Ret (Head_busy, st))
             else (case query_sent q (upd_rp_query q (is_inprogress_update (\<lambda>_. False)) st) of
                 Ret st \<Rightarrow> inprogress_loop k ready (i + 1) st
               | Abort \<Rightarrow> Some Abort | Exit n \<Rightarrow> Some (Exit n) | UB \<Rightarrow> Some UB)
         | Abort \<Rightarrow> Some Abort | Exit n \<Rightarrow> Some (Exit n) | UB \<Rightarrow> Some UB)"

record 'c line_events =
  le_inprogress :: "nat \<Rightarrow> nat \<Rightarrow> sockready \<times> action list"
  le_ready :: "nat \<Rightarrow> sockready \<times> action list"
  le_sendto :: "nat \<Rightarrow> u16 \<Rightarrow> bytes \<Rightarrow> send_result \<times> action list"
  le_ssl :: "'c openssl"
  le_time :: u32

definition rp_build :: "'c openssl \<Rightarrow> u32 \<Rightarrow> u16 \<Rightarrow> 'c rp_io \<Rightarrow> (perf_result \<times> 'c rp_io) outcome" where
  "rp_build ssl now qid io =
    obind (perf_datafile_next (io_file io) (io_input io) (perf_buffer_clear (io_lines io))) (\<lambda>(result, df, inp, lines).
    let io = io\<lparr>io_lines := lines, io_file := df, io_input := inp\<rparr> in
    if result \<noteq> PERF_R_SUCCESS then Exit 1
    else obind (perf_dns_buildrequest ssl now None (perf_buffer_usedregion lines) qid (io_edns io) (io_dnssec io) False
        (io_key io) (io_option io) (perf_buffer_clear (io_msg io))) (\<lambda>(result, msg, key).
      Ret (result, io\<lparr>io_msg := msg, io_key := key\<rparr>)))"

definition send_line :: "'c line_events \<Rightarrow> nat \<Rightarrow> resperf \<Rightarrow> 'c rp_io \<Rightarrow> (perf_result \<times> resperf \<times> 'c rp_io) outcome" where
  "send_line ev q st io =
    (let qid = of_nat (q div rp_nsocks st) :: u16;
         sock = q mod rp_nsocks st
     in obind (rp_callbacks sock (snd (le_ready ev sock)) st) (\<lambda>st.
        if fst (le_ready ev sock) \<noteq> is_ready then Ret (PERF_R_FAILURE, st, io)
        else obind (rp_build (le_ssl ev) (le_time ev) qid io) (\<lambda>(result, io).
          if result \<noteq> PERF_R_SUCCESS then Ret (result, st, io)
          else
            let st = upd_rp_query q (sent_timestamp_update (\<lambda>_. time_now st)) st;
                (r, acts) = le_sendto ev sock qid (perf_buffer_usedregion (io_msg io))
            in obind (rp_callbacks sock acts st) (\<lambda>st.
               case r of
                 In_progress \<Rightarrow> Ret (PERF_R_FAILURE, upd_rp_query q (is_inprogress_update (\<lambda>_. True)) st, io)
               | Send_error \<Rightarrow> Ret (PERF_R_FAILURE, st, io)
               | Sent_bytes n \<Rightarrow>
                   if n < 1 then Ret (PERF_R_FAILURE, st, io)
                   else obind (query_sent q st) (\<lambda>st. Ret (PERF_R_SUCCESS, st, io))))))"

definition do_one_line :: "'c line_events \<Rightarrow> resperf \<Rightarrow> 'c rp_io \<Rightarrow> (perf_result \<times> resperf \<times> 'c rp_io) outcome option" where
  "do_one_line ev st io =
    (case inprogress_loop (rp_max_outstanding st + 1) (le_inprogress ev) 0 st of
       None \<Rightarrow> None
     | Some out \<Rightarrow> Some (obind out (\<lambda>(r, st).
         case r of
           No_ids \<Rightarrow> Ret (PERF_R_NOMORE, st, io)
         | Head_busy \<Rightarrow> Ret (PERF_R_FAILURE, st, io)
         | Head q \<Rightarrow> send_line ev q st io)))"

section \<open>Receiving\<close>

definition rp_answer :: "nat \<Rightarrow> nat \<Rightarrow> resperf \<Rightarrow> resperf outcome" where
  "rp_answer q rcode st =
    obind (query_done q st) (\<lambda>st.
    let sent = sent_timestamp (rp_queries st q);
        latency = time_now st - sent;
        st = upd_bucket sent (\<lambda>b. b\<lparr>b_responses := b_responses b + 1,
               b_failures := (if rcode = 0 \<or> rcode = 3 then b_failures b else b_failures b + 1),
               b_latency_sum := b_latency_sum b + unat latency\<rparr>) st
    in Ret (st\<lparr>num_responses_received := num_responses_received st + 1,
               rp_rcodecounts := (rp_rcodecounts st)[rcode := rp_rcodecounts st ! rcode + 1]\<rparr>))"

text \<open>The result of \<^verbatim>\<open>perf_net_sockready\<close> is only logged; the index is computed with 32 bits.\<close>

definition try_process_response :: "nat \<Rightarrow> action list \<Rightarrow> recv_result \<times> action list \<Rightarrow> resperf \<Rightarrow> resperf outcome" where
  "try_process_response sock acts res st =
    obind (rp_callbacks sock acts st) (\<lambda>st.
    obind (rp_callbacks sock (snd res) st) (\<lambda>st.
    case fst res of
      Recv_error e \<Rightarrow> if e = EAGAIN \<or> e = EINTR then Ret st else Exit 1
    | Recvd n bs \<Rightarrow>
        if n < 4 then Ret st
        else
          let qid = ntohs16 (bs ! 0) (bs ! 1);
              rcode = ntohs16 (bs ! 2) (bs ! 3) AND 0xF;
              idx = (qid * rp_nsocks st + sock) mod 2 ^ 32
          in if idx \<ge> rp_max_outstanding st \<or> rp_on (rp_queries st idx) \<noteq> on_outstanding then Ret st
             else rp_answer idx rcode st))"

fun retire_loop :: "nat \<Rightarrow> resperf \<Rightarrow> resperf outcome option" where
  "retire_loop 0 st = None"
| "retire_loop (Suc k) st =
    (case tail (rp_outstanding st) of
       None \<Rightarrow> Some (Ret st)
     | Some q \<Rightarrow>
       if time_now st - sent_timestamp (rp_queries st q) < rp_query_timeout st then Some (Ret st)
       else (case query_done q st of
           Ret st \<Rightarrow> retire_loop k (st\<lparr>num_queries_timed_out := num_queries_timed_out st + 1\<rparr>)
         | Abort \<Rightarrow> Some Abort | Exit n \<Rightarrow> Some (Exit n) | UB \<Rightarrow> Some UB))"

definition retire_old_queries :: "resperf \<Rightarrow> resperf outcome option" where
  "retire_old_queries st = retire_loop (rp_max_outstanding st + 1) st"

section \<open>The main loop\<close>

definition enter_sustain_phase :: "resperf \<Rightarrow> resperf" where
  "enter_sustain_phase st = st\<lparr>rp_phase := PHASE_SUSTAIN, sustain_phase_began := time_now st\<rparr>"

definition enter_wait_phase :: "resperf \<Rightarrow> resperf" where
  "enter_wait_phase st = st\<lparr>rp_phase := PHASE_WAIT, wait_phase_began := time_now st\<rparr>"

text \<open>The \<^verbatim>\<open>switch\<close> over the phases: \<open>None\<close> when the loop is left.\<close>

definition next_phase :: "resperf \<Rightarrow> resperf option" where
  "next_phase st =
    (let time_since_start = time_now st - time_of_program_start st in
     case rp_phase st of
       PHASE_RAMP \<Rightarrow> Some (if time_since_start \<ge> rp_ramp_time st then enter_sustain_phase st else st)
     | PHASE_SUSTAIN \<Rightarrow> Some (if time_since_start \<ge> rp_traffic_time st then enter_wait_phase st else st)
     | PHASE_WAIT \<Rightarrow>
         if time_since_start \<ge> rp_end_time st \<or> perf_list_empty (rp_outstanding st) then None else Some st)"

text \<open>
  \<open>sched phase t\<close> is the value of \<^verbatim>\<open>num_scheduled\<close>.  The difference to the queries sent is
  taken with 64 unsigned bits and stored in an \<^verbatim>\<open>int\<close>; the comparison with \<^verbatim>\<open>max_fall_behind\<close> is one
  of unsigned numbers.
\<close>

definition should_send :: "(rp_phase \<Rightarrow> u64 \<Rightarrow> int) \<Rightarrow> resperf \<Rightarrow> u32" where
  "should_send sched st =
    ucast (of_int (sched (rp_phase st) (time_now st - time_of_program_start st)) - num_queries_sent st :: u64)"

definition send_phase :: "(rp_phase \<Rightarrow> u64 \<Rightarrow> int) \<Rightarrow> 'c line_events \<Rightarrow> resperf \<Rightarrow> 'c rp_io \<Rightarrow> (resperf \<times> 'c rp_io) outcome option" where
  "send_phase sched ev st io =
    (if rp_phase st = PHASE_WAIT then Some (Ret (st, io))
     else
       let todo = should_send sched st;
           st = (if rp_max_fall_behind st \<noteq> 0 \<and> todo \<ge> rp_max_fall_behind st then enter_wait_phase st else st)
       in if sint todo > 0 then
            (case do_one_line ev st io of
               None \<Rightarrow> None
             | Some out \<Rightarrow> Some (obind out (\<lambda>(result, st, io).
                 Ret (if result = PERF_R_SUCCESS then upd_bucket (time_now st) (\<lambda>b. b\<lparr>b_queries := b_queries b + 1\<rparr>) st
                      else if result = PERF_R_NOMORE then enter_wait_phase st else st, io))))
          else Some (Ret (st, io)))"

text \<open>The attempts to receive, on the sockets in turn.\<close>

fun receive_loop :: "(action list \<times> recv_result \<times> action list) list \<Rightarrow> nat \<Rightarrow> resperf \<Rightarrow> (nat \<times> resperf) outcome" where
  "receive_loop [] cur st = Ret (cur, st)"
| "receive_loop ((acts, res) # rest) cur st =
    obind (try_process_response cur acts res st) (\<lambda>st.
    receive_loop rest (if cur + 1 \<ge> rp_nsocks st then 0 else cur + 1) st)"

record 'c rp_events =
  re_line :: "'c line_events"
  re_recv :: "(action list \<times> recv_result \<times> action list) list"
  re_now :: u64

type_synonym 'c rp_state = "nat \<times> resperf \<times> 'c rp_io"

definition rp_round :: "(rp_phase \<Rightarrow> u64 \<Rightarrow> int) \<Rightarrow> 'c rp_events \<Rightarrow> 'c rp_state \<Rightarrow> 'c rp_state option outcome option" where
  "rp_round sched ev = (\<lambda>(cur, st, io).
    case next_phase st of
      None \<Rightarrow> Some (Ret None)
    | Some st \<Rightarrow>
      (case send_phase sched (re_line ev) st io of
         None \<Rightarrow> None
       | Some (Ret (st, io)) \<Rightarrow>
         (case receive_loop (re_recv ev) cur st of
            Ret (cur, st) \<Rightarrow>
              (case retire_old_queries st of
                 None \<Rightarrow> None
               | Some out \<Rightarrow> Some (obind out (\<lambda>st. Ret (Some (cur, st\<lparr>time_now := re_now ev\<rparr>, io)))))
          | Abort \<Rightarrow> Some Abort | Exit n \<Rightarrow> Some (Exit n) | UB \<Rightarrow> Some UB)
       | Some Abort \<Rightarrow> Some Abort | Some (Exit n) \<Rightarrow> Some (Exit n) | Some UB \<Rightarrow> Some UB))"

section \<open>The invariant\<close>

text \<open>Every query is in one of the lists, as its label says.\<close>

definition rp_lists :: "resperf \<Rightarrow> nat list \<Rightarrow> nat list \<Rightarrow> bool" where
  "rp_lists st is os \<longleftrightarrow> dll (rp_queries st) (rp_instanding st) is \<and> dll (rp_queries st) (rp_outstanding st) os \<and>
    set is \<inter> set os = {} \<and> set is \<union> set os = {..<rp_max_outstanding st} \<and>
    (\<forall>q \<in> set is. rp_on (rp_queries st q) = on_instanding) \<and> (\<forall>q \<in> set os. rp_on (rp_queries st q) = on_outstanding) \<and>
    (\<forall>q < rp_max_outstanding st. is_inprogress (rp_queries st q) \<longrightarrow> is \<noteq> [] \<and> q = hd is)"

text \<open>The buckets and the counts by response code add up to the responses received.\<close>

definition rp_sums :: "resperf \<Rightarrow> bool" where
  "rp_sums st \<longleftrightarrow> 0 < n_buckets st \<and> length (rp_rcodecounts st) = 16 \<and>
    sum_list (rp_rcodecounts st) = num_responses_received st \<and>
    sum_list (map b_responses (rp_buckets st)) = ucast (num_responses_received st)"

definition rp_ok :: "resperf \<Rightarrow> nat list \<Rightarrow> nat list \<Rightarrow> bool" where
  "rp_ok st is os \<longleftrightarrow> rp_lists st is os \<and> rp_sums st \<and> 0 < rp_nsocks st \<and> rp_traffic_time st \<noteq> 0 \<and>
    num_queries_outstanding st = of_nat (length os) \<and>
    num_queries_sent st = num_queries_outstanding st + num_responses_received st + num_queries_timed_out st"

text \<open>What all parts of a round leave alone.\<close>

definition same_run :: "resperf \<Rightarrow> resperf \<Rightarrow> bool" where
  "same_run st st' \<longleftrightarrow> rp_nsocks st' = rp_nsocks st \<and> rp_max_outstanding st' = rp_max_outstanding st \<and>
    rp_query_timeout st' = rp_query_timeout st \<and> rp_ramp_time st' = rp_ramp_time st \<and> rp_traffic_time st' = rp_traffic_time st \<and>
    rp_end_time st' = rp_end_time st \<and> time_of_program_start st' = time_of_program_start st"

definition same_time :: "resperf \<Rightarrow> resperf \<Rightarrow> bool" where
  "same_time st st' \<longleftrightarrow> same_run st st' \<and> time_now st' = time_now st \<and> rp_phase st' = rp_phase st"

lemma same_time_refl [simp]: "same_time st st"
  by (simp add: same_time_def same_run_def)

lemma same_time_trans: "same_time a b \<Longrightarrow> same_time b c \<Longrightarrow> same_time a c"
  by (simp add: same_time_def same_run_def)

lemma same_run_trans: "same_run a b \<Longrightarrow> same_run b c \<Longrightarrow> same_run a c"
  by (simp add: same_run_def)

lemma same_timeD: "same_time a b \<Longrightarrow> same_run a b" "same_time a b \<Longrightarrow> rp_nsocks b = rp_nsocks a"
  "same_time a b \<Longrightarrow> rp_max_outstanding b = rp_max_outstanding a" "same_time a b \<Longrightarrow> rp_traffic_time b = rp_traffic_time a"
  by (simp_all add: same_time_def same_run_def)

section \<open>Buckets and callbacks\<close>

lemma find_bucket_less: "0 < n_buckets st \<Longrightarrow> find_bucket wh st < n_buckets st"
  by (auto simp: find_bucket_def Let_def)

lemma sum_list_bump:
  fixes xs :: "'a::comm_monoid_add list"
  assumes "i < length xs" "f (xs ! i) = xs ! i + d"
  shows "sum_list (xs[i := f (xs ! i)]) = sum_list xs + d"
proof -
  have "xs[i := f (xs ! i)] = take i xs @ f (xs ! i) # drop (Suc i) xs" by (rule upd_conv_take_nth_drop [OF assms(1)])
  moreover have "xs = take i xs @ xs ! i # drop (Suc i) xs" by (rule id_take_nth_drop [OF assms(1)])
  then have "sum_list xs = sum_list (take i xs) + (xs ! i + sum_list (drop (Suc i) xs))"
    using sum_list_append [of "take i xs" "xs ! i # drop (Suc i) xs"] by simp
  ultimately show ?thesis by (simp add: assms(2) ac_simps)
qed

lemma upd_bucket_simps:
  assumes "st' = upd_bucket wh f st"
  shows "same_time st st'" "n_buckets st' = n_buckets st" "rp_queries st' = rp_queries st"
    "rp_lists st' is os = rp_lists st is os" "rp_rcodecounts st' = rp_rcodecounts st"
    "num_queries_outstanding st' = num_queries_outstanding st" "num_queries_sent st' = num_queries_sent st"
    "num_responses_received st' = num_responses_received st" "num_queries_timed_out st' = num_queries_timed_out st"
  using assms by (simp_all add: upd_bucket_def Let_def same_time_def same_run_def n_buckets_def rp_lists_def)

lemma upd_bucket_responses:
  assumes "\<And>b. b_responses (f b) = b_responses b + d" "0 < n_buckets st"
  shows "sum_list (map b_responses (rp_buckets (upd_bucket wh f st))) = sum_list (map b_responses (rp_buckets st)) + d"
proof -
  let ?i = "find_bucket wh st"
  have "?i < length (map b_responses (rp_buckets st))" using find_bucket_less [OF assms(2)] by (simp add: n_buckets_def)
  from sum_list_bump [OF this, of "\<lambda>x. x + d" d] show ?thesis
    using find_bucket_less [OF assms(2), of wh] by (simp add: upd_bucket_def Let_def map_update assms(1) n_buckets_def)
qed

lemma upd_bucket_ok:
  assumes "\<And>b. b_responses (f b) = b_responses b" "rp_ok st is os"
  shows "rp_ok (upd_bucket wh f st) is os"
  using assms(2) upd_bucket_simps [of _ wh f st, OF refl] upd_bucket_responses [of f 0 st wh] assms(1)
  by (simp add: rp_ok_def rp_sums_def same_time_def same_run_def)

lemma rp_lists_upd:
  assumes "\<And>r. lprev (f r) = lprev r" "\<And>r. lnext (f r) = lnext r" "\<And>r. rp_on (f r) = rp_on r" "\<And>r. is_inprogress (f r) = is_inprogress r"
  shows "rp_lists (upd_rp_query q f st) is os \<longleftrightarrow> rp_lists st is os"
proof -
  let ?h = "(rp_queries st)(q := f (rp_queries st q))"
  have "dll ?h l xs \<longleftrightarrow> dll (rp_queries st) l xs" for l xs using dll_upd [of f "rp_queries st" q l xs] assms(1,2) by simp
  moreover have "rp_on (?h x) = rp_on (rp_queries st x)" "is_inprogress (?h x) = is_inprogress (rp_queries st x)" for x
    using assms(3,4) by simp_all
  ultimately show ?thesis by (simp add: rp_lists_def upd_rp_query_def)
qed

lemma upd_rp_query_simps [simp]:
  "rp_sums (upd_rp_query q f st) = rp_sums st" "rp_nsocks (upd_rp_query q f st) = rp_nsocks st"
  "num_queries_outstanding (upd_rp_query q f st) = num_queries_outstanding st"
  "num_queries_sent (upd_rp_query q f st) = num_queries_sent st"
  "num_responses_received (upd_rp_query q f st) = num_responses_received st"
  "num_queries_timed_out (upd_rp_query q f st) = num_queries_timed_out st"
  "same_time st (upd_rp_query q f st)" "rp_max_outstanding (upd_rp_query q f st) = rp_max_outstanding st"
  "time_now (upd_rp_query q f st) = time_now st" "rp_traffic_time (upd_rp_query q f st) = rp_traffic_time st"
  by (simp_all add: upd_rp_query_def rp_sums_def n_buckets_def same_time_def same_run_def)

lemma rp_ok_stamp: "rp_ok (upd_rp_query q (sent_timestamp_update (\<lambda>_. x)) st) is os \<longleftrightarrow> rp_ok st is os"
  using rp_lists_upd [of "sent_timestamp_update (\<lambda>_. x)" q st] by (simp add: rp_ok_def)

lemma stamp_inprogress [simp]:
  "is_inprogress (rp_queries (upd_rp_query q (sent_timestamp_update g) st) x) = is_inprogress (rp_queries st x)"
  by (simp add: upd_rp_query_def)

text \<open>A callback concerns a query of the table.\<close>

definition calls_ok :: "resperf \<Rightarrow> nat \<Rightarrow> action list \<Rightarrow> bool" where
  "calls_ok st sock acts \<longleftrightarrow> (\<forall>q. Sent_callback q \<in> set acts \<longrightarrow> unat q * rp_nsocks st + sock < rp_max_outstanding st)"

lemma rp_net_event_ok:
  assumes "rp_ok st is os"
  shows "rp_ok (rp_net_event e ts st) is os \<and> same_time st (rp_net_event e ts st) \<and>
    (\<forall>q. is_inprogress (rp_queries (rp_net_event e ts st) q) = is_inprogress (rp_queries st q))"
proof (cases "e = perf_socket_event_reconnected \<or> e = perf_socket_event_connected")
  case True
  let ?f = "\<lambda>b. b\<lparr>b_connections := b_connections b + 1, b_conn_latency_sum := b_conn_latency_sum b + unat ts\<rparr>"
  let ?st = "upd_bucket (time_now st) ?f st"
  have "rp_ok ?st is os" by (rule upd_bucket_ok) (simp_all add: assms)
  then have "rp_ok (?st\<lparr>num_conn_completed := c\<rparr>) is os" for c
    by (simp add: rp_ok_def rp_lists_def rp_sums_def n_buckets_def)
  then show ?thesis using True upd_bucket_simps(1,3) [of ?st "time_now st" ?f st, OF refl]
    by (auto simp: rp_net_event_def same_time_def same_run_def)
next
  case False
  then show ?thesis using assms
    by (simp add: rp_net_event_def rp_ok_def rp_lists_def rp_sums_def n_buckets_def same_time_def same_run_def)
qed

lemma rp_net_sent_ok:
  assumes "rp_ok st is os" "unat q * rp_nsocks st + sock < rp_max_outstanding st"
  shows "\<exists>st'. rp_net_sent sock q st = Ret st' \<and> rp_ok st' is os \<and> same_time st st' \<and>
    (\<forall>x. is_inprogress (rp_queries st' x) = is_inprogress (rp_queries st x))"
proof -
  let ?st = "upd_bucket (time_now st) (\<lambda>b. b\<lparr>b_queries := b_queries b + 1\<rparr>) st"
  note b = upd_bucket_simps [of ?st, OF refl]
  have "rp_ok ?st is os" by (rule upd_bucket_ok) (simp_all add: assms)
  moreover have "rp_net_sent sock q st =
      Ret (upd_rp_query (unat q * rp_nsocks st + sock) (sent_timestamp_update (\<lambda>_. time_now ?st)) ?st)"
    using assms(2) same_timeD(2,3) [OF b(1)] by (simp add: rp_net_sent_def Let_def)
  ultimately show ?thesis
    using rp_ok_stamp same_time_trans [OF b(1) upd_rp_query_simps(7)] b(3) by simp
qed

lemma rp_callbacks_ok:
  assumes "rp_ok st is os" "calls_ok st sock acts"
  shows "\<exists>st'. rp_callbacks sock acts st = Ret st' \<and> rp_ok st' is os \<and> same_time st st' \<and>
    (\<forall>x. is_inprogress (rp_queries st' x) = is_inprogress (rp_queries st x))"
  using assms
proof (induction sock acts st rule: rp_callbacks.induct)
  case (2 sock q as st)
  obtain st1 where st1: "rp_net_sent sock q st = Ret st1" "rp_ok st1 is os" "same_time st st1"
    "\<forall>x. is_inprogress (rp_queries st1 x) = is_inprogress (rp_queries st x)"
    using rp_net_sent_ok [OF 2(2), of q sock] 2(3) by (auto simp: calls_ok_def)
  have "calls_ok st1 sock as" using 2(3) same_timeD(2,3) [OF st1(3)] by (simp add: calls_ok_def)
  from 2(1) [OF st1(1,2) this] show ?case using st1 same_time_trans [OF st1(3)] by auto
next
  case (3 sock e ts as st)
  note e = rp_net_event_ok [OF 3(2), of e ts]
  have "calls_ok (rp_net_event e ts st) sock as"
    using 3(3) same_timeD(2,3) [of st "rp_net_event e ts st"] e by (simp add: calls_ok_def)
  from 3(1) [OF _ this] show ?case using e same_time_trans [of st "rp_net_event e ts st"] by auto
qed (auto simp: calls_ok_def)

section \<open>Moving queries\<close>

lemma rp_more_fields:
  "link.more r = link.more r' \<Longrightarrow> sent_timestamp r = sent_timestamp r' \<and> is_inprogress r = is_inprogress r' \<and> rp_on r = rp_on r'"
  for r r' :: rp_query
  by (cases r; cases r') simp

lemma query_sent_ok:
  assumes ok: "rp_ok st (q # is) os" and np: "\<not> is_inprogress (rp_queries st q)"
  shows "\<exists>st'. query_sent q st = Ret st' \<and> rp_ok st' is (q # os) \<and> same_time st st' \<and>
    (\<forall>x. is_inprogress (rp_queries st' x) = is_inprogress (rp_queries st x)) \<and> num_queries_sent st' = num_queries_sent st + 1"
proof -
  have l: "dll (rp_queries st) (rp_instanding st) (q # is)" "dll (rp_queries st) (rp_outstanding st) os"
    "set (q # is) \<inter> set os = {}" "q \<in> set (q # is)" "q \<notin> set is"
    using ok by (auto simp: rp_ok_def rp_lists_def dll_def)
  obtain h p where u: "perf_list_unlink (rp_queries st) (rp_instanding st) q = Ret (h, p)" "dll h p is"
    "dll h (rp_outstanding st) os" "\<And>y. link.more (h y) = link.more (rp_queries st y)"
    using ql.unlink_beside [OF l(1-4)] by (metis remove1.simps(2))
  have disj: "set os \<inter> set is = {}" "q \<notin> set os" using l(3) by auto
  obtain h' p' where a: "perf_list_prepend h (rp_outstanding st) q = (h', p')" "dll h' p' (q # os)" "dll h' p is"
    "\<And>y. link.more (h' y) = link.more (h y)"
    using ql.prepend_beside [OF u(3,2) disj(1,2) l(5)] by blast
  have more: "link.more (h' y) = link.more (rp_queries st y)" for y using a(4) u(4) by simp
  let ?st = "upd_rp_query q (rp_on_update (\<lambda>_. on_outstanding))
        (st\<lparr>rp_queries := h', rp_instanding := p, rp_outstanding := p',
            num_queries_sent := num_queries_sent st + 1, num_queries_outstanding := num_queries_outstanding st + 1\<rparr>)"
  let ?h = "h'(q := (h' q)\<lparr>rp_on := on_outstanding\<rparr>)"
  have d: "dll ?h l xs \<longleftrightarrow> dll h' l xs" for l xs using dll_upd [of "rp_on_update (\<lambda>_. on_outstanding)" h' q l xs] by simp
  have f: "rp_on (?h y) = (if y = q then on_outstanding else rp_on (rp_queries st y))"
    "is_inprogress (?h y) = is_inprogress (rp_queries st y)" for y
    using rp_more_fields [OF more [of y]] by auto
  have "rp_lists ?st is (q # os)"
    using ok np disj l(5) a(2,3) d f by (auto simp: rp_ok_def rp_lists_def upd_rp_query_def)
  moreover have "query_sent q st = Ret ?st" using u(1) a(1) by (simp add: query_sent_def)
  ultimately show ?thesis using ok f(2)
    by (auto simp: rp_ok_def rp_sums_def n_buckets_def same_time_def same_run_def upd_rp_query_def algebra_simps)
qed

lemma query_done_ok:
  assumes l: "rp_lists st is os" and q: "q \<in> set os"
  shows "\<exists>h p p'. query_done q st = Ret (st\<lparr>rp_queries := h, rp_outstanding := p, rp_instanding := p',
      num_queries_outstanding := num_queries_outstanding st - 1\<rparr>) \<and>
    rp_lists (st\<lparr>rp_queries := h, rp_outstanding := p, rp_instanding := p'\<rparr>) (is @ [q]) (remove1 q os) \<and>
    (\<forall>x. sent_timestamp (h x) = sent_timestamp (rp_queries st x))"
proof -
  have d: "dll (rp_queries st) (rp_instanding st) is" "dll (rp_queries st) (rp_outstanding st) os"
    "set os \<inter> set is = {}" "q \<notin> set is"
    using assms by (auto simp: rp_lists_def)
  obtain h p where u: "perf_list_unlink (rp_queries st) (rp_outstanding st) q = Ret (h, p)" "dll h p (remove1 q os)"
    "dll h (rp_instanding st) is" "q \<notin> set (remove1 q os)" "\<And>y. link.more (h y) = link.more (rp_queries st y)"
    using ql.unlink_beside [OF d(2,1,3) q] by blast
  have disj: "set is \<inter> set (remove1 q os) = {}" using d(3) set_remove1_subset [of q os] by auto
  obtain h' p' where a: "perf_list_append h (rp_instanding st) q = (h', p')" "dll h' p' (is @ [q])" "dll h' p (remove1 q os)"
    "\<And>y. link.more (h' y) = link.more (h y)"
    using ql.append_beside [OF u(3,2) disj d(4) u(4)] by blast
  have more: "link.more (h' y) = link.more (rp_queries st y)" for y using a(4) u(5) by simp
  let ?h = "h'(q := (h' q)\<lparr>rp_on := on_instanding\<rparr>)"
  have dd: "dll ?h l xs \<longleftrightarrow> dll h' l xs" for l xs using dll_upd [of "rp_on_update (\<lambda>_. on_instanding)" h' q l xs] by simp
  have f: "rp_on (?h y) = (if y = q then on_instanding else rp_on (rp_queries st y))"
    "is_inprogress (?h y) = is_inprogress (rp_queries st y)" "sent_timestamp (?h y) = sent_timestamp (rp_queries st y)" for y
    using rp_more_fields [OF more [of y]] by auto
  have hf: "rp_on (h' y) = rp_on (rp_queries st y)" "is_inprogress (h' y) = is_inprogress (rp_queries st y)" for y
    using rp_more_fields [OF more [of y]] by simp_all
  have os: "distinct os" using d(2) by (simp add: dll_def)
  have hd: "is \<noteq> [] \<and> x = hd is" if "x < rp_max_outstanding st" "is_inprogress (rp_queries st x)" for x
    using l that by (auto simp: rp_lists_def)
  have "rp_lists (st\<lparr>rp_queries := ?h, rp_outstanding := p, rp_instanding := p'\<rparr>) (is @ [q]) (remove1 q os)"
    using l q d(3,4) a(2,3) dd hf os disj hd by (auto simp: rp_lists_def)
  moreover have "query_done q st = Ret (st\<lparr>rp_queries := ?h, rp_outstanding := p, rp_instanding := p',
      num_queries_outstanding := num_queries_outstanding st - 1\<rparr>)"
    using u(1) a(1) by (simp add: query_done_def upd_rp_query_def)
  ultimately show ?thesis using f(3) by blast
qed

lemma ucast_Suc: "ucast (x + 1 :: u64) = (ucast x + 1 :: u32)"
proof -
  have "uint (ucast (x + 1) :: u32) = (uint x + 1) mod 2 ^ 32"
    by (simp add: unsigned_ucast_eq take_bit_eq_mod uint_word_ariths mod_mod_cancel)
  also have "\<dots> = uint (ucast x + 1 :: u32)"
    by (simp add: unsigned_ucast_eq take_bit_eq_mod uint_word_ariths mod_simps)
  finally show ?thesis by (rule word_eq_iff_unsigned [THEN iffD2])
qed

lemma of_nat_remove1: "q \<in> set os \<Longrightarrow> of_nat (length os) = (of_nat (length (remove1 q os)) + 1 :: u64)"
  using length_pos_if_in_set [of q os] by (simp add: length_remove1 of_nat_diff Suc_le_eq)

lemma rp_lists_counters [simp]:
  "rp_lists (st\<lparr>num_queries_outstanding := a\<rparr>) is os = rp_lists st is os"
  "rp_lists (st\<lparr>num_responses_received := b, rp_rcodecounts := cs\<rparr>) is os = rp_lists st is os"
  "rp_lists (st\<lparr>num_queries_timed_out := c\<rparr>) is os = rp_lists st is os"
  "rp_lists (st\<lparr>time_now := now\<rparr>) is os = rp_lists st is os"
  by (simp_all add: rp_lists_def)

lemma rp_answer_ok:
  assumes ok: "rp_ok st is os" and q: "q \<in> set os" and rc: "rcode < 16"
  shows "\<exists>st'. rp_answer q rcode st = Ret st' \<and> rp_ok st' (is @ [q]) (remove1 q os) \<and> same_time st st' \<and>
    num_responses_received st' = num_responses_received st + 1"
proof -
  have l: "rp_lists st is os" using ok by (simp add: rp_ok_def)
  obtain h p p' where d: "query_done q st = Ret (st\<lparr>rp_queries := h, rp_outstanding := p, rp_instanding := p',
      num_queries_outstanding := num_queries_outstanding st - 1\<rparr>)"
    "rp_lists (st\<lparr>rp_queries := h, rp_outstanding := p, rp_instanding := p'\<rparr>) (is @ [q]) (remove1 q os)"
    using query_done_ok [OF l q] by blast
  define st1 where "st1 = st\<lparr>rp_queries := h, rp_outstanding := p, rp_instanding := p',
      num_queries_outstanding := num_queries_outstanding st - 1\<rparr>"
  define f where "f = (\<lambda>b :: ramp_bucket. b\<lparr>b_responses := b_responses b + 1,
               b_failures := (if rcode = 0 \<or> rcode = 3 then b_failures b else b_failures b + 1),
               b_latency_sum := b_latency_sum b + unat (time_now st1 - sent_timestamp (rp_queries st1 q))\<rparr>)"
  define st2 where "st2 = upd_bucket (sent_timestamp (rp_queries st1 q)) f st1"
  have l1: "rp_lists st1 (is @ [q]) (remove1 q os)" using d(2) by (simp add: st1_def rp_lists_def)
  note b = upd_bucket_simps [OF st2_def]
  have n: "0 < n_buckets st1" using ok by (simp add: rp_ok_def rp_sums_def st1_def n_buckets_def)
  have fr: "b_responses (f x) = b_responses x + 1" for x by (simp add: f_def)
  have "sum_list (map b_responses (rp_buckets st2)) = sum_list (map b_responses (rp_buckets st1)) + 1"
    unfolding st2_def by (rule upd_bucket_responses [OF fr n])
  then have sum: "sum_list (map b_responses (rp_buckets st2)) = ucast (num_responses_received st + 1)"
    using ok by (simp add: rp_ok_def rp_sums_def st1_def ucast_Suc)
  have rcs: "sum_list ((rp_rcodecounts st)[rcode := rp_rcodecounts st ! rcode + 1]) = num_responses_received st + 1"
    using sum_list_bump [of rcode "rp_rcodecounts st" "\<lambda>x. x + 1" 1] ok rc by (simp add: rp_ok_def rp_sums_def)
  let ?st = "st2\<lparr>num_responses_received := num_responses_received st2 + 1,
    rp_rcodecounts := (rp_rcodecounts st2)[rcode := rp_rcodecounts st2 ! rcode + 1]\<rparr>"
  have r: "rp_answer q rcode st = Ret ?st"
    using d(1) by (simp add: rp_answer_def st1_def [symmetric] Let_def f_def [symmetric] st2_def [symmetric])
  have "rp_ok ?st (is @ [q]) (remove1 q os)"
    using ok l1 b(2,4-9) sum rcs n of_nat_remove1 [OF q] same_timeD(2,4) [OF b(1)]
    by (simp add: rp_ok_def rp_sums_def n_buckets_def st1_def)
  moreover have "same_time st st1" by (simp add: st1_def same_time_def same_run_def)
  moreover have "same_time st1 ?st" using b(1) by (simp add: same_time_def same_run_def)
  ultimately show ?thesis using r same_time_trans b(8) by (auto simp: st1_def)
qed

lemma try_process_response_ok:
  assumes ok: "rp_ok st is os" and c: "calls_ok st sock acts" "calls_ok st sock (snd res)"
  shows "(\<exists>st' is' os'. try_process_response sock acts res st = Ret st' \<and> rp_ok st' is' os' \<and> same_time st st') \<or>
    try_process_response sock acts res st = Exit 1 \<and> (\<exists>e. fst res = Recv_error e \<and> e \<notin> {EAGAIN, EINTR})"
proof -
  obtain st1 where s1: "rp_callbacks sock acts st = Ret st1" "rp_ok st1 is os" "same_time st st1"
    using rp_callbacks_ok [OF ok c(1)] by blast
  have "calls_ok st1 sock (snd res)" using c(2) same_timeD(2,3) [OF s1(3)] by (simp add: calls_ok_def)
  then obtain st2 where s2: "rp_callbacks sock (snd res) st1 = Ret st2" "rp_ok st2 is os" "same_time st1 st2"
    using rp_callbacks_ok [OF s1(2)] by blast
  have t: "same_time st st2" by (rule same_time_trans [OF s1(3) s2(3)])
  show ?thesis
  proof (cases "fst res")
    case (Recv_error e)
    then show ?thesis using s1(1) s2 t by (auto simp: try_process_response_def)
  next
    case (Recvd n bs)
    define idx where "idx = (ntohs16 (bs ! 0) (bs ! 1) * rp_nsocks st2 + sock) mod 2 ^ 32"
    define rcode where "rcode = ntohs16 (bs ! 2) (bs ! 3) AND 0xF"
    have rc: "rcode < 16" using and_0xF [of "ntohs16 (bs ! 2) (bs ! 3)"] by (simp add: rcode_def)
    show ?thesis
    proof (cases "n < 4 \<or> idx \<ge> rp_max_outstanding st2 \<or> rp_on (rp_queries st2 idx) \<noteq> on_outstanding")
      case True
      then have "try_process_response sock acts res st = Ret st2"
        using s1(1) s2(1) Recvd by (auto simp: try_process_response_def Let_def idx_def)
      then show ?thesis using s2(2) t by blast
    next
      case False
      then have idx: "idx < rp_max_outstanding st2" "rp_on (rp_queries st2 idx) = on_outstanding" by simp_all
      have l: "set is \<union> set os = {..<rp_max_outstanding st2}" "\<forall>q \<in> set is. rp_on (rp_queries st2 q) = on_instanding"
        using s2(2) by (simp_all add: rp_ok_def rp_lists_def)
      have "idx \<in> set is \<union> set os" unfolding l(1) using idx(1) by simp
      then have "idx \<in> set os" using l(2) idx(2) by auto
      from rp_answer_ok [OF s2(2) this rc] obtain st3 where s3: "rp_answer idx rcode st2 = Ret st3"
        "rp_ok st3 (is @ [idx]) (remove1 idx os)" "same_time st2 st3" by blast
      have "try_process_response sock acts res st = rp_answer idx rcode st2"
        using s1(1) s2(1) Recvd False by (simp add: try_process_response_def Let_def idx_def rcode_def)
      then show ?thesis using s3 same_time_trans [OF t] by auto
    qed
  qed
qed

lemma retire_loop_ok:
  assumes "rp_ok st is os" "length os < k"
  shows "\<exists>st' is' os'. retire_loop k st = Some (Ret st') \<and> rp_ok st' is' os' \<and> same_time st st'"
  using assms
proof (induction k arbitrary: st "is" os)
  case (Suc k)
  have t: "tail (rp_outstanding st) = final os None"
    using Suc.prems(1) ql.last_of [of "rp_queries st" "rp_outstanding st" os] by (simp add: rp_ok_def rp_lists_def)
  show ?case
  proof (cases os rule: rev_cases)
    case Nil
    then show ?thesis using Suc.prems(1) t by auto
  next
    case (snoc ys q)
    show ?thesis
    proof (cases "time_now st - sent_timestamp (rp_queries st q) < rp_query_timeout st")
      case True
      then show ?thesis using Suc.prems(1) t snoc by auto
    next
      case False
      have q: "q \<in> set os" using snoc by simp
      have l: "rp_lists st is os" using Suc.prems(1) by (simp add: rp_ok_def)
      obtain h p p' where d: "query_done q st = Ret (st\<lparr>rp_queries := h, rp_outstanding := p, rp_instanding := p',
          num_queries_outstanding := num_queries_outstanding st - 1\<rparr>)"
        "rp_lists (st\<lparr>rp_queries := h, rp_outstanding := p, rp_instanding := p'\<rparr>) (is @ [q]) (remove1 q os)"
        using query_done_ok [OF l q] by blast
      define st1 where "st1 = st\<lparr>rp_queries := h, rp_outstanding := p, rp_instanding := p',
          num_queries_outstanding := num_queries_outstanding st - 1, num_queries_timed_out := num_queries_timed_out st + 1\<rparr>"
      have "rp_ok st1 (is @ [q]) (remove1 q os)"
        using Suc.prems(1) d(2) of_nat_remove1 [OF q]
        by (simp add: rp_ok_def rp_sums_def n_buckets_def st1_def)
      moreover have "length (remove1 q os) < k" using Suc.prems(2) by (simp add: length_remove1 snoc)
      ultimately obtain st' is' os' where "retire_loop k st1 = Some (Ret st')" "rp_ok st' is' os'" "same_time st1 st'"
        using Suc.IH by blast
      moreover have "same_time st st1" by (simp add: st1_def same_time_def same_run_def)
      moreover have "retire_loop (Suc k) st = retire_loop k st1" using t snoc False d(1) by (simp add: st1_def)
      ultimately show ?thesis using same_time_trans by metis
    qed
  qed
qed simp

lemma retire_ok:
  assumes "rp_ok st is os"
  shows "\<exists>st' is' os'. retire_old_queries st = Some (Ret st') \<and> rp_ok st' is' os' \<and> same_time st st'"
proof -
  have "distinct os" "set os \<subseteq> {..<rp_max_outstanding st}" using assms by (auto simp: rp_ok_def rp_lists_def dll_def)
  then have "length os \<le> rp_max_outstanding st" using card_mono [of "{..<rp_max_outstanding st}" "set os"] by (simp add: distinct_card)
  then show ?thesis unfolding retire_old_queries_def by (intro retire_loop_ok [OF assms]) simp
qed

section \<open>Sending a line\<close>

lemma rp_ok_head: "rp_ok st is os \<Longrightarrow> head (rp_instanding st) = first is None"
  using ql.first_of [of "rp_queries st" "rp_instanding st" "is"] by (simp add: rp_ok_def rp_lists_def)

lemma rp_ok_inprogress:
  "rp_ok st is os \<Longrightarrow> q \<in> set is \<union> set os \<Longrightarrow> is_inprogress (rp_queries st q) \<Longrightarrow> is \<noteq> [] \<and> q = hd is"
  by (auto simp: rp_ok_def rp_lists_def)

lemma rp_ok_range: "rp_ok st is os \<Longrightarrow> q \<in> set is \<union> set os \<longleftrightarrow> q < rp_max_outstanding st"
  by (auto simp: rp_ok_def rp_lists_def)

lemma clear_inprogress_ok:
  assumes "rp_ok st (q # is) os"
  shows "rp_ok (upd_rp_query q (is_inprogress_update (\<lambda>_. b)) st) (q # is) os"
proof -
  let ?h = "(rp_queries st)(q := (rp_queries st q)\<lparr>is_inprogress := b\<rparr>)"
  have "dll ?h l xs \<longleftrightarrow> dll (rp_queries st) l xs" for l xs using dll_upd [of "is_inprogress_update (\<lambda>_. b)" "rp_queries st" q l xs] by simp
  then have "rp_lists (upd_rp_query q (is_inprogress_update (\<lambda>_. b)) st) (q # is) os"
    using assms by (auto simp: rp_ok_def rp_lists_def upd_rp_query_def)
  then show ?thesis using assms by (simp add: rp_ok_def)
qed

text \<open>
  At most one query is in progress, the first available one, so the loop over queries in
  progress runs at most twice.
\<close>

lemma inprogress_loop_ok:
  assumes ok: "rp_ok st is os" and ready: "\<forall>i sock. sock < rp_nsocks st \<longrightarrow> calls_ok st sock (snd (ready i sock))" and k: "2 \<le> k"
  shows "\<exists>r st' is' os'. inprogress_loop k ready i st = Some (Ret (r, st')) \<and> rp_ok st' is' os' \<and> same_time st st' \<and>
    (\<forall>q. r = Head q \<longrightarrow> is' \<noteq> [] \<and> q = hd is' \<and> \<not> is_inprogress (rp_queries st' q))"
proof -
  define k' where "k' = k - 2"
  then have k': "k = Suc (Suc k')" using k by simp
  have stop: "\<exists>r. inprogress_loop (Suc j) ready i' st' = Some (Ret (r, st')) \<and> (\<forall>q. r = Head q \<longrightarrow> is' \<noteq> [] \<and> q = hd is' \<and> \<not> is_inprogress (rp_queries st' q))"
    if "rp_ok st' is' os'" "\<And>q. q \<in> set is' \<Longrightarrow> \<not> is_inprogress (rp_queries st' q)" for st' is' os' j i'
    using that rp_ok_head [OF that(1)] by (cases is') auto
  show ?thesis
  proof (cases "is = [] \<or> \<not> is_inprogress (rp_queries st (hd is))")
    case True
    then have "\<not> is_inprogress (rp_queries st q)" if "q \<in> set is" for q
      using rp_ok_inprogress [OF ok] that by (cases "is") auto
    from stop [OF ok this, of "Suc k'" i] obtain r where r: "inprogress_loop k ready i st = Some (Ret (r, st))"
        "\<forall>q. r = Head q \<longrightarrow> is \<noteq> [] \<and> q = hd is \<and> \<not> is_inprogress (rp_queries st q)" unfolding k' by blast
    show ?thesis using r ok same_time_refl by blast
  next
    case False
    then obtain q is1 where q: "is = q # is1" "is_inprogress (rp_queries st q)" by (cases "is") auto
    let ?sock = "q mod rp_nsocks st"
    have "?sock < rp_nsocks st" using ok by (simp add: rp_ok_def)
    then obtain st1 where s1: "rp_callbacks ?sock (snd (ready i ?sock)) st = Ret st1" "rp_ok st1 is os" "same_time st st1"
      using rp_callbacks_ok [OF ok, of ?sock "snd (ready i ?sock)"] ready by blast
    have hd: "head (rp_instanding st) = Some q" using rp_ok_head [OF ok] q(1) by simp
    show ?thesis
    proof (cases "fst (ready i ?sock) = failed")
      case True
      then have "inprogress_loop k ready i st = Some (Ret (Head_busy, st1))" using k' hd q(2) s1(1) by (simp add: Let_def)
      then show ?thesis using s1 by blast
    next
      case False
      let ?st1 = "upd_rp_query q (is_inprogress_update (\<lambda>_. False)) st1"
      have o1: "rp_ok ?st1 (q # is1) os" "\<not> is_inprogress (rp_queries ?st1 q)"
        using clear_inprogress_ok [of st1 q is1 os False] s1(2) q(1) by (simp_all add: upd_rp_query_def)
      then obtain st2 where s2: "query_sent q ?st1 = Ret st2" "rp_ok st2 is1 (q # os)" "same_time ?st1 st2"
          "\<forall>x. is_inprogress (rp_queries st2 x) = is_inprogress (rp_queries ?st1 x)"
        using query_sent_ok [OF o1] by blast
      have "q \<notin> set is1" using o1(1) by (auto simp: rp_ok_def rp_lists_def dll_def)
      have "\<not> is_inprogress (rp_queries st2 x)" if "x \<in> set is1" for x
      proof
        assume "is_inprogress (rp_queries st2 x)"
        then have "is_inprogress (rp_queries ?st1 x)" using s2(4) by simp
        then have "x = q" using rp_ok_inprogress [OF o1(1), of x] that by simp
        then show False using that \<open>q \<notin> set is1\<close> by simp
      qed
      from stop [OF s2(2) this, of k' "i + 1"] obtain r where
        r: "inprogress_loop (Suc k') ready (i + 1) st2 = Some (Ret (r, st2))"
          "\<forall>q. r = Head q \<longrightarrow> is1 \<noteq> [] \<and> q = hd is1 \<and> \<not> is_inprogress (rp_queries st2 q)" by blast
      have "inprogress_loop k ready i st = inprogress_loop (Suc k') ready (i + 1) st2"
        using k' hd q(2) s1(1) False s2(1) by (simp add: Let_def)
      moreover have "same_time st st2"
        using same_time_trans [OF s1(3) same_time_trans [OF upd_rp_query_simps(7) s2(3)]] .
      ultimately have "inprogress_loop k ready i st = Some (Ret (r, st2))" "same_time st st2" using r(1) by simp_all
      then show ?thesis using r(2) s2(2) by blast
    qed
  qed
qed

text \<open>The input and the buffers: a file of queries, buffers with room for a message, and a usable key.\<close>

definition io_ok :: "('c \<Rightarrow> bool) \<Rightarrow> 'c rp_io \<Rightarrow> bool" where
  "io_ok keyed io \<longleftrightarrow> df_format (io_file io) = input_format_text_query \<and>
    buf_wf (io_lines io) \<and> 0 < buf_length (io_lines io) \<and> buf_wf (io_msg io) \<and> 512 \<le> buf_length (io_msg io) \<and>
    option_wf (io_option io) \<and> (case io_key io of None \<Rightarrow> True | Some key \<Rightarrow> tsigkey_wf keyed key)"

lemma rp_build_ok:
  assumes "io_ok keyed io" "is_mac ssl keyed mac"
  shows "(\<exists>r io'. rp_build ssl now qid io = Ret (r, io') \<and> io_ok keyed io') \<or> rp_build ssl now qid io = Exit 1"
proof -
  have b: "df_format (io_file io) = input_format_text_query" "buf_wf (io_lines io)" "0 < buf_length (io_lines io)"
      "buf_wf (io_msg io)" "512 \<le> buf_length (io_msg io)"
      "option_wf (io_option io)" "case io_key io of None \<Rightarrow> True | Some key \<Rightarrow> tsigkey_wf keyed key"
    using assms(1) by (simp_all add: io_ok_def)
  from query_file_returns [OF b(1,3) empty_buf_clear [OF b(2) refl], of "io_input io"] show ?thesis
  proof
    assume "perf_datafile_next (io_file io) (io_input io) (perf_buffer_clear (io_lines io)) = Exit 1"
    then show ?thesis by (simp add: rp_build_def)
  next
    assume "\<exists>r df' s' lines. perf_datafile_next (io_file io) (io_input io) (perf_buffer_clear (io_lines io)) = Ret (r, df', s', lines) \<and>
      df_format df' = input_format_text_query \<and> buf_wf lines \<and> buf_length lines = buf_length (io_lines io)"
    then obtain r df' s' lines where
      d: "perf_datafile_next (io_file io) (io_input io) (perf_buffer_clear (io_lines io)) = Ret (r, df', s', lines)"
        "df_format df' = input_format_text_query" "buf_wf lines" "buf_length lines = buf_length (io_lines io)" by blast
    have msg: "buf_wf (perf_buffer_clear (io_msg io))" "buf_used (perf_buffer_clear (io_msg io)) = 0"
      "512 \<le> buf_length (perf_buffer_clear (io_msg io))"
      using empty_buf_clear [OF b(4) refl] b(5) by (simp_all add: empty_buf_def)
    obtain r' msg' key' where q: "perf_dns_buildrequest ssl now None (perf_buffer_usedregion lines) qid (io_edns io) (io_dnssec io) False
          (io_key io) (io_option io) (perf_buffer_clear (io_msg io)) = Ret (r', msg', key')"
      "buf_wf msg'" "buf_length msg' = buf_length (perf_buffer_clear (io_msg io))"
      "case key' of None \<Rightarrow> True | Some key \<Rightarrow> tsigkey_wf keyed key"
      using buildrequest_all [OF msg b(6) assms(2) b(7)] by blast
    have "io_ok keyed (io\<lparr>io_lines := lines, io_file := df', io_input := s', io_msg := msg', io_key := key'\<rparr>)"
      using d b q msg(3) by (auto simp: io_ok_def)
    moreover have "rp_build ssl now qid io = (if r = PERF_R_SUCCESS
        then Ret (r', io\<lparr>io_lines := lines, io_file := df', io_input := s', io_msg := msg', io_key := key'\<rparr>) else Exit 1)"
      using d(1) q(1) by (simp add: rp_build_def Let_def)
    ultimately show ?thesis by auto
  qed
qed

text \<open>
  What the transports are assumed to do during a call for a line: a callback is made for a query
  of the table.
\<close>

definition line_ok :: "('c \<Rightarrow> bool) \<Rightarrow> resperf \<Rightarrow> 'c line_events \<Rightarrow> bool" where
  "line_ok keyed st ev \<longleftrightarrow> (\<exists>mac. is_mac (le_ssl ev) keyed mac) \<and>
    (\<forall>sock < rp_nsocks st. (\<forall>i. calls_ok st sock (snd (le_inprogress ev i sock))) \<and>
      calls_ok st sock (snd (le_ready ev sock)) \<and> (\<forall>qid m. calls_ok st sock (snd (le_sendto ev sock qid m))))"

lemma calls_ok_same: "same_time st st' \<Longrightarrow> calls_ok st' sock acts = calls_ok st sock acts"
  by (simp add: calls_ok_def same_timeD)

lemma line_ok_same: "same_time st st' \<Longrightarrow> line_ok keyed st' ev = line_ok keyed st ev"
  by (simp add: line_ok_def calls_ok_same same_timeD)

lemma send_line_ok:
  assumes ok: "rp_ok st (q # is) os" and np: "\<not> is_inprogress (rp_queries st q)" and io: "io_ok keyed io" and ev: "line_ok keyed st ev"
  shows "(\<exists>r st' is' os' io'. send_line ev q st io = Ret (r, st', io') \<and> rp_ok st' is' os' \<and> same_time st st' \<and> io_ok keyed io') \<or>
    send_line ev q st io = Exit 1"
proof -
  define sock where "sock = q mod rp_nsocks st"
  define qid where "qid = (of_nat (q div rp_nsocks st) :: u16)"
  have sock: "sock < rp_nsocks st" using ok by (simp add: sock_def rp_ok_def)
  obtain mac where mac: "is_mac (le_ssl ev) keyed mac" using ev by (auto simp: line_ok_def)
  have "calls_ok st sock (snd (le_ready ev sock))" using ev sock by (simp add: line_ok_def)
  then obtain st1 where s1: "rp_callbacks sock (snd (le_ready ev sock)) st = Ret st1" "rp_ok st1 (q # is) os" "same_time st st1"
      "\<forall>x. is_inprogress (rp_queries st1 x) = is_inprogress (rp_queries st x)"
    using rp_callbacks_ok [OF ok] by blast
  show ?thesis
  proof (cases "fst (le_ready ev sock) = is_ready")
    case False
    then have "send_line ev q st io = Ret (PERF_R_FAILURE, st1, io)"
      using s1(1) by (simp add: send_line_def Let_def sock_def [symmetric])
    then show ?thesis using s1(2,3) io by blast
  next
    case ready: True
    show ?thesis
    proof (cases "rp_build (le_ssl ev) (le_time ev) qid io = Exit 1")
      case True
      then have "send_line ev q st io = Exit 1"
        using s1(1) ready by (simp add: send_line_def Let_def sock_def [symmetric] qid_def [symmetric])
      then show ?thesis by simp
    next
      case False
      then obtain res io1 where b: "rp_build (le_ssl ev) (le_time ev) qid io = Ret (res, io1)" "io_ok keyed io1"
        using rp_build_ok [OF io mac, of "le_time ev" qid] by auto
      show ?thesis
      proof (cases "res = PERF_R_SUCCESS")
        case False
        then have "send_line ev q st io = Ret (res, st1, io1)"
          using s1(1) ready b(1) by (simp add: send_line_def Let_def sock_def [symmetric] qid_def [symmetric])
        then show ?thesis using s1(2,3) b(2) by blast
      next
        case built: True
        define st2 where "st2 = upd_rp_query q (sent_timestamp_update (\<lambda>_. time_now st1)) st1"
        obtain r acts where r: "le_sendto ev sock qid (perf_buffer_usedregion (io_msg io1)) = (r, acts)" by fastforce
        have s2: "rp_ok st2 (q # is) os" "same_time st st2" "\<not> is_inprogress (rp_queries st2 q)"
          using s1 np same_time_trans [OF s1(3) upd_rp_query_simps(7)] by (simp_all add: st2_def rp_ok_stamp)
        have "calls_ok st sock (snd (le_sendto ev sock qid (perf_buffer_usedregion (io_msg io1))))" using ev sock by (simp add: line_ok_def)
        then have "calls_ok st2 sock acts" using r calls_ok_same [OF s2(2)] by simp
        then obtain st3 where s3: "rp_callbacks sock acts st2 = Ret st3" "rp_ok st3 (q # is) os" "same_time st2 st3"
            "\<forall>x. is_inprogress (rp_queries st3 x) = is_inprogress (rp_queries st2 x)"
          using rp_callbacks_ok [OF s2(1)] by blast
        have t3: "same_time st st3" by (rule same_time_trans [OF s2(2) s3(3)])
        have eq: "send_line ev q st io = (case r of
            In_progress \<Rightarrow> Ret (PERF_R_FAILURE, upd_rp_query q (is_inprogress_update (\<lambda>_. True)) st3, io1)
          | Send_error \<Rightarrow> Ret (PERF_R_FAILURE, st3, io1)
          | Sent_bytes n \<Rightarrow> if n < 1 then Ret (PERF_R_FAILURE, st3, io1)
              else obind (query_sent q st3) (\<lambda>st. Ret (PERF_R_SUCCESS, st, io1)))"
          using s1(1) ready b(1) built r s3(1)
          by (simp add: send_line_def Let_def sock_def [symmetric] qid_def [symmetric] st2_def [symmetric])
        obtain st4 where s4: "query_sent q st3 = Ret st4" "rp_ok st4 is (q # os)" "same_time st3 st4"
          using query_sent_ok [OF s3(2)] s2(3) s3(4) by blast
        have "same_time st st4" by (rule same_time_trans [OF t3 s4(3)])
        moreover have "rp_ok (upd_rp_query q (is_inprogress_update (\<lambda>_. True)) st3) (q # is) os" by (rule clear_inprogress_ok [OF s3(2)])
        moreover have "same_time st (upd_rp_query q (is_inprogress_update (\<lambda>_. True)) st3)"
          by (rule same_time_trans [OF t3 upd_rp_query_simps(7)])
        ultimately show ?thesis using eq s3(2) t3 s4(1,2) b(2) by (cases r) (auto intro: exI)
      qed
    qed
  qed
qed

lemma do_one_line_ok:
  assumes ok: "rp_ok st is os" and io: "io_ok keyed io" and ev: "line_ok keyed st ev"
  shows "(\<exists>r st' is' os' io'. do_one_line ev st io = Some (Ret (r, st', io')) \<and> rp_ok st' is' os' \<and> same_time st st' \<and> io_ok keyed io') \<or>
    do_one_line ev st io = Some (Exit 1)"
proof (cases "rp_max_outstanding st = 0")
  case True
  then have "is = []" using ok by (simp add: rp_ok_def rp_lists_def)
  then have "do_one_line ev st io = Some (Ret (PERF_R_NOMORE, st, io))"
    using rp_ok_head [OF ok] True by (simp add: do_one_line_def)
  then show ?thesis using ok io same_time_refl by blast
next
  case False
  then have k: "2 \<le> rp_max_outstanding st + 1" by simp
  obtain r st1 is1 os1 where l: "inprogress_loop (rp_max_outstanding st + 1) (le_inprogress ev) 0 st = Some (Ret (r, st1))"
      "rp_ok st1 is1 os1" "same_time st st1"
      "\<forall>q. r = Head q \<longrightarrow> is1 \<noteq> [] \<and> q = hd is1 \<and> \<not> is_inprogress (rp_queries st1 q)"
    using inprogress_loop_ok [OF ok _ k, of "le_inprogress ev" 0] ev by (auto simp: line_ok_def)
  show ?thesis
  proof (cases r)
    case (Head q)
    then obtain is2 where is2: "is1 = q # is2" "\<not> is_inprogress (rp_queries st1 q)" using l(4) by (cases is1) auto
    have "line_ok keyed st1 ev" by (rule line_ok_same [OF l(3), THEN iffD2, OF ev])
    from send_line_ok [OF l(2) [unfolded is2(1)] is2(2) io this] show ?thesis
      using l(1,3) Head same_time_trans [OF l(3)] by (fastforce simp: do_one_line_def)
  qed (use l io in \<open>auto simp: do_one_line_def intro!: exI\<close>)
qed

end
