(* ===== verification/Ramp.thy ===== *)
theory Ramp
  imports Resperf
begin

text \<open>
  The main loop of \<^verbatim>\<open>resperf.c\<close>: every round keeps the lists and the counters consistent, no
  round fails an assertion, and the loop ends.
\<close>

text \<open>
  The loop on given rounds: it is still running after the last of them, or it has been left
  before.  \<open>None\<close> would be an inner loop that does not end.
\<close>

datatype 's progress = Running 's | Finished 's

fun rp_main_loop :: "(rp_phase \<Rightarrow> u64 \<Rightarrow> int) \<Rightarrow> 'c rp_events list \<Rightarrow> 'c rp_state \<Rightarrow> 'c rp_state progress outcome option" where
  "rp_main_loop sched [] s = Some (Ret (Running s))"
| "rp_main_loop sched (ev # evs) s =
    (case rp_round sched ev s of
       None \<Rightarrow> None
     | Some (Ret None) \<Rightarrow> Some (Ret (Finished s))
     | Some (Ret (Some s)) \<Rightarrow> rp_main_loop sched evs s
     | Some Abort \<Rightarrow> Some Abort | Some (Exit n) \<Rightarrow> Some (Exit n) | Some UB \<Rightarrow> Some UB)"

section \<open>The parts of a round\<close>

definition same_clock :: "resperf \<Rightarrow> resperf \<Rightarrow> bool" where
  "same_clock st st' \<longleftrightarrow> same_run st st' \<and> time_now st' = time_now st"

lemma same_clock_refl [simp]: "same_clock st st"
  by (simp add: same_clock_def same_run_def)

lemma same_clock_trans: "same_clock a b \<Longrightarrow> same_clock b c \<Longrightarrow> same_clock a c"
  by (auto simp: same_clock_def intro: same_run_trans)

lemma same_time_clock: "same_time a b \<Longrightarrow> same_clock a b"
  by (simp add: same_time_def same_clock_def)

lemma rp_ok_phase [simp]:
  "rp_ok (enter_wait_phase st) is os = rp_ok st is os" "rp_ok (enter_sustain_phase st) is os = rp_ok st is os"
  "rp_ok (st\<lparr>time_now := now\<rparr>) is os = rp_ok st is os"
  by (simp_all add: rp_ok_def rp_lists_def rp_sums_def n_buckets_def enter_wait_phase_def enter_sustain_phase_def)

lemma phase_clock [simp]:
  "same_clock st (enter_wait_phase st)" "same_clock st (enter_sustain_phase st)"
  "rp_phase (enter_wait_phase st) = PHASE_WAIT"
  by (simp_all add: same_clock_def same_run_def enter_wait_phase_def enter_sustain_phase_def)

lemma line_ok_clock: "same_clock st st' \<Longrightarrow> line_ok keyed st' ev \<longleftrightarrow> line_ok keyed st ev"
  by (simp add: line_ok_def calls_ok_def same_clock_def same_run_def)

lemma send_phase_ok:
  assumes ok: "rp_ok st is os" and io: "io_ok keyed io" and ev: "line_ok keyed st ev"
  shows "(\<exists>st' is' os' io'. send_phase sched ev st io = Some (Ret (st', io')) \<and> rp_ok st' is' os' \<and> same_clock st st' \<and> io_ok keyed io' \<and>
      (rp_phase st' = rp_phase st \<or> rp_phase st' = PHASE_WAIT)) \<or>
    send_phase sched ev st io = Some (Exit 1)"
proof (cases "rp_phase st = PHASE_WAIT")
  case True
  then have "send_phase sched ev st io = Some (Ret (st, io))" by (simp add: send_phase_def)
  then show ?thesis using ok io same_clock_refl by blast
next
  case False
  define todo where "todo = should_send sched st"
  define st1 where "st1 = (if rp_max_fall_behind st \<noteq> 0 \<and> todo \<ge> rp_max_fall_behind st then enter_wait_phase st else st)"
  have s1: "rp_ok st1 is os" "same_clock st st1" "rp_phase st1 = rp_phase st \<or> rp_phase st1 = PHASE_WAIT"
    using ok by (simp_all add: st1_def)
  show ?thesis
  proof (cases "sint todo > 0")
    case False
    then have "send_phase sched ev st io = Some (Ret (st1, io))"
      using \<open>rp_phase st \<noteq> PHASE_WAIT\<close> by (simp add: send_phase_def Let_def todo_def [symmetric] st1_def [symmetric])
    then show ?thesis using s1 io by blast
  next
    case True
    have ev1: "line_ok keyed st1 ev" by (rule line_ok_clock [OF s1(2), THEN iffD2, OF ev])
    define after where "after = (\<lambda>result st2. if result = PERF_R_SUCCESS then upd_bucket (time_now st2) (\<lambda>b. b\<lparr>b_queries := b_queries b + 1\<rparr>) st2
        else if result = PERF_R_NOMORE then enter_wait_phase st2 else st2)"
    have eq: "send_phase sched ev st io = (case do_one_line ev st1 io of None \<Rightarrow> None
        | Some out \<Rightarrow> Some (obind out (\<lambda>(result, st, io). Ret (after result st, io))))"
      unfolding after_def using True \<open>rp_phase st \<noteq> PHASE_WAIT\<close>
      by (simp add: send_phase_def Let_def todo_def [symmetric] st1_def [symmetric])
    from do_one_line_ok [OF s1(1) io ev1] show ?thesis
    proof
      assume "do_one_line ev st1 io = Some (Exit 1)"
      then show ?thesis using eq by simp
    next
      assume "\<exists>r st' is' os' io'. do_one_line ev st1 io = Some (Ret (r, st', io')) \<and> rp_ok st' is' os' \<and> same_time st1 st' \<and> io_ok keyed io'"
      then obtain r st2 is2 os2 io2 where s2: "do_one_line ev st1 io = Some (Ret (r, st2, io2))" "rp_ok st2 is2 os2"
        "same_time st1 st2" "io_ok keyed io2" by blast
      have "rp_ok (after r st2) is2 os2" using s2(2) by (auto simp: after_def intro: upd_bucket_ok)
      moreover have "same_time st2 (upd_bucket (time_now st2) (\<lambda>b. b\<lparr>b_queries := b_queries b + 1\<rparr>) st2)"
        using upd_bucket_simps(1) by blast
      then have "same_clock st2 (after r st2)" "rp_phase (after r st2) = rp_phase st2 \<or> rp_phase (after r st2) = PHASE_WAIT"
        by (auto simp: after_def same_time_clock) (simp add: same_time_def)
      moreover have "same_clock st st2" by (rule same_clock_trans [OF s1(2) same_time_clock [OF s2(3)]])
      moreover have "rp_phase st2 = rp_phase st1" using s2(3) by (simp add: same_time_def)
      ultimately show ?thesis using eq s2(1,4) s1(3) same_clock_trans by (auto intro!: exI)
    qed
  qed
qed

text \<open>The invariant, without naming the lists.\<close>

definition rp_inv :: "resperf \<Rightarrow> bool" where
  "rp_inv st \<longleftrightarrow> (\<exists>is os. rp_ok st is os)"

lemma rp_invI [intro]: "rp_ok st is os \<Longrightarrow> rp_inv st"
  by (auto simp: rp_inv_def)

lemma rp_inv_phase [simp]:
  "rp_inv (enter_wait_phase st) = rp_inv st" "rp_inv (enter_sustain_phase st) = rp_inv st" "rp_inv (st\<lparr>time_now := now\<rparr>) = rp_inv st"
  by (simp_all add: rp_inv_def)

definition recv_calls_ok :: "resperf \<Rightarrow> (action list \<times> recv_result \<times> action list) list \<Rightarrow> bool" where
  "recv_calls_ok st evs \<longleftrightarrow> (\<forall>(acts, res) \<in> set evs. \<forall>sock < rp_nsocks st. calls_ok st sock acts \<and> calls_ok st sock (snd res))"

lemma receive_loop_ok:
  assumes "rp_inv st" "recv_calls_ok st evs" "cur < rp_nsocks st"
  shows "(\<exists>cur' st'. receive_loop evs cur st = Ret (cur', st') \<and> rp_inv st' \<and> same_time st st' \<and> cur' < rp_nsocks st) \<or>
    receive_loop evs cur st = Exit 1"
  using assms
proof (induction evs arbitrary: cur st)
  case Nil
  then show ?case by simp
next
  case (Cons ev evs)
  obtain acts res where ev: "ev = (acts, res)" by (cases ev)
  obtain "is" os where ok: "rp_ok st is os" using Cons.prems(1) by (auto simp: rp_inv_def)
  have c: "calls_ok st cur acts" "calls_ok st cur (snd res)" using Cons.prems(2,3) ev by (auto simp: recv_calls_ok_def)
  from try_process_response_ok [OF ok c] show ?case
  proof
    assume "try_process_response cur acts res st = Exit 1 \<and> (\<exists>e. fst res = Recv_error e \<and> e \<notin> {EAGAIN, EINTR})"
    then show ?thesis using ev by simp
  next
    assume "\<exists>st' is' os'. try_process_response cur acts res st = Ret st' \<and> rp_ok st' is' os' \<and> same_time st st'"
    then obtain st1 where s1: "try_process_response cur acts res st = Ret st1" "rp_inv st1" "same_time st st1" by blast
    let ?cur = "if cur + 1 \<ge> rp_nsocks st1 then 0 else cur + 1"
    have n: "rp_nsocks st1 = rp_nsocks st" "0 < rp_nsocks st" using same_timeD(2) [OF s1(3)] Cons.prems(3) by auto
    have "recv_calls_ok st1 evs" using Cons.prems(2) calls_ok_same [OF s1(3)] n(1) by (auto simp: recv_calls_ok_def)
    moreover have "?cur < rp_nsocks st1" using n by simp
    ultimately have ih: "(\<exists>cur' st'. receive_loop evs ?cur st1 = Ret (cur', st') \<and> rp_inv st' \<and> same_time st1 st' \<and> cur' < rp_nsocks st1) \<or>
        receive_loop evs ?cur st1 = Exit 1" using Cons.IH [OF s1(2)] by blast
    have "receive_loop (ev # evs) cur st = receive_loop evs ?cur st1" using ev s1(1) by simp
    then show ?thesis using ih n(1) same_time_trans [OF s1(3)] by auto
  qed
qed

section \<open>A round\<close>

text \<open>What is assumed of the transports in a round.\<close>

definition round_ok :: "('c \<Rightarrow> bool) \<Rightarrow> resperf \<Rightarrow> 'c rp_events \<Rightarrow> bool" where
  "round_ok keyed st ev \<longleftrightarrow> line_ok keyed st (re_line ev) \<and> recv_calls_ok st (re_recv ev)"

lemma round_ok_clock: "same_run st st' \<Longrightarrow> round_ok keyed st' ev \<longleftrightarrow> round_ok keyed st ev"
  by (auto simp: round_ok_def recv_calls_ok_def line_ok_def calls_ok_def same_run_def)

lemma recv_calls_clock: "same_clock st st' \<Longrightarrow> recv_calls_ok st' evs \<longleftrightarrow> recv_calls_ok st evs"
  by (auto simp: recv_calls_ok_def calls_ok_def same_clock_def same_run_def)

definition state_ok :: "('c \<Rightarrow> bool) \<Rightarrow> 'c rp_state \<Rightarrow> bool" where
  "state_ok keyed s \<longleftrightarrow> (case s of (cur, st, io) \<Rightarrow> rp_inv st \<and> io_ok keyed io \<and> cur < rp_nsocks st)"

abbreviation the_rp :: "'c rp_state \<Rightarrow> resperf" where
  "the_rp s \<equiv> fst (snd s)"

lemma next_phase_ok:
  assumes "rp_inv st" "next_phase st = Some st'"
  shows "rp_inv st' \<and> same_clock st st'"
  using assms
  by (auto simp: next_phase_def Let_def split: rp_phase.splits if_splits)

lemma round_preserves:
  assumes s: "state_ok keyed s" and ev: "round_ok keyed (the_rp s) ev"
  shows "rp_round sched ev s = Some (Exit 1) \<or> (rp_round sched ev s = Some (Ret None) \<and> next_phase (the_rp s) = None) \<or>
    (\<exists>st1 s'. rp_round sched ev s = Some (Ret (Some s')) \<and> state_ok keyed s' \<and> same_run (the_rp s) (the_rp s') \<and>
      time_now (the_rp s') = re_now ev \<and> next_phase (the_rp s) = Some st1 \<and> rp_phase (the_rp s') \<in> {rp_phase st1, PHASE_WAIT})"
proof -
  obtain cur st io where eq: "s = (cur, st, io)" by (cases s)
  have ok: "rp_inv st" "io_ok keyed io" "cur < rp_nsocks st" using s eq by (simp_all add: state_ok_def)
  show ?thesis
  proof (cases "next_phase st")
    case None
    then show ?thesis using eq by (simp add: rp_round_def)
  next
    case (Some st1)
    note n = next_phase_ok [OF ok(1) Some]
    obtain is1 os1 where ok1: "rp_ok st1 is1 os1" using n by (auto simp: rp_inv_def)
    have ev1: "line_ok keyed st1 (re_line ev)" "recv_calls_ok st1 (re_recv ev)"
      using ev eq n line_ok_clock recv_calls_clock by (auto simp: round_ok_def)
    from send_phase_ok [OF ok1 ok(2) ev1(1)] show ?thesis
    proof
      assume "send_phase sched (re_line ev) st1 io = Some (Exit 1)"
      then show ?thesis using eq Some by (simp add: rp_round_def)
    next
      assume "\<exists>st' is' os' io'. send_phase sched (re_line ev) st1 io = Some (Ret (st', io')) \<and> rp_ok st' is' os' \<and> same_clock st1 st' \<and>
        io_ok keyed io' \<and> (rp_phase st' = rp_phase st1 \<or> rp_phase st' = PHASE_WAIT)"
      then obtain st2 io2 where s2: "send_phase sched (re_line ev) st1 io = Some (Ret (st2, io2))" "rp_inv st2" "same_clock st1 st2"
        "io_ok keyed io2" "rp_phase st2 = rp_phase st1 \<or> rp_phase st2 = PHASE_WAIT" by blast
      have c2: "same_clock st st2" using n s2(3) same_clock_trans by blast
      then have n2: "rp_nsocks st2 = rp_nsocks st" by (simp add: same_clock_def same_run_def)
      have "recv_calls_ok st2 (re_recv ev)" using ev1(2) recv_calls_clock [OF s2(3)] by simp
      moreover have "cur < rp_nsocks st2" using ok(3) n2 by simp
      ultimately have "(\<exists>cur' st'. receive_loop (re_recv ev) cur st2 = Ret (cur', st') \<and> rp_inv st' \<and> same_time st2 st' \<and>
        cur' < rp_nsocks st2) \<or> receive_loop (re_recv ev) cur st2 = Exit 1" by (rule receive_loop_ok [OF s2(2)])
      then show ?thesis
      proof (elim disjE exE conjE)
        assume "receive_loop (re_recv ev) cur st2 = Exit 1"
        then show ?thesis using eq Some s2(1) by (simp add: rp_round_def)
      next
        fix cur3 st3
        assume s3: "receive_loop (re_recv ev) cur st2 = Ret (cur3, st3)" "rp_inv st3" "same_time st2 st3" "cur3 < rp_nsocks st2"
        obtain is3 os3 where "rp_ok st3 is3 os3" using s3(2) by (auto simp: rp_inv_def)
        from retire_ok [OF this] obtain st4 is4 os4 where s4: "retire_old_queries st3 = Some (Ret st4)" "rp_ok st4 is4 os4" "same_time st3 st4"
          by blast
        have t: "same_time st2 st4" by (rule same_time_trans [OF s3(3) s4(3)])
        have c4: "same_clock st st4" by (rule same_clock_trans [OF c2 same_time_clock [OF t]])
        let ?s = "(cur3, st4\<lparr>time_now := re_now ev\<rparr>, io2)"
        have "rp_round sched ev s = Some (Ret (Some ?s))" using eq Some s2(1) s3(1) s4(1) by (simp add: rp_round_def)
        moreover have "state_ok keyed ?s"
          using rp_invI [OF s4(2)] s2(4) s3(4) n2 c4 by (simp add: state_ok_def same_clock_def same_run_def)
        moreover have "same_run st (st4\<lparr>time_now := re_now ev\<rparr>)" using c4 by (simp add: same_clock_def same_run_def)
        moreover have "rp_phase st4 = rp_phase st2" using t by (simp add: same_time_def)
        ultimately show ?thesis using eq Some s2(5) by auto
      qed
    qed
  qed
qed

section \<open>The loop\<close>

lemma same_run_refl [simp]: "same_run st st"
  by (simp add: same_run_def)

lemma main_loop_ok:
  assumes "state_ok keyed s" "\<forall>ev \<in> set evs. round_ok keyed (the_rp s) ev"
  shows "rp_main_loop sched evs s = Some (Exit 1) \<or>
    (\<exists>s'. rp_main_loop sched evs s = Some (Ret (Finished s')) \<and> state_ok keyed s' \<and> same_run (the_rp s) (the_rp s') \<and> next_phase (the_rp s') = None) \<or>
    (\<exists>s'. rp_main_loop sched evs s = Some (Ret (Running s')) \<and> state_ok keyed s' \<and> same_run (the_rp s) (the_rp s') \<and>
      (evs \<noteq> [] \<longrightarrow> time_now (the_rp s') = re_now (last evs)))"
  using assms
proof (induction evs arbitrary: s)
  case (Cons ev evs)
  have ev: "round_ok keyed (the_rp s) ev" using Cons.prems(2) by simp
  from round_preserves [OF Cons.prems(1) ev, of sched] show ?case
  proof (elim disjE conjE exE)
    fix st1 s1
    assume s1: "rp_round sched ev s = Some (Ret (Some s1))" "state_ok keyed s1" "same_run (the_rp s) (the_rp s1)" "time_now (the_rp s1) = re_now ev"
    have "\<forall>ev \<in> set evs. round_ok keyed (the_rp s1) ev" using Cons.prems(2) round_ok_clock [OF s1(3)] by auto
    from Cons.IH [OF s1(2) this] show ?thesis
      using s1 same_run_trans [OF s1(3)] by (cases "evs = []") auto
  qed (use Cons.prems(1) in simp_all)
qed simp

text \<open>The time for the test and for the last responses is over.\<close>

definition overdue :: "resperf \<Rightarrow> u64 \<Rightarrow> bool" where
  "overdue st now \<longleftrightarrow> now - time_of_program_start st \<ge> rp_end_time st"

text \<open>The times are in order: traffic includes the ramp, and the end includes the traffic.\<close>

definition times_ok :: "resperf \<Rightarrow> bool" where
  "times_ok st \<longleftrightarrow> rp_ramp_time st \<le> rp_traffic_time st \<and> rp_traffic_time st \<le> rp_end_time st"

fun rounds_left :: "rp_phase \<Rightarrow> nat" where
  "rounds_left PHASE_RAMP = 2"
| "rounds_left PHASE_SUSTAIN = 1"
| "rounds_left PHASE_WAIT = 0"

lemma overdue_ends:
  assumes "state_ok keyed s" "\<forall>ev \<in> set evs. round_ok keyed (the_rp s) ev \<and> overdue (the_rp s) (re_now ev)"
    and "overdue (the_rp s) (time_now (the_rp s))" "times_ok (the_rp s)" "rounds_left (rp_phase (the_rp s)) < length evs"
  shows "rp_main_loop sched evs s = Some (Exit 1) \<or> (\<exists>s'. rp_main_loop sched evs s = Some (Ret (Finished s')))"
  using assms
proof (induction evs arbitrary: s)
  case (Cons ev evs)
  have ev: "round_ok keyed (the_rp s) ev" using Cons.prems(2) by simp
  from round_preserves [OF Cons.prems(1) ev, of sched] show ?case
  proof (elim disjE conjE exE)
    fix st1 s1
    assume s1: "rp_round sched ev s = Some (Ret (Some s1))" "state_ok keyed s1" "same_run (the_rp s) (the_rp s1)" "time_now (the_rp s1) = re_now ev"
      and n: "next_phase (the_rp s) = Some st1" "rp_phase (the_rp s1) \<in> {rp_phase st1, PHASE_WAIT}"
    have o: "overdue (the_rp s1) x = overdue (the_rp s) x" "times_ok (the_rp s1)" for x
      using s1(3) Cons.prems(4) by (simp_all add: overdue_def same_run_def times_ok_def)
    have "rounds_left (rp_phase (the_rp s1)) < rounds_left (rp_phase (the_rp s))"
      using n Cons.prems(3,4)
      by (cases "rp_phase (the_rp s)")
        (auto simp: next_phase_def Let_def overdue_def times_ok_def enter_sustain_phase_def enter_wait_phase_def split: if_splits)
    then have l: "rounds_left (rp_phase (the_rp s1)) < length evs" using Cons.prems(5) by simp
    have ev1: "\<forall>ev \<in> set evs. round_ok keyed (the_rp s1) ev \<and> overdue (the_rp s1) (re_now ev)"
      using Cons.prems(2) round_ok_clock [OF s1(3)] o(1) by auto
    have "overdue (the_rp s1) (time_now (the_rp s1))" using Cons.prems(2) s1(4) o(1) by simp
    from Cons.IH [OF s1(2) ev1 this o(2) l] show ?thesis using s1(1) by simp
  qed (cases s, simp)+
qed simp

lemma rp_main_loop_append:
  "rp_main_loop sched (evs @ evs') s =
    (case rp_main_loop sched evs s of Some (Ret (Running s')) \<Rightarrow> rp_main_loop sched evs' s' | r \<Rightarrow> r)"
proof (induction evs arbitrary: s)
  case (Cons ev evs)
  show ?case
  proof (cases "rp_round sched ev s")
    case (Some out)
    then show ?thesis using Cons.IH by (cases out) (auto split: option.splits)
  qed simp
qed simp

end
