(* ===== verification/Rsetup.thy ===== *)
theory Rsetup
  imports Ramp Sender
begin

text \<open>
  \<^verbatim>\<open>setup\<close> of \<^verbatim>\<open>resperf.c\<close>: its options, the checks, the queries and buckets, and the sockets; then
  the buffers \<^verbatim>\<open>main\<close> prepares.  The opening of a socket is a parameter that gives the callbacks
  it makes.
\<close>

section \<open>Options\<close>

datatype resperf_var =
  W_family | W_mode | W_server_name | W_server_port | W_local_name | W_local_port | W_filename | W_timeout |
  W_bufsize | W_edns | W_edns_option | W_dnssec | W_tsigkey | W_bucket_interval | W_max_qps | W_plotfile |
  W_ramp_time | W_sustain_time | W_max_loss | W_nsocks | W_max_outstanding | W_verbose | W_log_stdout |
  W_reopen | W_max_fall_behind | W_doh_uri | W_doh_method | W_tls_sni | W_suppress | W_num_queries_per_conn

definition resperf_options :: "resperf_var registration list" where
  "resperf_options =
    [Short (CHR ''f'') perf_opt_string (Some ''family'') ''address family of DNS transport, inet or inet6'' (Some ''any'') W_family,
     Short (CHR ''M'') perf_opt_string (Some ''mode'') ''set transport mode: udp, tcp, dot or doh'' (Some ''udp'') W_mode,
     Short (CHR ''s'') perf_opt_string (Some ''server_addr'') ''the server to query'' (Some ''127.0.0.1'') W_server_name,
     Short (CHR ''p'') perf_opt_port (Some ''port'') ''the port on which to query the server'' (Some ''udp/tcp 53, DoT 853 or DoH 443'') W_server_port,
     Short (CHR ''a'') perf_opt_string (Some ''local_addr'') ''the local address from which to send queries'' None W_local_name,
     Short (CHR ''x'') perf_opt_port (Some ''local_port'') ''the local port from which to send queries'' (Some ''0'') W_local_port,
     Short (CHR ''d'') perf_opt_string (Some ''datafile'') ''the input data file'' (Some ''stdin'') W_filename,
     Short (CHR ''t'') perf_opt_timeval (Some ''timeout'') ''the timeout for query completion in seconds'' (Some ''45'') W_timeout,
     Short (CHR ''b'') perf_opt_uint (Some ''buffer_size'') ''socket send/receive buffer size in kilobytes'' None W_bufsize,
     Short (CHR ''e'') perf_opt_boolean None ''enable EDNS 0'' None W_edns,
     Short (CHR ''E'') perf_opt_string (Some ''code:value'') ''send EDNS option'' None W_edns_option,
     Short (CHR ''D'') perf_opt_boolean None ''set the DNSSEC OK bit (implies EDNS)'' None W_dnssec,
     Short (CHR ''y'') perf_opt_string (Some ''[alg:]name:secret'') ''the TSIG algorithm, name and secret'' None W_tsigkey,
     Short (CHR ''i'') perf_opt_timeval (Some ''plot_interval'') ''the time interval between plot data points, in seconds'' (Some ''0.5'') W_bucket_interval,
     Short (CHR ''m'') perf_opt_double (Some ''max_qps'') ''the maximum number of queries per second'' (Some ''100000'') W_max_qps,
     Short (CHR ''P'') perf_opt_string (Some ''plotfile'') ''the name of the plot data file'' (Some ''resperf.gnuplot'') W_plotfile,
     Short (CHR ''r'') perf_opt_timeval (Some ''ramp_time'') ''the ramp-up time in seconds'' (Some ''60'') W_ramp_time,
     Short (CHR ''c'') perf_opt_timeval (Some ''constant_traffic_time'') ''how long to send constant traffic, in seconds'' (Some ''0'') W_sustain_time,
     Short (CHR ''L'') perf_opt_double (Some ''max_query_loss'') ''the maximum acceptable query loss, in percent'' (Some ''100'') W_max_loss,
     Short (CHR ''C'') perf_opt_uint (Some ''clients'') ''the number of clients to act as'' (Some ''1'') W_nsocks,
     Short (CHR ''q'') perf_opt_uint (Some ''num_outstanding'') ''the maximum number of queries outstanding'' (Some ''65536'') W_max_outstanding,
     Short (CHR ''v'') perf_opt_boolean None ''verbose: report additional information to stdout'' None W_verbose,
     Short (CHR ''W'') perf_opt_boolean None ''log warnings and errors to stdout instead of stderr'' None W_log_stdout,
     Short (CHR ''R'') perf_opt_boolean None ''reopen datafile on end, allow for infinit use of it'' None W_reopen,
     Short (CHR ''F'') perf_opt_zpint (Some ''fall_behind'') ''the maximum number of queries that is allowed to fall behind, zero to disable'' (Some ''1000'') W_max_fall_behind,
     Long ''doh-uri'' perf_opt_string (Some ''doh_uri'') ''the URI to use for DNS-over-HTTPS'' (Some DEFAULT_DOH_URI) W_doh_uri,
     Long ''doh-method'' perf_opt_string (Some ''doh_method'') ''the HTTP method to use for DNS-over-HTTPS: GET or POST'' (Some ''GET'') W_doh_method,
     Long ''tls-sni'' perf_opt_string (Some ''tls_sni'') ''the TLS SNI to use for TLS connections'' None W_tls_sni,
     Long ''suppress'' perf_opt_string (Some ''message[,message,...]'') ''suppress messages/warnings, see dnsperf(1) man-page for list of message types'' None W_suppress,
     Long ''num-queries-per-conn'' perf_opt_uint (Some ''queries'') ''Number of queries to send per connection'' None W_num_queries_per_conn]"

section \<open>Queries, buckets and sockets\<close>

definition DEFAULT_MAX_OUTSTANDING :: u32 where
  "DEFAULT_MAX_OUTSTANDING = 64 * 1024"

text \<open>The product is one of unsigned 32 bit numbers.\<close>

definition check_limits :: "u32 \<Rightarrow> u32 \<Rightarrow> u64 \<Rightarrow> u64 \<Rightarrow> unit outcome" where
  "check_limits outstanding clients ramp sustain =
    (if outstanding > clients * DEFAULT_MAX_OUTSTANDING then Exit 1
     else if ramp + sustain = 0 then Exit 1 else Ret ())"

definition blank_rp_query :: rp_query where
  "blank_rp_query = \<lparr>lprev = None, lnext = None, sent_timestamp = 0, is_inprogress = False, rp_on = on_instanding\<rparr>"

definition rp_init_query :: "nat \<Rightarrow> (nat \<Rightarrow> rp_query) \<times> plist \<Rightarrow> (nat \<Rightarrow> rp_query) \<times> plist" where
  "rp_init_query i s = (case s of (h, p) \<Rightarrow>
     (case perf_list_append (perf_link_init i h) p i of
        (h, p) \<Rightarrow> (h(i := (h i)\<lparr>rp_on := on_instanding\<rparr>), p)))"

definition blank_bucket :: ramp_bucket where
  "blank_bucket = \<lparr>b_queries = 0, b_responses = 0, b_failures = 0, b_latency_sum = 0, b_connections = 0, b_conn_latency_sum = 0\<rparr>"

text \<open>
  The number of buckets is an \<^verbatim>\<open>int\<close>; \<^verbatim>\<open>calloc\<close> refuses a negative one, which is a huge size.
\<close>

definition init_buckets :: "int \<Rightarrow> ramp_bucket list outcome" where
  "init_buckets n = (if n < 0 then Exit 1 else Ret (replicate (nat n) blank_bucket))"

definition make_buckets :: "u64 \<Rightarrow> u64 \<Rightarrow> ramp_bucket list outcome" where
  "make_buckets traffic interval =
    (if interval = 0 then UB
     else init_buckets (sint (ucast ((traffic + interval - 1) div interval) :: u32)))"

definition wait_time_default :: u64 where
  "wait_time_default = 40 * MILLION"

definition rp_start :: "u32 \<Rightarrow> u32 \<Rightarrow> u64 \<Rightarrow> u64 \<Rightarrow> u64 \<Rightarrow> u32 \<Rightarrow> ramp_bucket list \<Rightarrow> u64 \<Rightarrow> resperf" where
  "rp_start clients outstanding timeout ramp sustain fall_behind bs now =
    (case fold rp_init_query [0..<unat outstanding] (\<lambda>_. blank_rp_query, perf_list_init) of (h, p) \<Rightarrow>
     \<lparr>rp_queries = h, rp_outstanding = perf_list_init, rp_instanding = p, rp_nsocks = unat clients,
      rp_max_outstanding = unat outstanding, rp_query_timeout = timeout, rp_ramp_time = ramp,
      rp_traffic_time = ramp + sustain, rp_end_time = ramp + sustain + wait_time_default, rp_buckets = bs,
      rp_max_fall_behind = fall_behind, num_queries_sent = 0, num_queries_outstanding = 0, num_responses_received = 0,
      num_queries_timed_out = 0, rp_rcodecounts = replicate 16 0, num_conn_completed = 0, num_conn_attempts = 0,
      time_now = now, time_of_program_start = now, rp_phase = PHASE_RAMP, sustain_phase_began = 0, wait_phase_began = 0\<rparr>)"

record ('c, 'd) rp_environment = "('c, 'd) environment" +
  env_socket :: "perf_net_mode \<Rightarrow> perf_sockaddr \<Rightarrow> perf_sockaddr \<Rightarrow> u32 \<Rightarrow> u64 \<Rightarrow> u64 \<Rightarrow> action list outcome"
  env_now :: u64
  env_input :: input

fun open_sockets :: "(u32 \<Rightarrow> action list outcome) \<Rightarrow> nat list \<Rightarrow> resperf \<Rightarrow> resperf outcome" where
  "open_sockets opener [] st = Ret st"
| "open_sockets opener (i # is) st =
    obind (opener (of_nat i)) (\<lambda>acts. obind (rp_callbacks i acts st) (open_sockets opener is))"

definition RP_INPUT_DATA :: nat where
  "RP_INPUT_DATA = 64 * 1024 + 2"

definition main_buffers :: "bool \<Rightarrow> perf_buffer \<times> perf_buffer" where
  "main_buffers edns =
    (let max_packet_size = (if edns then MAX_EDNS_PACKET else MAX_UDP_PACKET)
     in (perf_buffer_init (replicate RP_INPUT_DATA 0) RP_INPUT_DATA, perf_buffer_init (replicate MAX_EDNS_PACKET 0) max_packet_size))"

definition rp_configure :: "('c, 'd) rp_environment \<Rightarrow> (resperf_var, 'd) optvals \<Rightarrow> (resperf \<times> 'c rp_io \<times> net_globals) outcome" where
  "rp_configure env vs =
    obind (perf_opt_parse_suppress (string_of vs W_suppress)) (\<lambda>suppress.
    obind (case string_of vs W_mode of None \<Rightarrow> Ret sock_udp | Some m \<Rightarrow> perf_net_parsemode m) (\<lambda>mode.
    obind (perf_net_doh_parse_uri (case string_of vs W_doh_uri of None \<Rightarrow> cstr DEFAULT_DOH_URI | Some u \<Rightarrow> u)) (\<lambda>uri.
    obind (perf_net_doh_parse_method (case string_of vs W_doh_method of None \<Rightarrow> cstr ''GET'' | Some m \<Rightarrow> m)) (\<lambda>method.
    let nsocks = uint_of vs W_nsocks 1;
        max_outstanding = uint_of vs W_max_outstanding DEFAULT_MAX_OUTSTANDING;
        ramp = time_of vs W_ramp_time (60 * MILLION);
        sustain = time_of vs W_sustain_time 0;
        timeout = time_of vs W_timeout (45 * MILLION)
    in obind (check_limits max_outstanding nsocks ramp sustain) (\<lambda>_.
    obind (case string_of vs W_family of None \<Rightarrow> Ret AF_UNSPEC | Some f \<Rightarrow> perf_net_parsefamily (Some f)) (\<lambda>family.
    obind (perf_net_parseserver (env_resolve env) family
      (case string_of vs W_server_name of None \<Rightarrow> cstr ''127.0.0.1'' | Some s \<Rightarrow> s)
      (server_port mode (port_of vs W_server_port))) (\<lambda>server.
    obind (perf_net_parselocal (env_pton env) (sa_family server) (string_of vs W_local_name)
      (port_of vs W_local_port)) (\<lambda>local.
    obind (perf_datafile_open (env_open env (string_of vs W_filename)) input_format_text_query) (\<lambda>input.
    let input = (if bool_of vs W_reopen then perf_datafile_setmaxruns input (- 1) else input);
        edns = (bool_of vs W_edns \<or> bool_of vs W_dnssec \<or> string_of vs W_edns_option \<noteq> None)
    in obind (case string_of vs W_tsigkey of
        None \<Rightarrow> Ret None | Some k \<Rightarrow> obind (perf_tsig_parsekey (env_ssl env) k) (\<lambda>k. Ret (Some k))) (\<lambda>key.
    obind (case string_of vs W_edns_option of
        None \<Rightarrow> Ret None | Some a \<Rightarrow> obind (perf_edns_parseoption a) (\<lambda>e. Ret (Some e))) (\<lambda>opt.
    obind (make_buckets (ramp + sustain) (time_of vs W_bucket_interval (MILLION div 2))) (\<lambda>bs.
    let st = rp_start nsocks max_outstanding timeout ramp sustain (uint_of vs W_max_fall_behind 1000) bs (env_now env)
    in obind (open_sockets (\<lambda>i. obind (perf_net_opensocket mode server local i) (\<lambda>(mode, local).
          env_socket env mode server local (uint_of vs W_bufsize 32) (ucast (uint_of vs W_num_queries_per_conn 0)) timeout))
        [0..<unat nsocks] st) (\<lambda>st.
    Ret (st, \<lparr>io_edns = edns, io_dnssec = bool_of vs W_dnssec, io_option = opt, io_key = key,
              io_lines = fst (main_buffers edns), io_msg = snd (main_buffers edns), io_file = input, io_input = env_input env\<rparr>,
          \<lparr>doh_uri = uri, doh_method = method, doh_max_concurr = unat max_outstanding,
           perf_net_tls_sni = string_of vs W_tls_sni\<rparr>))))))))))))))"

definition setup_resperf :: "('c, 'd) rp_environment \<Rightarrow> (resperf \<times> 'c rp_io \<times> net_globals) outcome" where
  "setup_resperf env =
    obind (register_all resperf_options no_options) (\<lambda>os.
    obind (perf_opt_parse (env_floats env) (env_getopt env) os (\<lambda>_. None)) (\<lambda>vs.
    rp_configure env vs))"

section \<open>The initial state\<close>

lemma rp_init_queries:
  "\<exists>h p. fold rp_init_query [0..<n] (\<lambda>_. blank_rp_query, perf_list_init) = (h, p) \<and> dll h p [0..<n] \<and>
    (\<forall>x. link.more (h x) = link.more blank_rp_query)"
proof (induction n)
  case 0
  then show ?case by (simp add: dll_init)
next
  case (Suc n)
  then obtain h p where h: "fold rp_init_query [0..<n] (\<lambda>_. blank_rp_query, perf_list_init) = (h, p)"
    "dll h p [0..<n]" "\<And>x. link.more (h x) = link.more blank_rp_query" by auto
  have d: "dll (perf_link_init n h) p [0..<n]"
    using h(2) by (rule dll_frame) (auto simp: perf_link_init_def)
  obtain h' p' where h': "perf_list_append (perf_link_init n h) p n = (h', p')" by fastforce
  have "dll h' p' ([0..<n] @ [n])" by (rule append_dll [OF d _ h']) simp
  have m: "link.more (h' x) = link.more blank_rp_query" for x
    using append_more [OF h', of x] h(3) by (simp add: perf_link_init_def)
  have "(h' n)\<lparr>rp_on := on_instanding\<rparr> = h' n"
    using m [of n] by (cases "h' n") (simp add: blank_rp_query_def)
  then have "rp_init_query n (h, p) = (h', p')" using h' by (simp add: rp_init_query_def fun_upd_idem)
  with \<open>dll h' p' ([0..<n] @ [n])\<close> m show ?case using h(1) by simp
qed

lemma rp_start_ok:
  assumes "1 \<le> clients" "ramp + sustain \<noteq> 0" "bs = replicate n blank_bucket" "0 < n"
  shows "rp_ok (rp_start clients mo timeout ramp sustain fb bs now) [0..<unat mo] []"
proof -
  obtain h p where h: "fold rp_init_query [0..<unat mo] (\<lambda>_. blank_rp_query, perf_list_init) = (h, p)"
    "dll h p [0..<unat mo]" "\<And>x. link.more (h x) = link.more blank_rp_query" using rp_init_queries by blast
  have f: "rp_on (h x) = on_instanding" "\<not> is_inprogress (h x)" for x
    using rp_more_fields [OF h(3), of x] by (simp_all add: blank_rp_query_def)
  have "0 < unat clients" using assms(1) by (simp add: word_le_nat_alt)
  then show ?thesis
    using h(1,2) f dll_init [of h] assms(2-4)
    by (auto simp: rp_start_def rp_ok_def rp_lists_def rp_sums_def n_buckets_def blank_bucket_def sum_list_replicate)
qed

lemma rp_start_idle: "\<not> is_inprogress (rp_queries (rp_start clients mo timeout ramp sustain fb bs now) q)"
proof -
  obtain h p where h: "fold rp_init_query [0..<unat mo] (\<lambda>_. blank_rp_query, perf_list_init) = (h, p)"
    "\<And>x. link.more (h x) = link.more blank_rp_query" using rp_init_queries by blast
  then show ?thesis using rp_more_fields [OF h(2), of q] by (simp add: rp_start_def blank_rp_query_def)
qed

lemma make_buckets_ok:
  assumes "make_buckets traffic interval = Ret bs" "traffic \<noteq> 0" "unat traffic + unat interval \<le> 2 ^ 64"
    "unat traffic \<le> (2 ^ 31 - 1) * unat interval"
  shows "\<exists>n. bs = replicate n blank_bucket \<and> 0 < n"
proof -
  have i: "interval \<noteq> 0" using assms(1) by (auto simp: make_buckets_def)
  let ?t = "unat traffic" and ?i = "unat interval"
  have pos: "0 < ?t" "0 < ?i" using assms(2) i by (simp_all add: unat_gt_0)
  have "unat (traffic + interval - 1) = ?t + ?i - 1"
  proof -
    have "traffic + interval - 1 = of_nat (?t + ?i - 1)" using pos by (simp add: of_nat_diff)
    moreover have "?t + ?i - 1 < 2 ^ 64" using assms(3) pos by simp
    ultimately show ?thesis by (simp add: unsigned_of_nat take_bit_nat_eq_self_iff)
  qed
  define q where "q = (?t + ?i - 1) div ?i"
  have q: "unat ((traffic + interval - 1) div interval) = q" using \<open>unat (traffic + interval - 1) = _\<close> by (simp add: unat_div q_def)
  have "1 \<le> q" using pos by (simp add: q_def Suc_le_eq div_greater_zero_iff)
  have "?t + ?i - 1 < 2 ^ 31 * ?i" using assms(4) pos by (simp add: algebra_simps)
  then have "q < 2 ^ 31" unfolding q_def using pos by (simp add: less_mult_imp_div_less)
  have w: "(traffic + interval - 1) div interval = of_nat q" using q [symmetric] by simp
  have "sint (ucast (of_nat q :: u64) :: u32) = int q"
  proof -
    have "take_bit 64 q = q" "take_bit 32 q = q"
      using \<open>q < 2 ^ 31\<close> by (simp_all add: take_bit_nat_eq_self_iff)
    then have "ucast (of_nat q :: u64) = (of_nat q :: u32)" "uint (of_nat q :: u32) = int q"
      by (simp_all add: unsigned_of_nat of_nat_take_bit [symmetric])
    moreover have "signed_take_bit 31 (int q) = int q" using \<open>q < 2 ^ 31\<close> by (intro signed_take_bit_int_eq_self) auto
    ultimately show ?thesis by (simp add: sint_uint)
  qed
  then have "bs = replicate q blank_bucket" using assms(1) i w by (simp add: make_buckets_def init_buckets_def)
  then show ?thesis using \<open>1 \<le> q\<close> by auto
qed

section \<open>What setup establishes\<close>

text \<open>Opening a socket makes no callback for a sent message: there is none.\<close>

definition opens_quietly :: "('c, 'd) rp_environment \<Rightarrow> bool" where
  "opens_quietly env \<longleftrightarrow> (\<forall>mode server local bufsize n timeout acts. env_socket env mode server local bufsize n timeout = Ret acts \<longrightarrow>
    (\<forall>q. Sent_callback q \<notin> set acts))"

lemma rp_callbacks_buckets:
  "rp_callbacks sock acts st = Ret st' \<Longrightarrow> \<forall>q. Sent_callback q \<notin> set acts \<Longrightarrow> n_buckets st' = n_buckets st"
proof (induction sock acts st rule: rp_callbacks.induct)
  case (3 sock e ts as st)
  have "n_buckets (rp_net_event e ts st) = n_buckets st" by (simp add: rp_net_event_def upd_bucket_def Let_def n_buckets_def)
  then show ?case using 3 by simp
qed auto

lemma open_sockets_ok:
  assumes "open_sockets opener is st = Ret st'" "\<And>i acts q. opener i = Ret acts \<Longrightarrow> Sent_callback q \<notin> set acts"
  shows "n_buckets st' = n_buckets st \<and> (rp_ok st qs os \<longrightarrow> rp_ok st' qs os \<and> same_time st st')"
  using assms(1)
proof (induction "is" arbitrary: st)
  case (Cons i "is")
  then obtain acts st1 where a: "opener (of_nat i) = Ret acts" "rp_callbacks i acts st = Ret st1" "open_sockets opener is st1 = Ret st'"
    by auto
  have quiet: "\<forall>q. Sent_callback q \<notin> set acts" using assms(2) [OF a(1)] by blast
  then have n: "n_buckets st1 = n_buckets st" by (rule rp_callbacks_buckets [OF a(2)])
  have "calls_ok st i acts" using quiet by (simp add: calls_ok_def)
  then have "rp_ok st qs os \<Longrightarrow> rp_ok st1 qs os \<and> same_time st st1" using rp_callbacks_ok [of st qs os i acts] a(2) by auto
  then show ?case using Cons.IH [OF a(3)] n same_time_trans by auto
qed simp

lemma resperf_types:
  assumes "register_all resperf_options no_options = Ret os"
  shows "var_types os W_nsocks = {perf_opt_uint}" "var_types os W_max_outstanding = {perf_opt_uint}"
  using register_all_types [OF assms] by (simp_all add: no_options_def var_types_def resperf_options_def)

text \<open>
  What holds after setup: the queries are all available and have an identifier that fits into 16
  bits.
\<close>

definition ids_fit :: "resperf \<Rightarrow> bool" where
  "ids_fit st \<longleftrightarrow> rp_max_outstanding st \<le> 65536 * rp_nsocks st \<and> rp_max_outstanding st < 2 ^ 32"

lemma check_limits_ok:
  "check_limits outstanding clients ramp sustain = Ret () \<Longrightarrow>
    unat outstanding \<le> 65536 * unat clients \<and> ramp + sustain \<noteq> 0"
  using mod_less_eq_dividend [of "unat clients * 65536" "2 ^ 32"]
  by (auto simp: check_limits_def DEFAULT_MAX_OUTSTANDING_def word_less_nat_alt unat_word_ariths not_less split: if_splits
      intro: order_trans)

lemma rp_start_fields [simp]:
  "rp_max_outstanding (rp_start c mo t r s f bs now) = unat mo" "rp_nsocks (rp_start c mo t r s f bs now) = unat c"
  "rp_phase (rp_start c mo t r s f bs now) = PHASE_RAMP" "n_buckets (rp_start c mo t r s f bs now) = length bs"
  "time_now (rp_start c mo t r s f bs now) = now" "time_of_program_start (rp_start c mo t r s f bs now) = now"
  by (simp_all add: rp_start_def n_buckets_def split: prod.split)

lemma main_buffers_ok:
  "buf_wf (fst (main_buffers edns))" "0 < buf_length (fst (main_buffers edns))"
  "buf_wf (snd (main_buffers edns))" "512 \<le> buf_length (snd (main_buffers edns))"
  by (simp_all add: main_buffers_def Let_def perf_buffer_init_def buf_wf_def RP_INPUT_DATA_def MAX_EDNS_PACKET_def MAX_UDP_PACKET_def)

lemma make_buckets_blank: "make_buckets traffic interval = Ret bs \<Longrightarrow> \<exists>n. bs = replicate n blank_bucket"
  by (auto simp: make_buckets_def init_buckets_def split: if_splits)

lemma setup_resperf_ok:
  assumes "setup_resperf env = Ret (st, io, g)" "0 < n_buckets st" "opens_quietly env"
    and "\<And>md k c. evp_setup (env_ssl env) md k = Some c \<Longrightarrow> keyed c"
  shows "rp_ok st [0..<rp_max_outstanding st] [] \<and> state_ok keyed (0, st, io) \<and> ids_fit st \<and> 0 < rp_max_outstanding st \<and>
    time_now st = time_of_program_start st \<and> rp_phase st = PHASE_RAMP"
proof -
  obtain os vs where os: "register_all resperf_options no_options = Ret os"
    and vs: "perf_opt_parse (env_floats env) (env_getopt env) os (\<lambda>_. None) = Ret vs"
    and conf: "rp_configure env vs = Ret (st, io, g)"
    using assms(1) by (auto simp: setup_resperf_def)
  have "well_typed os (\<lambda>_. None)" by (simp add: well_typed_def)
  then have typed: "well_typed os vs" by (rule opt_parse_ok [OF vs])
  note ty = resperf_types [OF os]
  define c where "c = uint_of vs W_nsocks 1"
  define mo where "mo = uint_of vs W_max_outstanding DEFAULT_MAX_OUTSTANDING"
  have pos: "1 \<le> c" "1 \<le> mo"
    using uint_of_pos [OF typed ty(1), of 1] uint_of_pos [OF typed ty(2), of DEFAULT_MAX_OUTSTANDING]
    by (simp_all add: c_def mo_def DEFAULT_MAX_OUTSTANDING_def word_le_nat_alt)
  define ramp where "ramp = time_of vs W_ramp_time (60 * MILLION)"
  define sustain where "sustain = time_of vs W_sustain_time 0"
  define timeout where "timeout = time_of vs W_timeout (45 * MILLION)"
  define fb where "fb = uint_of vs W_max_fall_behind 1000"
  define edns where "edns = (bool_of vs W_edns \<or> bool_of vs W_dnssec \<or> string_of vs W_edns_option \<noteq> None)"
  note vals = c_def [symmetric] mo_def [symmetric] ramp_def [symmetric] sustain_def [symmetric] timeout_def [symmetric]
    fb_def [symmetric] edns_def [symmetric]
  obtain bs opt key input mode server local where
    lim: "check_limits mo c ramp sustain = Ret ()"
    and inp: "perf_datafile_open (env_open env (string_of vs W_filename)) input_format_text_query = Ret input"
    and key: "(case string_of vs W_tsigkey of
        None \<Rightarrow> Ret None | Some k \<Rightarrow> obind (perf_tsig_parsekey (env_ssl env) k) (\<lambda>k. Ret (Some k))) = Ret key"
    and opt: "(case string_of vs W_edns_option of
              None \<Rightarrow> Ret None | Some a \<Rightarrow> obind (perf_edns_parseoption a) (\<lambda>e. Ret (Some e))) = Ret opt"
    and bs: "make_buckets (ramp + sustain) (time_of vs W_bucket_interval (MILLION div 2)) = Ret bs"
    and opened: "open_sockets (\<lambda>i. obind (perf_net_opensocket mode server local i) (\<lambda>(mode, local).
          env_socket env mode server local (uint_of vs W_bufsize 32) (ucast (uint_of vs W_num_queries_per_conn 0)) timeout)) [0..<unat c] (rp_start c mo timeout ramp sustain fb bs (env_now env)) = Ret st"
    and io: "io = \<lparr>io_edns = edns, io_dnssec = bool_of vs W_dnssec, io_option = opt, io_key = key,
              io_lines = fst (main_buffers edns), io_msg = snd (main_buffers edns),
              io_file = (if bool_of vs W_reopen then perf_datafile_setmaxruns input (- 1) else input), io_input = env_input env\<rparr>"
    using conf unfolding rp_configure_def Let_def vals
    by (simp only: obind_eq_Ret) (elim exE conjE, simp)
  let ?st = "rp_start c mo timeout ramp sustain fb bs (env_now env)"
  have quiet: "Sent_callback q \<notin> set acts" if "obind (perf_net_opensocket mode server local i) (\<lambda>(mode, local).
      env_socket env mode server local (uint_of vs W_bufsize 32) (ucast (uint_of vs W_num_queries_per_conn 0)) timeout) = Ret acts"
    for i acts q using that assms(3) by (auto simp: opens_quietly_def)
  have o: "n_buckets st = n_buckets ?st \<and> (rp_ok ?st [0..<unat mo] [] \<longrightarrow> rp_ok st [0..<unat mo] [] \<and> same_time ?st st)"
    by (rule open_sockets_ok [OF opened quiet])
  note l = check_limits_ok [OF lim]
  obtain n where n: "bs = replicate n blank_bucket" using make_buckets_blank [OF bs] by blast
  have "0 < n" using o assms(2) n by simp
  have "rp_ok ?st [0..<unat mo] []" using rp_start_ok [OF pos(1) _ n \<open>0 < n\<close>] l by blast
  then have st: "rp_ok st [0..<unat mo] []" "same_time ?st st" using o by blast+
  have f: "rp_max_outstanding st = unat mo" "rp_nsocks st = unat c" "time_now st = env_now env"
      "time_of_program_start st = env_now env" "rp_phase st = PHASE_RAMP"
    using st(2) by (simp_all add: same_time_def same_run_def)
  have "0 < unat c" "0 < unat mo" using pos by (simp_all add: word_le_nat_alt)
  moreover have "ids_fit st" using l f unsigned_less [of mo, where ?'a = nat] by (simp add: ids_fit_def)
  moreover have "option_wf opt" using opt parseoption_wf by (auto simp: option_wf_def split: option.splits)
  moreover have "case key of None \<Rightarrow> True | Some key \<Rightarrow> tsigkey_wf keyed key"
    using key parsekey_wf assms(4) by (auto split: option.splits)
  moreover have "df_format (io_file io) = input_format_text_query"
    using inp io by (auto simp: perf_datafile_open_def perf_datafile_setmaxruns_def split: option.splits)
  ultimately show ?thesis
    using st(1) f main_buffers_ok [of edns] io by (auto simp: state_ok_def io_ok_def)
qed

section \<open>The whole program\<close>

text \<open>The two lists and the counters of a state account for all queries.\<close>

definition accounted :: "resperf \<Rightarrow> bool" where
  "accounted st \<longleftrightarrow> (\<exists>is os. dll (rp_queries st) (rp_instanding st) is \<and> dll (rp_queries st) (rp_outstanding st) os \<and>
    mset is + mset os = mset [0..<rp_max_outstanding st] \<and>
    num_queries_outstanding st = of_nat (length os) \<and>
    num_queries_sent st = num_queries_outstanding st + num_responses_received st + num_queries_timed_out st \<and>
    sum_list (rp_rcodecounts st) = num_responses_received st \<and>
    sum_list (map b_responses (rp_buckets st)) = ucast (num_responses_received st))"

lemma rp_inv_accounted:
  assumes "rp_inv st"
  shows "accounted st"
proof -
  obtain "is" os where ok: "rp_ok st is os" using assms by (auto simp: rp_inv_def)
  then have d: "dll (rp_queries st) (rp_instanding st) is" "dll (rp_queries st) (rp_outstanding st) os"
    "set is \<inter> set os = {}" "set is \<union> set os = {..<rp_max_outstanding st}" by (simp_all add: rp_ok_def rp_lists_def)
  have "distinct (is @ os)" "set (is @ os) = set [0..<rp_max_outstanding st]" using d by (auto simp: dll_def atLeast0LessThan)
  then have "mset (is @ os) = mset [0..<rp_max_outstanding st]" using set_eq_iff_mset_eq_distinct [of "is @ os" "[0..<rp_max_outstanding st]"] distinct_upt by blast
  then show ?thesis using ok d unfolding accounted_def by (intro exI [of _ "is"] exI [of _ os]) (simp add: rp_ok_def rp_sums_def)
qed



section \<open>Responses\<close>

lemma index_roundtrip:
  assumes "ids_fit st" "q < rp_max_outstanding st"
  shows "(unat (of_nat (q div rp_nsocks st) :: u16) * rp_nsocks st + q mod rp_nsocks st) mod 2 ^ 32 = q"
proof -
  have "q < 65536 * rp_nsocks st" using assms by (simp add: ids_fit_def)
  then have "q div rp_nsocks st < 65536" by (simp add: less_mult_imp_div_less)
  then have "unat (of_nat (q div rp_nsocks st) :: u16) = q div rp_nsocks st"
    by (simp add: unsigned_of_nat take_bit_nat_eq_self_iff)
  then show ?thesis using assms by (simp add: ids_fit_def)
qed

text \<open>
  C39. The identifier a query is sent with and the socket it is sent over determine the query: a
  response with that identifier, received over that socket, takes the query off the outstanding
  list, is counted with the latency of that query, and makes the query available again.
\<close>

theorem resperf_answer_found:
  assumes "rp_ok st is os" and "ids_fit st" and "q \<in> set os" and "4 \<le> n" and "4 \<le> length bs"
    and "take 2 bs = be16 (of_nat (q div rp_nsocks st))"
  shows "\<exists>st'. try_process_response (q mod rp_nsocks st) [] (Recvd n bs, []) st = Ret st' \<and> rp_ok st' (is @ [q]) (remove1 q os) \<and>
    num_responses_received st' = num_responses_received st + 1"
proof -
  have q: "q < rp_max_outstanding st" "rp_on (rp_queries st q) = on_outstanding"
    using assms(1,3) by (auto simp: rp_ok_def rp_lists_def)
  define rcode where "rcode = ntohs16 (bs ! 2) (bs ! 3) AND 0xF"
  have rc: "rcode < 16" using and_0xF [of "ntohs16 (bs ! 2) (bs ! 3)"] by (simp add: rcode_def)
  have "bs ! 0 = take 2 bs ! 0" "bs ! 1 = take 2 bs ! 1" by simp_all
  then have id: "ntohs16 (bs ! 0) (bs ! 1) = unat (of_nat (q div rp_nsocks st) :: u16)"
    using ntohs16_be16 [of "q div rp_nsocks st"] unfolding assms(6) by (simp add: unsigned_of_nat take_bit_eq_mod)
  have "try_process_response (q mod rp_nsocks st) [] (Recvd n bs, []) st = rp_answer q rcode st"
    using assms(4) q index_roundtrip [OF assms(2) q(1)] by (simp add: try_process_response_def Let_def rcode_def id [unfolded One_nat_def])
  then show ?thesis using rp_answer_ok [OF assms(1,3) rc] by auto
qed

section \<open>A concrete run\<close>

definition rp_example :: "(bytes, unit) rp_environment" where
  "rp_example = \<lparr>env_floats = \<lparr>fl_atof = \<lambda>_. (), fl_micros = \<lambda>_. 0\<rparr>, env_getopt = (\<lambda>_. ([], False)),
     env_resolve = (\<lambda>_. Some [(AF_INET, [127, 0, 0, 1])]), env_pton = (\<lambda>_ _. None),
     env_open = (\<lambda>_. Some (Some 10)), env_ssl = plain_ssl, env_ldns = False, env_clock = (\<lambda>_. Some (0, 0)),
     env_nanosleep = (\<lambda>_. True),
     env_socket = (\<lambda>mode server local bufsize n timeout. Ret [Event_callback perf_socket_event_connecting 0]),
     env_now = 1000, env_input = \<lparr>in_bytes = [], in_pos = 0, in_chunk = (\<lambda>_. 0), in_fail = (\<lambda>_. False),
       in_wait = (\<lambda>_. PERF_R_SUCCESS), in_seekable = True\<rparr>\<rparr>"

definition quiet_round :: "u64 \<Rightarrow> bytes rp_events" where
  "quiet_round now = \<lparr>re_line = \<lparr>le_inprogress = (\<lambda>_ _. (not_ready, [])), le_ready = (\<lambda>_. (not_ready, [])),
       le_sendto = (\<lambda>_ _ _. (Send_error, [])), le_ssl = plain_ssl, le_time = 0\<rparr>,
     re_recv = [([], Recv_error EAGAIN, [])], re_now = now\<rparr>"

lemma quiet_round_ok: "round_ok (\<lambda>_. True) st (quiet_round now)"
  using plain_ssl_mac by (auto simp: round_ok_def line_ok_def recv_calls_ok_def calls_ok_def quiet_round_def)

lemma rp_example_setup:
  "\<exists>st io g. setup_resperf rp_example = Ret (st, io, g) \<and> n_buckets st = 120 \<and> times_ok st \<and> time_of_program_start st = 1000 \<and>
    rp_end_time st = 100000000"
proof -
  have "case register_all resperf_options no_options of
      Ret os \<Rightarrow> (case perf_opt_parse (env_floats rp_example) (env_getopt rp_example) os (\<lambda>_. None) of Ret vs \<Rightarrow> True | _ \<Rightarrow> False)
    | _ \<Rightarrow> False" by code_simp
  then obtain os vs where os: "register_all resperf_options no_options = Ret os"
    "perf_opt_parse (env_floats rp_example) (env_getopt rp_example) os (\<lambda>_. None) = Ret vs" by (auto split: outcome.splits)
  then have vs: "perf_opt_parse (env_floats rp_example) (env_getopt rp_example) os (\<lambda>_. None) = Ret (\<lambda>_. None)"
    by (auto simp: perf_opt_parse_def rp_example_def)
  have bs: "make_buckets (60 * MILLION + 0) (MILLION div 2) = Ret (replicate 120 blank_bucket)"
    by (simp add: make_buckets_def init_buckets_def MILLION_def)
  have "case perf_net_doh_parse_uri (cstr DEFAULT_DOH_URI) of Ret u \<Rightarrow> True | _ \<Rightarrow> False" by code_simp
  then obtain u where uri: "perf_net_doh_parse_uri (cstr DEFAULT_DOH_URI) = Ret u" by (auto split: outcome.splits)
  have getm: "perf_net_doh_parse_method (cstr ''GET'') = Ret doh_method_get" by code_simp
  have "case obind (perf_net_parseserver (env_resolve rp_example) AF_UNSPEC (cstr ''127.0.0.1'') (server_port sock_udp 0)) (\<lambda>server.
      obind (perf_net_parselocal (env_pton rp_example) (sa_family server) None 0) (\<lambda>local. Ret (server, local))) of
      Ret (server, local) \<Rightarrow> sa_family server = sa_family local \<and> perf_sockaddr_port local = 0 | _ \<Rightarrow> False" by code_simp
  then obtain server local where srv:
    "perf_net_parseserver (env_resolve rp_example) AF_UNSPEC (cstr ''127.0.0.1'') (server_port sock_udp 0) = Ret server"
    "perf_net_parselocal (env_pton rp_example) (sa_family server) None 0 = Ret local"
    "sa_family server = sa_family local" "perf_sockaddr_port local = 0" by (auto split: outcome.splits)
  have op: "perf_net_opensocket sock_udp server local 0 = Ret (sock_udp, local)" using srv(3,4) by (simp add: perf_net_opensocket_def)
  have lim: "check_limits DEFAULT_MAX_OUTSTANDING 1 (60 * MILLION) 0 = Ret ()"
    by (simp add: check_limits_def DEFAULT_MAX_OUTSTANDING_def MILLION_def)
  obtain input where inp: "perf_datafile_open (env_open rp_example None) input_format_text_query = Ret input"
    by (auto simp: perf_datafile_open_def rp_example_def)
  let ?st = "rp_start 1 DEFAULT_MAX_OUTSTANDING (45 * MILLION) (60 * MILLION) 0 1000 (replicate 120 blank_bucket) 1000"
  let ?st' = "rp_net_event perf_socket_event_connecting 0 ?st"
  have conf: "\<exists>io g. rp_configure rp_example (\<lambda>_. None) = Ret (?st', io, g)"
    using uri getm srv(1,2) op lim inp bs
    by (simp add: rp_configure_def Let_def string_of_def uint_of_def time_of_def bool_of_def port_of_def perf_opt_parse_suppress_def)
      (simp add: rp_example_def)
  have "n_buckets ?st' = 120" "times_ok ?st'" "time_of_program_start ?st' = 1000" "rp_end_time ?st' = 100000000"
    by (simp_all add: rp_net_event_def rp_start_def n_buckets_def times_ok_def wait_time_default_def MILLION_def split: prod.split)
  then show ?thesis using os(1) vs conf unfolding setup_resperf_def by auto
qed

lemma rp_example_quiet: "opens_quietly rp_example"
  by (auto simp: opens_quietly_def rp_example_def)



theorem resperf_answer_found_witness:
  "\<exists>st st'. rp_ok st [1] [0] \<and> ids_fit st \<and>
    try_process_response (0 mod rp_nsocks st) [] (Recvd 12 [0, 0, 0x81, 0x80], []) st = Ret st' \<and> rp_ok st' ([1] @ [0]) (remove1 0 [0]) \<and>
    num_responses_received st' = num_responses_received st + 1"
proof -
  let ?st = "rp_start 1 2 1000 10 10 1000 (replicate 4 blank_bucket) 500"
  have "rp_ok ?st [0..<unat (2 :: u32)] []" by (rule rp_start_ok [OF _ _ refl]) simp_all
  then have ok: "rp_ok ?st (0 # [1]) []" by (simp add: upt_rec)
  from query_sent_ok [OF ok rp_start_idle] obtain st where st: "rp_ok st [1] [0]" "same_time ?st st" by auto
  have fit: "ids_fit st" using same_timeD(2,3) [OF st(2)] by (simp add: ids_fit_def)
  have "take 2 [0, 0, 0x81, 0x80] = be16 (of_nat (0 div rp_nsocks st))" by (simp add: be16_def)
  from resperf_answer_found [OF st(1) fit, of 0 12 "[0, 0, 0x81, 0x80]", OF _ _ _ this] st(1) fit show ?thesis by auto
qed

section \<open>Being ahead of the schedule\<close>

text \<open>
  Sending a query while another was in progress counts both, so that one query more than
  scheduled may have been sent.  The difference is then \<open>- 1\<close>, which is larger than every limit
  when it is compared as an unsigned number: the test is ended as if it had fallen behind.
\<close>

lemma ahead_ends_test:
  assumes "num_queries_sent st = of_int (sched (rp_phase st) (time_now st - time_of_program_start st)) + 1"
    and "rp_phase st \<noteq> PHASE_WAIT" "rp_max_fall_behind st \<noteq> 0"
  shows "send_phase sched ev st io = Some (Ret (enter_wait_phase st, io))"
proof -
  have "ucast (- 1 :: u64) = (- 1 :: u32)" by code_simp
  then have "should_send sched st = - 1" using assms(1) by (simp add: should_send_def)
  moreover have "rp_max_fall_behind st \<le> - 1" by (rule word_order.extremum)
  ultimately show ?thesis using assms(2,3) by (simp add: send_phase_def Let_def)
qed

end
