(* ===== verification/Report.thy ===== *)
theory Report
  imports Rsetup
begin

text \<open>
  The results of \<^verbatim>\<open>resperf.c\<close>: the statistics printed at the end and the lines of the plot file.
  A quotient of floating-point numbers is given by its operands; whether the loss in a bucket is too
  large, which is decided with floating-point numbers, is a parameter.
\<close>

section \<open>The buckets that are shown\<close>

definition last_bucket_used :: "resperf \<Rightarrow> nat" where
  "last_bucket_used st =
    (let i = find_bucket (wait_phase_began st) st in if i > 0 then i - 1 else i)"

text \<open>A line of the plot file: the number of the bucket and the bucket the other columns are computed from.\<close>

definition plot_lines :: "resperf \<Rightarrow> (nat \<times> ramp_bucket) list" where
  "plot_lines st = map (\<lambda>i. (i, rp_buckets st ! i)) [0..<last_bucket_used st + 1]"

section \<open>Maximum throughput\<close>

text \<open>
  The loop stops at the first bucket whose loss is too large; \<open>None\<close> stands for the initial
  throughput and loss of zero.  Responses per second are compared by the responses, since the
  length of the interval is the same.
\<close>

definition best_responses :: "ramp_bucket option \<Rightarrow> int" where
  "best_responses best = (case best of None \<Rightarrow> 0 | Some b \<Rightarrow> sint (b_responses b))"

fun throughput_loop :: "(ramp_bucket \<Rightarrow> bool) \<Rightarrow> ramp_bucket list \<Rightarrow> ramp_bucket option \<Rightarrow> ramp_bucket option" where
  "throughput_loop lossy [] best = best"
| "throughput_loop lossy (b # bs) best =
    (if lossy b then best
     else throughput_loop lossy bs (if sint (b_responses b) > best_responses best then Some b else best))"

text \<open>The codes with their counts, and where a line break or a comma is printed is left out.\<close>

definition rcode_lines :: "u64 list \<Rightarrow> (nat \<times> u64) list" where
  "rcode_lines cs = filter (\<lambda>(i, c). c \<noteq> 0) (map (\<lambda>i. (i, cs ! i)) [0..<16])"

record rp_report =
  rr_sent :: u64
  rr_completed :: u64
  rr_lost :: u64
  rr_rcodes :: "(nat \<times> u64) list"
  rr_run_sec :: u32
  rr_run_usec :: u32
  rr_max_throughput :: "ramp_bucket option"
  rr_conn_attempts :: u64
  rr_conn_completed :: u64

definition rp_print_statistics :: "(ramp_bucket \<Rightarrow> bool) \<Rightarrow> u64 \<Rightarrow> resperf \<Rightarrow> rp_report" where
  "rp_print_statistics lossy now st =
    (let run_time = now - time_of_program_start st
     in \<lparr>rr_sent = num_queries_sent st, rr_completed = num_responses_received st,
         rr_lost = num_queries_sent st - num_responses_received st, rr_rcodes = rcode_lines (rp_rcodecounts st),
         rr_run_sec = ucast (run_time div MILLION), rr_run_usec = ucast (run_time mod MILLION),
         rr_max_throughput = throughput_loop lossy (map (\<lambda>i. rp_buckets st ! i) [0..<last_bucket_used st + 1]) None,
         rr_conn_attempts = num_conn_attempts st, rr_conn_completed = num_conn_completed st\<rparr>)"

section \<open>What they show\<close>

lemma last_bucket_used_less: "0 < n_buckets st \<Longrightarrow> last_bucket_used st < n_buckets st"
  using find_bucket_less [of st "wait_phase_began st"] by (auto simp: last_bucket_used_def Let_def)

lemma throughput_loop_best:
  assumes "throughput_loop lossy bs best = r"
  shows "(\<forall>c \<in> set (takeWhile (\<lambda>b. \<not> lossy b) bs). sint (b_responses c) \<le> best_responses r) \<and> best_responses best \<le> best_responses r \<and>
    (r = best \<or> (\<exists>b \<in> set (takeWhile (\<lambda>b. \<not> lossy b) bs). r = Some b))"
  using assms
proof (induction bs arbitrary: best)
  case (Cons b bs)
  let ?best = "if sint (b_responses b) > best_responses best then Some b else best"
  have "best_responses best \<le> best_responses ?best" "sint (b_responses b) \<le> best_responses ?best" by (auto simp: best_responses_def)
  then show ?case using Cons.IH [of ?best] Cons.prems by (cases "lossy b") (auto split: if_splits)
qed simp

lemma rcode_lines_sum:
  assumes "length cs = 16"
  shows "sum_list (map snd (rcode_lines cs)) = sum_list cs"
proof -
  have "sum_list (map snd (filter (\<lambda>(i, c). c \<noteq> 0) xs)) = sum_list (map snd xs)" for xs :: "(nat \<times> u64) list"
    by (induction xs) auto
  moreover have "map snd (map (\<lambda>i. (i, cs ! i)) [0..<16]) = cs" using assms by (auto intro: nth_equalityI)
  ultimately show ?thesis unfolding rcode_lines_def by metis
qed

text \<open>
  C40. The report: the queries lost are those that timed out or are still outstanding, the counts of
  the response codes printed add up to the queries completed, and the maximum throughput is that of
  a plotted bucket, largest among the buckets before the first one whose loss is too large.
\<close>

theorem report_accounts:
  assumes "rp_inv st" and "r = rp_print_statistics lossy now st"
    and "good = takeWhile (\<lambda>b. \<not> lossy b) (map snd (plot_lines st))"
  shows "rr_lost r = num_queries_outstanding st + num_queries_timed_out st \<and> sum_list (map snd (rr_rcodes r)) = rr_completed r \<and>
    set (map snd (plot_lines st)) \<subseteq> set (rp_buckets st) \<and>
    (case rr_max_throughput r of
       None \<Rightarrow> \<forall>c \<in> set good. sint (b_responses c) \<le> 0
     | Some b \<Rightarrow> b \<in> set good \<and> (\<forall>c \<in> set good. sint (b_responses c) \<le> sint (b_responses b)))"
proof -
  obtain "is" os where ok: "rp_ok st is os" using assms(1) by (auto simp: rp_inv_def)
  have "map snd (plot_lines st) = map (\<lambda>i. rp_buckets st ! i) [0..<last_bucket_used st + 1]" by (simp add: plot_lines_def)
  then have "rr_max_throughput r = throughput_loop lossy (map snd (plot_lines st)) None"
    using assms(2) by (simp add: rp_print_statistics_def Let_def)
  from throughput_loop_best [OF this [symmetric]] have "case rr_max_throughput r of
       None \<Rightarrow> \<forall>c \<in> set good. sint (b_responses c) \<le> 0
     | Some b \<Rightarrow> b \<in> set good \<and> (\<forall>c \<in> set good. sint (b_responses c) \<le> sint (b_responses b))"
    unfolding assms(3) [symmetric] by (auto simp: best_responses_def split: option.splits)
  moreover have "set (map snd (plot_lines st)) \<subseteq> set (rp_buckets st)"
    using last_bucket_used_less [of st] ok by (auto simp: plot_lines_def rp_ok_def rp_sums_def n_buckets_def)
  ultimately show ?thesis
    using ok assms(2) rcode_lines_sum [of "rp_rcodecounts st"] by (simp add: rp_print_statistics_def Let_def rp_ok_def rp_sums_def)
qed

theorem report_accounts_witness:
  "\<exists>st. rp_inv st \<and>
    rr_lost (rp_print_statistics (\<lambda>b. b_queries b \<noteq> b_responses b) 9000 st) = num_queries_outstanding st + num_queries_timed_out st \<and>
    set (map snd (plot_lines st)) \<subseteq> set (rp_buckets st)"
proof -
  have "rp_inv (rp_start 1 2 1000 10 10 1000 (replicate 4 blank_bucket) 500)" by (rule rp_invI, rule rp_start_ok [OF _ _ refl]) simp_all
  from report_accounts [OF this refl refl, of "\<lambda>b. b_queries b \<noteq> b_responses b" 9000] this show ?thesis by blast
qed

end
