(* ===== verification/Spec2Isabelle.thy ===== *)
theory Spec2Isabelle
  imports Receiver Transport Report
begin

text \<open>
  A verification development for \<^verbatim>\<open>dnsperf\<close> and \<^verbatim>\<open>resperf\<close>, two programs that measure the
  performance of a DNS server.  All source files named below are in \<^verbatim>\<open>src/src\<close>.

  \<^bold>\<open>The program.\<close>  \<^verbatim>\<open>setup\<close> of \<^verbatim>\<open>dnsperf.c\<close> reads the command line (\<^verbatim>\<open>opt.c\<close>) and opens the input
  (\<^verbatim>\<open>datafile.c\<close>).  Each thread has a table of queries linked in two lists (\<^verbatim>\<open>list.h\<close>), a sending
  half and a receiving half.  The sender takes a query from the unused list, turns a line of the
  input into a message (\<^verbatim>\<open>dns.c\<close>, \<^verbatim>\<open>edns.c\<close>, \<^verbatim>\<open>tsig.c\<close>, over the buffers of \<^verbatim>\<open>buffer.h\<close>) and hands
  it to a transport (\<^verbatim>\<open>net.c\<close>, \<^verbatim>\<open>net_udp.c\<close>, \<^verbatim>\<open>net_tcp.c\<close>, \<^verbatim>\<open>net_dot.c\<close>).  The receiver matches
  responses to the outstanding queries, expires old ones and counts (\<^verbatim>\<open>ext/hg64.c\<close> for the
  histogram of latencies).  At the end the counts of the threads are added up and printed.
  \<^verbatim>\<open>resperf\<close> (\<^verbatim>\<open>resperf.c\<close>) has one thread that raises the rate of queries step by step; it uses the
  same messages, lists, input and transports.

  \<^bold>\<open>The theories.\<close>  A theory imports those of the components it calls.

    \<^item> \<open>Prelude\<close>: words, bytes and lists; the result type \<open>outcome\<close>, where \<open>Abort\<close> is a failed
      assertion, \<open>Exit\<close> the end of the program by \<^verbatim>\<open>perf_log_fatal\<close> and \<open>UB\<close> an access outside an
      object.
    \<^item> \<open>Buffer\<close> (\<^verbatim>\<open>buffer.h\<close>): the message buffer; every \<^verbatim>\<open>assert\<close> is an \<open>Abort\<close>.
    \<^item> \<open>Dname\<close>, \<open>Query\<close>, \<open>Dns\<close> (\<^verbatim>\<open>dns.c\<close>, \<^verbatim>\<open>qtype.c\<close>), \<open>Edns\<close> (\<^verbatim>\<open>edns.c\<close>), \<open>Tsig\<close> (\<^verbatim>\<open>tsig.c\<close>): the
      messages.  The wire format of a name, an OPT record, a TSIG record and a whole request is
      specified independently of the code, and the code is shown to write it, never to fail an
      assertion, and to leave the message alone on its error paths.
    \<^item> \<open>Datafile\<close>, \<open>Runs\<close> (\<^verbatim>\<open>datafile.c\<close>): the input.  \<open>Datafile\<close> has the functions, \<open>Runs\<close> what a
      sequence of calls delivers: the lines of the file, run after run, independent of the sizes of
      the reads.
    \<^item> \<open>Hg64\<close> (\<^verbatim>\<open>ext/hg64.c\<close>), \<open>Stats\<close> (\<^verbatim>\<open>dnsperf.c\<close>): the histogram, its buckets and counts, and the
      statistics as summaries of the multiset of responses.
    \<^item> \<open>Qlist\<close> (\<^verbatim>\<open>list.h\<close>): doubly linked lists in a store, with the locale \<open>intrusive_list\<close> that
      its clients use; \<open>Threads\<close> (\<^verbatim>\<open>dnsperf.c\<close>): the queries of a thread and every operation that moves
      one; \<open>Workers\<close>: sender and receiver as an inductive relation \<open>step\<close> whose steps are the
      sections between two releases of the lock, with the invariant of all reachable states.
    \<^item> \<open>Opt\<close> (\<^verbatim>\<open>opt.c\<close>), \<open>Net\<close> (\<^verbatim>\<open>net.c\<close>), \<open>Uri\<close> (\<^verbatim>\<open>ext/parse_uri.c\<close>), \<open>Setup\<close> (\<^verbatim>\<open>dnsperf.c\<close>): from the
      command line to a configuration.
    \<^item> \<open>Bits\<close>, \<open>Sender\<close>, \<open>Receiver\<close> (\<^verbatim>\<open>dnsperf.c\<close>): the loops \<^verbatim>\<open>do_send\<close> and \<^verbatim>\<open>do_recv\<close> as functions
      of what the clock and the sockets deliver; both are shown to be behaviours of the relation
      \<open>step\<close>.
    \<^item> \<open>Os\<close> (\<^verbatim>\<open>os.c\<close>), \<open>Framing\<close>, \<open>Tcp\<close>, \<open>Dot\<close>, \<open>Transport\<close> (\<^verbatim>\<open>net_tcp.c\<close>, \<^verbatim>\<open>net_dot.c\<close>,
      \<^verbatim>\<open>net_udp.c\<close>): waiting and the transports.  \<open>Framing\<close> has the locale \<open>message_reader\<close> for the
      splitting of a stream into messages, \<open>Transport\<close> the locale \<open>transport\<close> for the contract of
      \<^verbatim>\<open>struct perf_net_socket\<close>; both are interpreted by the transports.

    \<^item> \<open>Resperf\<close>, \<open>Ramp\<close>, \<open>Rsetup\<close>, \<open>Report\<close> (\<^verbatim>\<open>resperf.c\<close>): the program \<^verbatim>\<open>resperf\<close>, its state and the
      operations on it, the main loop, the setup from the command line and the report.  From setup on
      every state of the loop accounts for all queries, and the loop ends.

  Interfaces are locales, interpreted on the definitions of the component that provides them:
  \<open>byte_sink\<close> (\<open>Buffer\<close>), \<open>line_source\<close> (\<open>Datafile\<close>), \<open>counter_table\<close> (\<open>Hg64\<close>), \<open>intrusive_list\<close>
  (\<open>Qlist\<close>), \<open>bit_array\<close> (\<open>Bits\<close>), \<open>message_reader\<close> and \<open>transport\<close>.

  \<^bold>\<open>Parameters.\<close>  OpenSSL, the C functions for floating-point numbers and the calls of the operating
  system (\<^verbatim>\<open>read\<close>, \<^verbatim>\<open>poll\<close>, \<^verbatim>\<open>recv\<close>, \<^verbatim>\<open>sendto\<close>, the clock) are arguments of the definitions.  What
  is assumed of them is named in the statements: \<open>is_mac\<close> says that a message authentication code
  depends only on the key and the bytes given to it, \<open>sends_ok\<close> and \<open>writes_ok\<close> that not more bytes
  are written than were offered.

  \<^bold>\<open>Bounds.\<close>  Loops over a list of queries take fuel: \<open>NQIDS + 1\<close> in \<open>Threads\<close> and
  \<open>rp_max_outstanding + 1\<close> in \<open>Resperf\<close>, one more than there are queries; the lemmas show that it is enough.  The loops of the threads take the list of the
  rounds to run and say whether the loop was left before the list was used up.  Counters are words of the width of the source,
  so that they wrap as in C; where a statement needs that they do not, it says so.

  \<^bold>\<open>Not modelled.\<close>  Dynamic updates (\<^verbatim>\<open>build_update\<close> and its helpers in \<^verbatim>\<open>dns.c\<close>) consist of calls of
  LDNS and are an argument of \<open>perf_dns_buildrequest\<close>.  Of DNS over HTTPS (\<^verbatim>\<open>net_doh.c\<close>) only the
  options are in \<open>Setup\<close>: its functions are callbacks of nghttp2.  Logging and \<^verbatim>\<open>strerror.c\<close> print
  text.  Of \<^verbatim>\<open>util.h\<close> the macros for mutexes and threads are calls of the system library; a lock is
  modelled where it matters, by the sections of \<open>step\<close> and by a flag in \<open>Dot\<close>.
\<close>

end
